(* ===== verification/Kitten_Prelude.thy ===== *)
theory Kitten_Prelude
  imports Main "HOL-Library.Word" "HOL-Library.Monad_Syntax"
begin

text \<open>
  Shared vocabulary of the development: the C integer types the kernel uses, the error
  numbers its functions return, the two list idioms that recur in the kernel (scan a list
  up to the first larger key and link in front of it; scan for the first match) and the
  lemmas that move 64-bit arithmetic to \<^typ>\<open>nat\<close>.

  Conventions. A failed \<^verbatim>\<open>BUG_ON\<close> or a \<^verbatim>\<open>panic()\<close> stops the machine, so a
  function that can hit one returns an \<^verbatim>\<open>option\<close>, with \<^term>\<open>None\<close> for
  the stop. A function that returns \<^verbatim>\<open>0\<close> or \<^verbatim>\<open>-Exxx\<close> returns a
  \<^verbatim>\<open>status\<close>. Spinlocks and interrupt masking make the bodies they enclose
  atomic, so a locked body is one function on the state it protects.
\<close>

unbundle bit_operations_syntax

section \<open>Machine types\<close>

type_synonym u64 = "64 word"
type_synonym u32 = "32 word"
type_synonym paddr = u64
type_synonym vaddr = u64

section \<open>Error numbers\<close>

datatype errno =
    EPERM | ENOENT | EINTR | EAGAIN | ENOMEM | EBUSY | EEXIST | EINVAL | ECHILD
  | ENOTUNIQ | EFAULT | ESRCH

datatype status = OK | Err errno

text \<open>Outcomes of calls into the kernel heap: \<^term>\<open>True\<close> for a call of
  \<^verbatim>\<open>kmem_alloc\<close> that returns memory and \<^term>\<open>False\<close> for one that
  returns \<^verbatim>\<open>NULL\<close>. An exhausted list is a heap that has nothing left.\<close>

type_synonym heap_oracle = "bool list"

fun take_alloc :: "heap_oracle \<Rightarrow> bool \<times> heap_oracle" where
  "take_alloc [] = (False, [])"
| "take_alloc (b # bs) = (b, bs)"

section \<open>Lists kept sorted by a key\<close>

text \<open>
  The loop
  \<^verbatim>\<open>list_for_each(pos, head) { if (key(cur) > key(new)) break; } list_add_tail(new, pos);\<close>
  links the new element in front of the first one with a larger key, or at the tail.
\<close>

fun link_sorted :: "('a \<Rightarrow> 'k::linorder) \<Rightarrow> 'a \<Rightarrow> 'a list \<Rightarrow> 'a list" where
  "link_sorted key x [] = [x]"
| "link_sorted key x (y # ys) = (if key x < key y then x # y # ys else y # link_sorted key x ys)"

lemma set_link_sorted [simp]: "set (link_sorted key x xs) = insert x (set xs)"
  by (induction xs) auto

lemma length_link_sorted [simp]: "length (link_sorted key x xs) = Suc (length xs)"
  by (induction xs) auto

lemma distinct_link_sorted [simp]:
  "distinct (link_sorted key x xs) = (x \<notin> set xs \<and> distinct xs)"
  by (induction xs) auto

lemma sorted_link_sorted:
  "sorted (map key xs) \<Longrightarrow> sorted (map key (link_sorted key x xs))"
  by (induction xs) (auto simp: less_imp_le not_less)

lemma link_sorted_split:
  "sorted (map key xs) \<Longrightarrow>
   link_sorted key x xs =
     filter (\<lambda>y. key y \<le> key x) xs @ x # filter (\<lambda>y. key x < key y) xs"
proof (induction xs)
  case (Cons y ys)
  show ?case
  proof (cases "key x < key y")
    case True
    then have "\<forall>z \<in> set ys. key x < key z" using Cons.prems by auto
    then have "filter (\<lambda>y. key y \<le> key x) ys = []" "filter (\<lambda>y. key x < key y) ys = ys"
      by (auto simp: filter_empty_conv not_le)
    with True show ?thesis by auto
  next
    case False
    with Cons show ?thesis by auto
  qed
qed simp

section \<open>64-bit arithmetic on natural numbers\<close>

named_theorems word_nat \<open>facts that read 64-bit operations as operations on nat\<close>

lemma unat64_less: "unat (x :: u64) < 2 ^ 64"
  by (rule order_less_le_trans [OF unsigned_less]) simp

lemma unat64_less_numeral [simp]: "unat (x :: u64) < 18446744073709551616"
  using unat64_less [of x] by simp

lemma unat64_add [word_nat]:
  "unat (a :: u64) + unat b < 2 ^ 64 \<Longrightarrow> unat (a + b) = unat a + unat b"
  by (simp add: unat_word_ariths)

lemma unat64_sub [word_nat]:
  "b \<le> (a :: u64) \<Longrightarrow> unat (a - b) = unat a - unat b"
  by (simp add: unat_sub)

lemma unat64_of_nat [word_nat]:
  "n < 2 ^ 64 \<Longrightarrow> unat (of_nat n :: u64) = n"
  by (simp add: unat_of_nat take_bit_nat_eq_self)

lemma unat64_pow2 [word_nat]:
  "k < 64 \<Longrightarrow> unat (2 ^ k :: u64) = 2 ^ k"
proof -
  assume k: "k < 64"
  then have "(2::nat) ^ k < 2 ^ 64" by (rule power_strict_increasing) simp
  then have "unat (of_nat (2 ^ k) :: u64) = 2 ^ k" by (rule unat64_of_nat)
  then show ?thesis by simp
qed

lemma push_bit_1_u64: "push_bit k (1 :: u64) = 2 ^ k"
  by (simp add: push_bit_eq_mult)

lemma word64_eq_iff_unat: "(a :: u64) = b \<longleftrightarrow> unat a = unat b"
  by (simp add: word_unat_eq_iff)

lemma unat64_eqD: "unat (x :: u64) = n \<Longrightarrow> x = of_nat n"
  by auto

lemmas word64_le_unat = word_le_nat_alt [where ?'a = 64]
lemmas word64_less_unat = word_less_nat_alt [where ?'a = 64]

lemmas word64_cmp = word64_le_unat word64_less_unat word64_eq_iff_unat

lemma unat64_and: "unat ((a :: u64) AND b) = (unat a AND unat b)"
  by (rule bit_eqI) (simp add: bit_unsigned_iff bit_simps)

lemma unat64_xor: "unat ((a :: u64) XOR b) = (unat a XOR unat b)"
  by (rule bit_eqI) (auto simp: bit_unsigned_iff bit_simps)

end
