(* ===== verification/Kitten_Log2.thy ===== *)
theory Kitten_Log2
  imports Kitten_Prelude
begin

text \<open>
  The bit-level arithmetic of \<^verbatim>\<open>include/lwk/log2.h\<close> and
  \<^verbatim>\<open>include/lwk/macros.h\<close> that the memory managers are built on: last set bit,
  base-2 logarithm, rounding to powers of two and to aligned boundaries. Every function is
  characterised on \<^typ>\<open>nat\<close>, which is how the other theories use it.
\<close>

section \<open>Definitions\<close>

text \<open>\<^verbatim>\<open>fls64\<close>: the position of the most significant set bit counted from 1, or 0.\<close>

fun fls_nat :: "nat \<Rightarrow> nat" where
  "fls_nat n = (if n = 0 then 0 else Suc (fls_nat (n div 2)))"

declare fls_nat.simps [simp del]

definition fls64 :: "u64 \<Rightarrow> nat" where
  "fls64 n = fls_nat (unat n)"

definition fls_long :: "u64 \<Rightarrow> nat" where
  "fls_long l = fls64 l"

text \<open>\<^verbatim>\<open>ilog2\<close> of a value that is not a compile-time constant is
  \<^verbatim>\<open>__ilog2_u64\<close>.\<close>

definition ilog2 :: "u64 \<Rightarrow> int" where
  "ilog2 n = int (fls64 n) - 1"

definition is_power_of_2 :: "u64 \<Rightarrow> bool" where
  "is_power_of_2 n \<longleftrightarrow> n \<noteq> 0 \<and> (n AND (n - 1)) = 0"

definition roundup_pow_of_two :: "u64 \<Rightarrow> u64" where
  "roundup_pow_of_two n = push_bit (fls_long (n - 1)) 1"

definition round_up :: "u64 \<Rightarrow> u64 \<Rightarrow> u64" where
  "round_up x y = (x + y - 1) AND NOT (y - 1)"

definition round_down :: "u64 \<Rightarrow> u64 \<Rightarrow> u64" where
  "round_down x y = x AND NOT (y - 1)"

section \<open>Last set bit\<close>

lemma fls_nat_0 [simp]: "fls_nat 0 = 0"
  by (simp add: fls_nat.simps)

lemma fls_nat_pos: "0 < n \<Longrightarrow> fls_nat n = Suc (fls_nat (n div 2))"
  by (simp add: fls_nat.simps [of n])

lemma fls_nat_upper: "n < 2 ^ fls_nat n"
proof (induction n rule: fls_nat.induct)
  case (1 n)
  then show ?case
    by (cases "n = 0") (auto simp: fls_nat_pos)
qed

lemma fls_nat_lower: "0 < n \<Longrightarrow> 2 ^ (fls_nat n - 1) \<le> n"
proof (induction n rule: fls_nat.induct)
  case (1 n)
  show ?case
  proof (cases "n div 2 = 0")
    case True
    with "1.prems" show ?thesis by (simp add: fls_nat_pos)
  next
    case False
    with "1.IH" "1.prems" have IH: "2 ^ (fls_nat (n div 2) - 1) \<le> n div 2" by simp
    from False have "fls_nat (n div 2) = Suc (fls_nat (n div 2) - 1)"
      by (simp add: fls_nat_pos)
    then have "2 ^ fls_nat (n div 2) = 2 * (2::nat) ^ (fls_nat (n div 2) - 1)"
      by (metis power_Suc)
    with IH have "2 ^ fls_nat (n div 2) \<le> n" by linarith
    with "1.prems" show ?thesis by (simp add: fls_nat_pos [of n])
  qed
qed

lemma fls_nat_le_iff: "fls_nat n \<le> k \<longleftrightarrow> n < 2 ^ k"
proof
  assume "fls_nat n \<le> k"
  then have "(2::nat) ^ fls_nat n \<le> 2 ^ k" by simp
  with fls_nat_upper [of n] show "n < 2 ^ k" by linarith
next
  assume n: "n < 2 ^ k"
  show "fls_nat n \<le> k"
  proof (cases "n = 0")
    case False
    then have "(2::nat) ^ (fls_nat n - 1) \<le> n" by (intro fls_nat_lower) simp
    with n have "(2::nat) ^ (fls_nat n - 1) < 2 ^ k" by (rule order_le_less_trans [rotated])
    then have "fls_nat n - 1 < k" by (simp add: power_strict_increasing_iff)
    then show ?thesis by simp
  qed simp
qed

lemma fls_nat_pow2 [simp]: "fls_nat (2 ^ k) = Suc k"
proof (rule antisym)
  show "fls_nat (2 ^ k) \<le> Suc k" by (simp add: fls_nat_le_iff)
  show "Suc k \<le> fls_nat (2 ^ k)"
    using fls_nat_le_iff [of "2 ^ k" k] by simp
qed

text \<open>Evaluation of \<^verbatim>\<open>fls64\<close> by shifting the word.\<close>

lemma fls64_code [code]: "fls64 n = (if n = 0 then 0 else Suc (fls64 (drop_bit 1 n)))"
  by (simp add: fls64_def fls_nat_pos unat_drop_bit_eq unat_gt_0) (simp add: drop_bit_eq_div)

lemma fls64_le_64: "fls64 n \<le> 64"
  by (simp add: fls64_def fls_nat_le_iff)

lemma ilog2_pow2: "k < 64 \<Longrightarrow> ilog2 (2 ^ k) = int k"
  by (simp add: ilog2_def fls64_def unat64_pow2)

section \<open>Powers of two\<close>

lemma nat_and_pred_pow2: "0 < (n :: nat) \<Longrightarrow> n AND (n - 1) = 0 \<Longrightarrow> \<exists>k. n = 2 ^ k"
proof (induction n rule: less_induct)
  case (less n)
  show ?case
  proof (cases "even n")
    case True
    then obtain q where q: "n = 2 * q" by blast
    with less.prems have "0 < q" by simp
    then have pred: "odd (n - 1)" "(n - 1) div 2 = q - 1" using q by auto
    have "n AND (n - 1) = 2 * (q AND (q - 1))"
      using q pred by (subst and_rec) simp
    with less.prems have "q AND (q - 1) = 0" by simp
    with less.IH [of q] \<open>0 < q\<close> q obtain k where "q = 2 ^ k" by auto
    with q have "n = 2 ^ Suc k" by simp
    then show ?thesis ..
  next
    case False
    then obtain q where q: "n = 2 * q + 1" by (rule oddE)
    then have "n AND (n - 1) = 2 * (q AND q)" by (subst and_rec) simp
    with less.prems have "q = 0" by simp
    with q have "n = 2 ^ 0" by simp
    then show ?thesis ..
  qed
qed

lemma nat_pow2_and_pred: "(2 ^ k :: nat) AND (2 ^ k - 1) = 0"
proof -
  have "(2 ^ k :: nat) AND mask k = 0"
    by (simp add: take_bit_eq_mask [symmetric])
  then show ?thesis by (simp add: mask_eq_exp_minus_1)
qed

lemma is_power_of_2_iff: "is_power_of_2 n \<longleftrightarrow> (\<exists>k < 64. n = 2 ^ k)"
proof
  assume n: "is_power_of_2 n"
  then have n0: "0 < unat n" by (simp add: is_power_of_2_def unat_gt_0)
  then have "(1 :: u64) \<le> n" by (simp add: word64_le_unat)
  then have "unat (n - 1) = unat n - 1" by (simp add: unat64_sub)
  moreover from n have "unat (n AND (n - 1)) = 0" by (simp add: is_power_of_2_def)
  ultimately have "unat n AND (unat n - 1) = 0" by (simp only: unat64_and)
  with n0 obtain k where k: "unat n = 2 ^ k" using nat_and_pred_pow2 by blast
  then have "(2::nat) ^ k < 2 ^ 64" using unat64_less [of n] by simp
  then have "k < 64" by (simp only: power_strict_increasing_iff)
  with k have "n = 2 ^ k" by (simp add: word64_eq_iff_unat unat64_pow2)
  with \<open>k < 64\<close> show "\<exists>k < 64. n = 2 ^ k" by blast
next
  assume "\<exists>k < 64. n = 2 ^ k"
  then obtain k where k: "k < 64" "n = 2 ^ k" by blast
  then have u: "unat n = 2 ^ k" by (simp add: unat64_pow2)
  then have "unat (1::u64) \<le> unat n" by simp
  then have "unat (n - 1) = 2 ^ k - 1" using u by (simp add: unat64_sub word64_le_unat)
  then have "unat (n AND (n - 1)) = 0" using u nat_pow2_and_pred [of k]
    by (simp add: unat64_and)
  then have "n AND (n - 1) = 0" by (simp add: unat_eq_zero)
  moreover have "n \<noteq> 0" using u by auto
  ultimately show "is_power_of_2 n" by (simp add: is_power_of_2_def)
qed

lemma unat_roundup_pow_of_two:
  assumes "1 \<le> unat n" "unat n \<le> 2 ^ 63"
  shows "unat (roundup_pow_of_two n) = 2 ^ fls_nat (unat n - 1)"
    and "unat n \<le> unat (roundup_pow_of_two n)"
proof -
  have le: "(1::u64) \<le> n" using assms by (simp add: word64_le_unat)
  then have u: "unat (n - 1) = unat n - 1" by (simp add: unat64_sub)
  have "fls_nat (unat n - 1) \<le> 63" using assms by (simp add: fls_nat_le_iff)
  then show eq: "unat (roundup_pow_of_two n) = 2 ^ fls_nat (unat n - 1)"
    by (simp add: roundup_pow_of_two_def fls_long_def fls64_def u push_bit_1_u64 unat64_pow2)
  from fls_nat_upper [of "unat n - 1"] assms
  show "unat n \<le> unat (roundup_pow_of_two n)" by (simp add: eq)
qed

section \<open>Alignment\<close>

lemma and_not_mask: "(x :: u64) AND NOT (mask k) = push_bit k (drop_bit k x)"
  by (rule bit_word_eqI) (auto simp: bit_simps)

lemma unat_push_drop: "unat (push_bit k (drop_bit k (x :: u64))) = unat x div 2 ^ k * 2 ^ k"
proof -
  have "unat (push_bit k (drop_bit k x)) = push_bit k (drop_bit k (unat x))"
    by (rule bit_eqI) (auto simp: bit_simps dest: bit_imp_le_length)
  then show ?thesis by (simp add: push_bit_eq_mult drop_bit_eq_div)
qed

lemma unat_round_down:
  "unat (round_down x (2 ^ k)) = unat x div 2 ^ k * 2 ^ k"
  by (simp add: round_down_def and_not_mask unat_push_drop flip: mask_eq_exp_minus_1)

lemma unat_round_up:
  assumes "k < 64" "unat x + (2 ^ k - 1) < 2 ^ 64"
  shows "unat (round_up x (2 ^ k)) = (unat x + (2 ^ k - 1)) div 2 ^ k * 2 ^ k"
proof -
  have "unat (2 ^ k - 1 :: u64) = 2 ^ k - 1"
    using assms(1) by (simp add: unat64_sub unat64_pow2 word64_le_unat)
  then have u: "unat (x + (2 ^ k - 1)) = unat x + (2 ^ k - 1)"
    using assms(2) by (simp add: unat64_add)
  have "round_up x (2 ^ k) = (x + (2 ^ k - 1)) AND NOT (mask k)"
    by (simp only: round_up_def mask_eq_exp_minus_1 add_diff_eq)
  then have "round_up x (2 ^ k) = push_bit k (drop_bit k (x + (2 ^ k - 1)))"
    by (simp only: and_not_mask)
  then show ?thesis by (simp add: unat_push_drop u)
qed

lemma nat_round_up_props:
  "(x::nat) \<le> (x + (2 ^ k - 1)) div 2 ^ k * 2 ^ k"
  "(x + (2 ^ k - 1)) div 2 ^ k * 2 ^ k < x + 2 ^ k"
proof -
  let ?y = "x + (2 ^ k - 1)"
  have "?y div 2 ^ k * 2 ^ k + ?y mod 2 ^ k = ?y" by (rule div_mult_mod_eq)
  moreover have "?y mod 2 ^ k < 2 ^ k" by simp
  moreover have "(1::nat) \<le> 2 ^ k" by simp
  ultimately show "x \<le> ?y div 2 ^ k * 2 ^ k" "?y div 2 ^ k * 2 ^ k < x + 2 ^ k"
    by linarith+
qed

text \<open>\<^term>\<open>round_up x (2 ^ k)\<close> is the least multiple of \<open>2 ^ k\<close> that is not
  below \<open>x\<close>, provided the addition inside it does not wrap around.\<close>

lemma round_up_aligned:
  assumes "k < 64" "unat x + (2 ^ k - 1) < 2 ^ 64"
  shows "2 ^ k dvd unat (round_up x (2 ^ k))"
    and "unat x \<le> unat (round_up x (2 ^ k))"
    and "unat (round_up x (2 ^ k)) < unat x + 2 ^ k"
  unfolding unat_round_up [OF assms] using nat_round_up_props [of "unat x" k] by simp_all

lemma round_up_least:
  assumes "k < 64" "unat x + (2 ^ k - 1) < 2 ^ 64" "2 ^ k dvd m" "unat x \<le> m"
  shows "unat (round_up x (2 ^ k)) \<le> m"
proof -
  let ?r = "unat (round_up x (2 ^ k))"
  from assms(3) obtain q where q: "m = q * 2 ^ k" by (metis dvdE mult.commute)
  from round_up_aligned(1) [OF assms(1,2)] obtain p where p: "?r = p * 2 ^ k"
    by (metis dvdE mult.commute)
  have "p * 2 ^ k < (q + 1) * 2 ^ k"
    using round_up_aligned(3) [OF assms(1,2)] assms(4) p q by (simp add: algebra_simps)
  then have "p < q + 1" by (rule mult_right_less_imp_less) simp
  then have "p \<le> q" by simp
  then show ?thesis using p q by simp
qed

end
