(* ===== verification/Kitten_Blocks.thy ===== *)
theory Kitten_Blocks
  imports Kitten_Log2
begin

text \<open>
  The geometry of the buddy system, free of any program state: aligned blocks of
  \<open>2 ^ k\<close> bytes at an offset from the base of the pool, the buddy of a block, and sets
  of pairwise disjoint blocks. Two facts carry the allocator proofs. The buddy of a block of
  such a set is never strictly inside another block of the set, which is why the allocator may
  leave tag bits of interior blocks stale. And a set of blocks in which no two buddies are both
  present is determined by the bytes it covers, which makes freeing a block restore the free
  lists exactly.
\<close>

section \<open>Aligned blocks\<close>

type_synonym block = "nat \<times> nat"

definition rng :: "block \<Rightarrow> nat set" where
  "rng b = {fst b ..< fst b + 2 ^ snd b}"

definition blk_ok :: "nat \<Rightarrow> nat \<Rightarrow> block \<Rightarrow> bool" where
  "blk_ok P m b \<longleftrightarrow> m \<le> snd b \<and> snd b \<le> P \<and> 2 ^ snd b dvd fst b \<and> fst b + 2 ^ snd b \<le> 2 ^ P"

definition tiling :: "nat \<Rightarrow> nat \<Rightarrow> block set \<Rightarrow> bool" where
  "tiling P m B \<longleftrightarrow> (\<forall>b \<in> B. blk_ok P m b) \<and>
     (\<forall>a \<in> B. \<forall>b \<in> B. a \<noteq> b \<longrightarrow> rng a \<inter> rng b = {})"

definition buddy_off :: "nat \<Rightarrow> nat \<Rightarrow> nat" where
  "buddy_off k o' = o' XOR 2 ^ k"

definition coalesced :: "nat \<Rightarrow> block set \<Rightarrow> bool" where
  "coalesced P F \<longleftrightarrow> (\<forall>(o', k) \<in> F. k < P \<longrightarrow> (buddy_off k o', k) \<notin> F)"

definition inside :: "nat \<Rightarrow> block \<Rightarrow> bool" where
  "inside p b \<longleftrightarrow> fst b < p \<and> p < fst b + 2 ^ snd b"

lemma rng_iff: "x \<in> rng (p, k) \<longleftrightarrow> p \<le> x \<and> x < p + 2 ^ k"
  by (auto simp: rng_def)

lemma head_in_rng [simp]: "p \<in> rng (p, k)"
  by (simp add: rng_iff)

lemma inside_iff: "inside p b \<longleftrightarrow> p \<in> rng b \<and> p \<noteq> fst b"
  by (auto simp: inside_def rng_def)

lemma in_rng_div:
  assumes "2 ^ k dvd p"
  shows "x \<in> rng (p, k) \<longleftrightarrow> x div 2 ^ k = p div 2 ^ k"
proof -
  from assms obtain q where q: "p = 2 ^ k * q" by blast
  show ?thesis
  proof
    assume "x \<in> rng (p, k)"
    then have "x = 2 ^ k * q + (x - p)" "x - p < 2 ^ k" using q by (auto simp: rng_iff)
    moreover have "(2 ^ k * q + (x - p)) div 2 ^ k = q + (x - p) div 2 ^ k" by simp
    ultimately have "x div 2 ^ k = q" by simp
    then show "x div 2 ^ k = p div 2 ^ k" using q by simp
  next
    assume "x div 2 ^ k = p div 2 ^ k"
    then have "x div 2 ^ k = q" using q by simp
    then have "x = 2 ^ k * q + x mod 2 ^ k" by (metis mult_div_mod_eq)
    moreover have "x mod 2 ^ k < 2 ^ k" by simp
    ultimately have "p \<le> x" "x < p + 2 ^ k" unfolding q by linarith+
    then show "x \<in> rng (p, k)" by (simp add: rng_iff)
  qed
qed

lemma div_pow2_mono:
  "k \<le> l \<Longrightarrow> (x::nat) div 2 ^ k = y div 2 ^ k \<Longrightarrow> x div 2 ^ l = y div 2 ^ l"
proof -
  assume kl: "k \<le> l" and e: "x div 2 ^ k = y div 2 ^ k"
  have l: "(2::nat) ^ l = 2 ^ k * 2 ^ (l - k)" using kl by (simp flip: power_add)
  show ?thesis unfolding l div_mult2_eq by (simp add: e)
qed

lemma dyadic_nested:
  assumes "2 ^ k dvd p" "2 ^ l dvd q" "k \<le> l" "rng (p, k) \<inter> rng (q, l) \<noteq> {}"
  shows "rng (p, k) \<subseteq> rng (q, l)"
proof
  fix x assume x: "x \<in> rng (p, k)"
  from assms(4) obtain y where y: "y \<in> rng (p, k)" "y \<in> rng (q, l)" by blast
  with x assms(1) have "x div 2 ^ k = y div 2 ^ k" by (simp add: in_rng_div)
  with assms(3) have "x div 2 ^ l = y div 2 ^ l" by (rule div_pow2_mono)
  with y assms(2) show "x \<in> rng (q, l)" by (simp add: in_rng_div)
qed

lemma dyadic_same:
  assumes "2 ^ k dvd p" "2 ^ k dvd q" "rng (p, k) \<inter> rng (q, k) \<noteq> {}"
  shows "p = q"
proof -
  have "rng (p, k) \<subseteq> rng (q, k)" by (rule dyadic_nested [OF assms(1,2) order_refl assms(3)])
  then have "p \<in> rng (q, k)" using head_in_rng by blast
  then have "p div 2 ^ k = q div 2 ^ k" using assms(2) by (simp add: in_rng_div)
  then show ?thesis using assms(1,2) by (metis dvd_div_mult_self)
qed

section \<open>Buddies\<close>

lemma buddy_off_invol [simp]: "buddy_off k (buddy_off k p) = p"
  by (simp add: buddy_off_def xor.assoc)

lemma buddy_off_even:
  assumes "2 ^ Suc k dvd p"
  shows "buddy_off k p = p + 2 ^ k"
proof -
  from assms obtain q where q: "p = 2 ^ Suc k * q" by blast
  have "\<not> bit p k" by (simp add: bit_iff_odd q)
  then show ?thesis
    by (simp add: buddy_off_def flip_bit_eq_if set_bit_eq
        flip: flip_bit_def [of k p, unfolded push_bit_eq_mult, simplified])
qed

lemma ge_pow2_of_not_dvd: "2 ^ k dvd (p::nat) \<Longrightarrow> \<not> 2 ^ Suc k dvd p \<Longrightarrow> 2 ^ k \<le> p"
  by (metis dvd_0_right dvd_imp_le gr0I)

lemma odd_multiple_diff:
  assumes "2 ^ k dvd (p::nat)" "\<not> 2 ^ Suc k dvd p"
  shows "2 ^ Suc k dvd p - 2 ^ k"
proof -
  from assms(1) obtain q where q: "p = 2 ^ k * q" by blast
  with assms(2) have "odd q" by auto
  then obtain r where "q = 2 * r + 1" by (rule oddE)
  then have "p - 2 ^ k = 2 ^ Suc k * r" using q by simp
  then show ?thesis by simp
qed

lemma buddy_off_eq:
  assumes "2 ^ k dvd p"
  shows "buddy_off k p = (if 2 ^ Suc k dvd p then p + 2 ^ k else p - 2 ^ k)"
proof (cases "2 ^ Suc k dvd p")
  case False
  with assms have "buddy_off k (p - 2 ^ k) = p - 2 ^ k + 2 ^ k"
    by (intro buddy_off_even odd_multiple_diff)
  then have "buddy_off k (p - 2 ^ k) = p" using ge_pow2_of_not_dvd [OF assms False] by simp
  then have "buddy_off k p = p - 2 ^ k" by (metis buddy_off_invol)
  with False show ?thesis by simp
qed (simp add: buddy_off_even)

lemma buddy_off_dvd: "2 ^ k dvd p \<Longrightarrow> 2 ^ k dvd buddy_off k p"
  by (simp add: buddy_off_eq dvd_diff_nat)

lemma buddy_off_div: "buddy_off k p div 2 ^ Suc k = p div 2 ^ Suc k"
proof -
  have "drop_bit (Suc k) (p XOR 2 ^ k) = drop_bit (Suc k) p"
    by (rule bit_eqI) (auto simp: bit_simps)
  then show ?thesis by (simp add: buddy_off_def drop_bit_eq_div del: power_Suc)
qed

lemma buddy_off_neq: "2 ^ k dvd p \<Longrightarrow> buddy_off k p \<noteq> p"
proof
  assume d: "2 ^ k dvd p" and e: "buddy_off k p = p"
  then have "\<not> 2 ^ Suc k dvd p" "p - 2 ^ k = p" by (auto simp: buddy_off_eq split: if_splits)
  moreover have "(0::nat) < 2 ^ k" by simp
  ultimately show False using ge_pow2_of_not_dvd [OF d] by linarith
qed

definition parent_off :: "nat \<Rightarrow> nat \<Rightarrow> nat" where
  "parent_off k p = min p (buddy_off k p)"

lemma parent_off_eq:
  "2 ^ k dvd p \<Longrightarrow> parent_off k p = (if 2 ^ Suc k dvd p then p else p - 2 ^ k)"
  by (simp add: parent_off_def buddy_off_eq)

lemma parent_off_dvd: "2 ^ k dvd p \<Longrightarrow> 2 ^ Suc k dvd parent_off k p"
  using odd_multiple_diff [of k p] by (simp add: parent_off_eq del: power_Suc)

lemma rng_parent:
  assumes "2 ^ k dvd p"
  shows "rng (parent_off k p, Suc k) = rng (p, k) \<union> rng (buddy_off k p, k)"
proof (cases "2 ^ Suc k dvd p")
  case True
  then show ?thesis using assms by (auto simp: parent_off_eq buddy_off_eq rng_iff)
next
  case False
  with assms have "2 ^ k \<le> p" by (rule ge_pow2_of_not_dvd)
  with False show ?thesis using assms by (auto simp: parent_off_eq buddy_off_eq rng_iff)
qed

lemma rng_buddy_disj: "2 ^ k dvd p \<Longrightarrow> rng (p, k) \<inter> rng (buddy_off k p, k) = {}"
  using ge_pow2_of_not_dvd [of k p] by (auto simp: buddy_off_eq rng_iff)

lemma pow2_le_of_less:
  assumes "2 ^ l dvd (q::nat)" "q < 2 ^ P" "l \<le> P"
  shows "q + 2 ^ l \<le> 2 ^ P"
proof -
  from assms(1) obtain r where r: "q = 2 ^ l * r" by blast
  have P: "(2::nat) ^ P = 2 ^ l * 2 ^ (P - l)" using assms(3) by (simp flip: power_add)
  with assms(2) r have "r < 2 ^ (P - l)" by simp
  then have "2 ^ l * (r + 1) \<le> 2 ^ l * 2 ^ (P - l)" by (intro mult_le_mono2) simp
  then show ?thesis using r P by (simp add: algebra_simps)
qed

lemma buddy_blk_ok:
  assumes "blk_ok P m (p, k)" "k < P"
  shows "blk_ok P m (buddy_off k p, k)" "blk_ok P m (parent_off k p, Suc k)"
proof -
  from assms have d: "2 ^ k dvd p" and m: "m \<le> k" and le: "p + 2 ^ k \<le> 2 ^ P"
    by (auto simp: blk_ok_def)
  have "p < 2 ^ P"
  proof -
    have "(0::nat) < 2 ^ k" by simp
    with le show ?thesis by linarith
  qed
  then have "parent_off k p < 2 ^ P" by (simp add: parent_off_def)
  with parent_off_dvd [OF d] assms(2) have pb: "parent_off k p + 2 ^ Suc k \<le> 2 ^ P"
    by (intro pow2_le_of_less) auto
  then show "blk_ok P m (parent_off k p, Suc k)"
    using parent_off_dvd [OF d] m assms(2) by (simp add: blk_ok_def)
  have "buddy_off k p + 2 ^ k \<le> parent_off k p + 2 ^ Suc k"
    using d by (auto simp: parent_off_eq buddy_off_eq)
  with pb have "buddy_off k p + 2 ^ k \<le> 2 ^ P" by linarith
  then show "blk_ok P m (buddy_off k p, k)"
    using buddy_off_dvd [OF d] m assms(2) by (simp add: blk_ok_def)
qed

section \<open>Sets of disjoint blocks\<close>

lemma tilingD:
  assumes "tiling P m B" "(p, k) \<in> B"
  shows "m \<le> k" "k \<le> P" "2 ^ k dvd p" "p + 2 ^ k \<le> 2 ^ P" "p < 2 ^ P"
proof -
  from assms have "blk_ok P m (p, k)" by (auto simp: tiling_def)
  then show *: "m \<le> k" "k \<le> P" "2 ^ k dvd p" "p + 2 ^ k \<le> 2 ^ P"
    by (auto simp: blk_ok_def)
  have "(0::nat) < 2 ^ k" by simp
  with *(4) show "p < 2 ^ P" by linarith
qed

lemma tiling_meet:
  "tiling P m B \<Longrightarrow> a \<in> B \<Longrightarrow> b \<in> B \<Longrightarrow> x \<in> rng a \<Longrightarrow> x \<in> rng b \<Longrightarrow> a = b"
  by (auto simp: tiling_def)

lemma tiling_subset: "tiling P m B \<Longrightarrow> C \<subseteq> B \<Longrightarrow> tiling P m C"
  unfolding tiling_def by blast

lemma tiling_insert:
  "tiling P m (insert b B) \<longleftrightarrow>
     tiling P m B \<and> blk_ok P m b \<and> (\<forall>a \<in> B. a \<noteq> b \<longrightarrow> rng a \<inter> rng b = {})"
proof -
  have "(\<forall>a \<in> B. b \<noteq> a \<longrightarrow> rng b \<inter> rng a = {}) \<longleftrightarrow> (\<forall>a \<in> B. a \<noteq> b \<longrightarrow> rng a \<inter> rng b = {})"
    by (intro ball_cong refl) (metis Int_commute)
  then show ?thesis
    unfolding tiling_def ball_simps ball_conj_distrib by argo
qed

text \<open>Blocks of a tiling may be exchanged for others that cover no other bytes.\<close>

lemma tiling_exchange:
  assumes t: "tiling P m (C \<union> B)" and CB: "C \<inter> B = {}" and D: "tiling P m D"
    and sub: "\<Union> (rng ` D) \<subseteq> \<Union> (rng ` C)"
  shows "tiling P m (D \<union> B)" and "D \<inter> B = {}"
proof -
  have disj: "rng d \<inter> rng b = {}" if d: "d \<in> D" and b: "b \<in> B" for d b
  proof (rule ccontr)
    assume "rng d \<inter> rng b \<noteq> {}"
    then obtain x where x: "x \<in> rng d" "x \<in> rng b" by blast
    with d sub obtain c where c: "c \<in> C" "x \<in> rng c" by blast
    have "c = b" by (rule tiling_meet [OF t _ _ c(2) x(2)]) (use c b in auto)
    with c b CB show False by blast
  qed
  show "D \<inter> B = {}"
  proof (rule ccontr)
    assume "D \<inter> B \<noteq> {}"
    then obtain d where d: "d \<in> D" "d \<in> B" by blast
    have "fst d \<in> rng d" by (cases d) simp
    with disj [OF d] show False by simp
  qed
  have B: "tiling P m B" by (rule tiling_subset [OF t]) simp
  show "tiling P m (D \<union> B)"
    unfolding tiling_def
  proof (intro conjI ballI impI)
    fix b assume "b \<in> D \<union> B"
    then show "blk_ok P m b" using D B by (auto simp: tiling_def)
  next
    fix a b assume ab: "a \<in> D \<union> B" "b \<in> D \<union> B" "a \<noteq> b"
    then consider "a \<in> D" "b \<in> D" | "a \<in> D" "b \<in> B" | "a \<in> B" "b \<in> D" | "a \<in> B" "b \<in> B"
      by blast
    then show "rng a \<inter> rng b = {}"
    proof cases
      case 1 with ab(3) D show ?thesis unfolding tiling_def by blast
    next
      case 2 then show ?thesis by (rule disj)
    next
      case 3 then show ?thesis using disj [of b a] by (simp add: Int_commute)
    next
      case 4 with ab(3) B show ?thesis unfolding tiling_def by blast
    qed
  qed
qed

text \<open>The buddy of a block of a tiling is not strictly inside any block of it.\<close>

lemma buddy_not_inside:
  assumes "tiling P m B" "(p, k) \<in> B" "b \<in> B"
  shows "\<not> inside (buddy_off k p) b"
proof
  obtain q l where b: "b = (q, l)" by (cases b)
  let ?c = "buddy_off k p"
  assume "inside ?c b"
  then have in1: "q < ?c" "?c < q + 2 ^ l" by (auto simp: inside_def b)
  then have c: "?c \<in> rng (q, l)" by (simp add: rng_iff)
  have dk: "2 ^ k dvd p" by (rule tilingD(3) [OF assms(1,2)])
  have dl: "2 ^ l dvd q" by (rule tilingD(3) [OF assms(1) assms(3) [unfolded b]])
  show False
  proof (cases "l \<le> k")
    case True
    have "2 ^ l dvd ?c" by (rule dvd_trans [OF le_imp_power_dvd [OF True] buddy_off_dvd [OF dk]])
    moreover have "rng (?c, l) \<inter> rng (q, l) \<noteq> {}" using c head_in_rng by blast
    ultimately have "?c = q" using dl by (intro dyadic_same [of l])
    with in1 show False by simp
  next
    case False
    then have kl: "Suc k \<le> l" by simp
    from buddy_off_div [of k p] have "?c div 2 ^ l = p div 2 ^ l"
      by (rule div_pow2_mono [OF kl])
    with c dl have "p \<in> rng (q, l)" by (simp add: in_rng_div)
    then have "(p, k) = (q, l)"
      by (rule tiling_meet [OF assms(1,2) assms(3) [unfolded b] head_in_rng])
    with False show False by simp
  qed
qed

text \<open>Two fully coalesced sets of blocks that cover the same bytes are equal.\<close>

lemma coalesced_no_cover:
  assumes F: "tiling P m F" "coalesced P F"
    and q: "2 ^ l dvd q" "l \<le> P" and cov: "rng (q, l) \<subseteq> \<Union> (rng ` F)"
    and small: "\<And>p k. (p, k) \<in> F \<Longrightarrow> rng (p, k) \<inter> rng (q, l) \<noteq> {} \<Longrightarrow> k < l"
  shows False
proof -
  let ?M = "{k. \<exists>p. (p, k) \<in> F \<and> rng (p, k) \<inter> rng (q, l) \<noteq> {}}"
  define i where "i = (LEAST k. k \<in> ?M)"
  from cov have "q \<in> \<Union> (rng ` F)" using head_in_rng by blast
  then obtain p0 k0 where "(p0, k0) \<in> F" "q \<in> rng (p0, k0)" by auto
  then have "k0 \<in> ?M" using head_in_rng by blast
  then have "i \<in> ?M" unfolding i_def by (rule LeastI)
  then obtain p where p: "(p, i) \<in> F" "rng (p, i) \<inter> rng (q, l) \<noteq> {}" by blast
  have least: "i \<le> k" if "(r, k) \<in> F" "rng (r, k) \<inter> rng (q, l) \<noteq> {}" for r k
    unfolding i_def by (rule Least_le) (use that in blast)
  have il: "i < l" by (rule small [OF p])
  have di: "2 ^ i dvd p" by (rule tilingD(3) [OF F(1) p(1)])
  let ?b = "buddy_off i p"
  have "rng (p, i) \<subseteq> rng (q, l)"
    by (rule dyadic_nested [OF di q(1) less_imp_le [OF il] p(2)])
  then have "p \<in> rng (q, l)" using head_in_rng by blast
  moreover have "?b div 2 ^ l = p div 2 ^ l"
    by (rule div_pow2_mono [OF _ buddy_off_div]) (use il in simp)
  ultimately have bq: "?b \<in> rng (q, l)" using q(1) by (simp add: in_rng_div)
  with cov obtain r j where rj: "(r, j) \<in> F" "?b \<in> rng (r, j)" by auto
  with bq have meet: "rng (r, j) \<inter> rng (q, l) \<noteq> {}" by blast
  have ij: "i \<le> j" by (rule least [OF rj(1) meet])
  have dj: "2 ^ j dvd r" by (rule tilingD(3) [OF F(1) rj(1)])
  show False
  proof (cases "i = j")
    case True
    have "rng (?b, i) \<inter> rng (r, i) \<noteq> {}" using rj(2) True head_in_rng by blast
    then have "?b = r" using dyadic_same [OF buddy_off_dvd [OF di], of r] dj True by simp
    then have "(?b, i) \<in> F" using rj True by simp
    with F(2) p(1) il q(2) show False by (auto simp: coalesced_def)
  next
    case False
    with ij have "Suc i \<le> j" by simp
    from div_pow2_mono [OF this buddy_off_div] have "?b div 2 ^ j = p div 2 ^ j" .
    with rj(2) dj have "p \<in> rng (r, j)" by (simp add: in_rng_div)
    then have "(p, i) = (r, j)" by (rule tiling_meet [OF F(1) p(1) rj(1) head_in_rng])
    with False show False by simp
  qed
qed

lemma coalesced_subset:
  assumes F: "tiling P m F" and G: "tiling P m G"
    and cF: "coalesced P F" and cG: "coalesced P G"
    and eq: "\<Union> (rng ` F) = \<Union> (rng ` G)"
  shows "F \<subseteq> G"
proof
  fix a assume "a \<in> F"
  moreover obtain p k where pk: "a = (p, k)" by (cases a)
  ultimately have a: "(p, k) \<in> F" by simp
  have d: "2 ^ k dvd p" "k \<le> P" using tilingD [OF F a] by auto
  have "p \<in> \<Union> (rng ` F)" by (rule UN_I [OF a]) simp
  then obtain q l where ql: "(q, l) \<in> G" "p \<in> rng (q, l)" unfolding eq by auto
  have e: "2 ^ l dvd q" "l \<le> P" using tilingD [OF G ql(1)] by auto
  have meet: "rng (p, k) \<inter> rng (q, l) \<noteq> {}" using ql(2) head_in_rng by blast
  consider (lt) "k < l" | (eq) "k = l" | (gt) "l < k" by linarith
  then show "a \<in> G"
  proof cases
    case eq
    with dyadic_same [OF d(1), of q] e meet have "p = q" by simp
    with eq ql pk show ?thesis by simp
  next
    case lt
    have "rng (q, l) \<subseteq> \<Union> (rng ` F)" unfolding eq by (rule UN_upper [OF ql(1)])
    moreover have "i < l" if f: "(r, i) \<in> F" "rng (r, i) \<inter> rng (q, l) \<noteq> {}" for r i
    proof (rule ccontr)
      assume "\<not> i < l"
      then have "l \<le> i" by simp
      moreover have "rng (q, l) \<inter> rng (r, i) \<noteq> {}" using f(2) by blast
      ultimately have "rng (q, l) \<subseteq> rng (r, i)"
        by (rule dyadic_nested [OF e(1) tilingD(3) [OF F f(1)]])
      with ql(2) have "p \<in> rng (r, i)" by blast
      then have "(r, i) = (p, k)" by (rule tiling_meet [OF F f(1) a _ head_in_rng])
      with lt \<open>\<not> i < l\<close> show False by simp
    qed
    ultimately have False by (rule coalesced_no_cover [OF F cF e])
    then show ?thesis ..
  next
    case gt
    have "rng (p, k) \<subseteq> \<Union> (rng ` G)" unfolding eq [symmetric] by (rule UN_upper [OF a])
    moreover have "i < k" if g: "(r, i) \<in> G" "rng (r, i) \<inter> rng (p, k) \<noteq> {}" for r i
    proof (rule ccontr)
      assume "\<not> i < k"
      then have "k \<le> i" by simp
      moreover have "rng (p, k) \<inter> rng (r, i) \<noteq> {}" using g(2) by blast
      ultimately have "rng (p, k) \<subseteq> rng (r, i)"
        by (rule dyadic_nested [OF d(1) tilingD(3) [OF G g(1)]])
      then have "p \<in> rng (r, i)" using head_in_rng by blast
      then have "(r, i) = (q, l)" by (rule tiling_meet [OF G g(1) ql(1) _ ql(2)])
      with gt \<open>\<not> i < k\<close> show False by simp
    qed
    ultimately have False by (rule coalesced_no_cover [OF G cG d])
    then show ?thesis ..
  qed
qed

lemma coalesced_unique:
  assumes "tiling P m F" "tiling P m G" "coalesced P F" "coalesced P G"
    and "\<Union> (rng ` F) = \<Union> (rng ` G)"
  shows "F = G"
  using coalesced_subset [OF assms] coalesced_subset [OF assms(2,1,4,3) assms(5) [symmetric]]
  by (rule equalityI)

end
