(* ===== verification/Kitten_Buddy.thy ===== *)
theory Kitten_Buddy
  imports Kitten_Blocks
begin

text \<open>
  The buddy system allocator of \<^verbatim>\<open>kernel/mm/buddy.c\<close>: the pool record, one
  definition per function of the file, the invariant that relates the free lists, the tag bits
  and the blocks handed out, and the correctness of allocation and freeing.

  A free list is the list of the addresses of the blocks linked on it, front first. The
  \<^verbatim>\<open>order\<close> word that a free block stores in its own memory is the function
  \<^verbatim>\<open>blk_order\<close> from block addresses. Orders are natural numbers (they only count
  up to the pool order, below 64); addresses are 64-bit words. \<^term>\<open>None\<close> is a failed
  \<^verbatim>\<open>BUG_ON\<close>.
\<close>

section \<open>The allocator\<close>

record buddy_mempool =
  base_addr :: u64
  pool_order :: nat
  min_order :: nat
  num_blocks :: u64
  tag_bits :: "u64 \<Rightarrow> bool"
  avail :: "nat \<Rightarrow> u64 list"
  blk_order :: "u64 \<Rightarrow> nat"

text \<open>\<^verbatim>\<open>struct block\<close> is a list head (two pointers) and an unsigned long.\<close>

definition sizeof_block :: u64 where
  "sizeof_block = 24"

definition block_to_id :: "buddy_mempool \<Rightarrow> u64 \<Rightarrow> u64 option" where
  "block_to_id mp block =
     (let block_id = drop_bit (min_order mp) (block - base_addr mp)
      in if num_blocks mp \<le> block_id then None else Some block_id)"

definition mark_available :: "buddy_mempool \<Rightarrow> u64 \<Rightarrow> buddy_mempool option" where
  "mark_available mp block = do {
     i \<leftarrow> block_to_id mp block;
     Some (mp\<lparr>tag_bits := (tag_bits mp)(i := True)\<rparr>)
   }"

definition mark_allocated :: "buddy_mempool \<Rightarrow> u64 \<Rightarrow> buddy_mempool option" where
  "mark_allocated mp block = do {
     i \<leftarrow> block_to_id mp block;
     Some (mp\<lparr>tag_bits := (tag_bits mp)(i := False)\<rparr>)
   }"

definition is_available :: "buddy_mempool \<Rightarrow> u64 \<Rightarrow> bool option" where
  "is_available mp block = do {
     i \<leftarrow> block_to_id mp block;
     Some (tag_bits mp i)
   }"

definition find_buddy :: "buddy_mempool \<Rightarrow> u64 \<Rightarrow> nat \<Rightarrow> u64 option" where
  "find_buddy mp block order =
     (if block < base_addr mp then None
      else let rel_block = block - base_addr mp;
               rel_buddy = rel_block XOR push_bit order 1
           in Some (rel_buddy + base_addr mp))"

text \<open>\<^verbatim>\<open>buddy_init\<close> returns \<^verbatim>\<open>NULL\<close> (here \<^term>\<open>None\<close>) when the minimum
  order exceeds the pool order. The boot memory it takes is not part of the pool.\<close>

definition buddy_init :: "u64 \<Rightarrow> nat \<Rightarrow> nat \<Rightarrow> buddy_mempool option" where
  "buddy_init base pool_ord min_ord =
     (let min_ord = (if push_bit min_ord 1 < sizeof_block
                     then nat (ilog2 (roundup_pow_of_two sizeof_block)) else min_ord)
      in if min_ord > pool_ord then None
         else Some \<lparr>base_addr = base, pool_order = pool_ord, min_order = min_ord,
                    num_blocks = push_bit pool_ord 1 div push_bit min_ord 1,
                    tag_bits = (\<lambda>_. False), avail = (\<lambda>_. []), blk_order = (\<lambda>_. 0)\<rparr>)"

text \<open>The \<^verbatim>\<open>while (j > order)\<close> loop of \<^verbatim>\<open>buddy_alloc\<close>, which cuts the
  upper half off a block that is larger than asked for.\<close>

fun buddy_trim :: "buddy_mempool \<Rightarrow> u64 \<Rightarrow> nat \<Rightarrow> nat \<Rightarrow> buddy_mempool option" where
  "buddy_trim mp block order j =
     (if order < j then
        let j = j - 1;
            buddy_block = block + push_bit j 1;
            mp = mp\<lparr>blk_order := (blk_order mp)(buddy_block := j)\<rparr>
        in do {
          mp \<leftarrow> mark_available mp buddy_block;
          buddy_trim (mp\<lparr>avail := (avail mp)(j := buddy_block # avail mp j)\<rparr>) block order j
        }
      else Some mp)"

declare buddy_trim.simps [simp del]

text \<open>The \<^verbatim>\<open>for\<close> loop over the free lists.\<close>

function buddy_alloc_from :: "buddy_mempool \<Rightarrow> nat \<Rightarrow> nat \<Rightarrow> (u64 option \<times> buddy_mempool) option"
where
  "buddy_alloc_from mp order j =
     (if j \<le> pool_order mp then
        (case avail mp j of
           [] \<Rightarrow> buddy_alloc_from mp order (Suc j)
         | block # rest \<Rightarrow> do {
             mp \<leftarrow> mark_allocated (mp\<lparr>avail := (avail mp)(j := rest)\<rparr>) block;
             mp \<leftarrow> buddy_trim mp block order j;
             Some (Some block, mp)
           })
      else Some (None, mp))"
  by pat_completeness auto
termination
  by (relation "measure (\<lambda>(mp, order, j). Suc (pool_order mp) - j)") auto

declare buddy_alloc_from.simps [simp del]

definition buddy_alloc :: "buddy_mempool \<Rightarrow> nat \<Rightarrow> (u64 option \<times> buddy_mempool) option" where
  "buddy_alloc mp order =
     (if order > pool_order mp then None
      else let order = (if order < min_order mp then min_order mp else order)
           in buddy_alloc_from mp order order)"

text \<open>\<^verbatim>\<open>list_del\<close> takes a block off whichever free list it is linked on.\<close>

definition avail_del :: "buddy_mempool \<Rightarrow> u64 \<Rightarrow> buddy_mempool" where
  "avail_del mp block = mp\<lparr>avail := (\<lambda>k. remove1 block (avail mp k))\<rparr>"

text \<open>The coalescing loop of \<^verbatim>\<open>buddy_free\<close>.\<close>

function buddy_coalesce ::
  "buddy_mempool \<Rightarrow> u64 \<Rightarrow> nat \<Rightarrow> (buddy_mempool \<times> u64 \<times> nat) option"
where
  "buddy_coalesce mp block order =
     (if order < pool_order mp then do {
        buddy \<leftarrow> find_buddy mp block order;
        a \<leftarrow> is_available mp buddy;
        if \<not> a then Some (mp, block, order)
        else if blk_order mp buddy \<noteq> order then Some (mp, block, order)
        else let mp = avail_del mp buddy;
                 block = (if buddy < block then buddy else block);
                 order = Suc order;
                 mp = mp\<lparr>blk_order := (blk_order mp)(block := order)\<rparr>
             in buddy_coalesce mp block order
      }
      else Some (mp, block, order))"
  by pat_completeness auto
termination
  by (relation "measure (\<lambda>(mp, block, order). pool_order mp - order)")
    (auto simp: avail_del_def)

declare buddy_coalesce.simps [simp del]

definition buddy_free :: "buddy_mempool \<Rightarrow> u64 \<Rightarrow> nat \<Rightarrow> buddy_mempool option" where
  "buddy_free mp addr order =
     (if order > pool_order mp then None
      else let order = (if order < min_order mp then min_order mp else order)
           in do {
             a \<leftarrow> is_available mp addr;
             if a then None
             else do {
               (mp, block, order) \<leftarrow> buddy_coalesce mp addr order;
               mp \<leftarrow> mark_available (mp\<lparr>blk_order := (blk_order mp)(block := order)\<rparr>) block;
               Some (mp\<lparr>avail := (avail mp)(order := block # avail mp order)\<rparr>)
             }
           })"

text \<open>\<^verbatim>\<open>buddy_dump_mempool\<close> prints one line per order: the number of free blocks.\<close>

definition buddy_dump_mempool :: "buddy_mempool \<Rightarrow> (nat \<times> nat) list" where
  "buddy_dump_mempool mp =
     map (\<lambda>i. (i, length (avail mp i))) [min_order mp ..< Suc (pool_order mp)]"

section \<open>Geometry of the pool\<close>

definition blk_addr :: "buddy_mempool \<Rightarrow> nat \<Rightarrow> u64" where
  "blk_addr mp p = base_addr mp + of_nat p"

definition blk_off :: "buddy_mempool \<Rightarrow> u64 \<Rightarrow> nat" where
  "blk_off mp a = unat (a - base_addr mp)"

definition pool_ok :: "buddy_mempool \<Rightarrow> bool" where
  "pool_ok mp \<longleftrightarrow> min_order mp \<le> pool_order mp \<and> pool_order mp < 64 \<and>
     unat (base_addr mp) + 2 ^ pool_order mp \<le> 2 ^ 64 \<and>
     num_blocks mp = 2 ^ (pool_order mp - min_order mp)"

definition tag :: "buddy_mempool \<Rightarrow> nat \<Rightarrow> bool" where
  "tag mp p = tag_bits mp (of_nat (p div 2 ^ min_order mp))"

definition free_blocks :: "buddy_mempool \<Rightarrow> block set" where
  "free_blocks mp = {(p, k). \<exists>a \<in> set (avail mp k). p = blk_off mp a}"

definition free_bytes :: "buddy_mempool \<Rightarrow> nat set" where
  "free_bytes mp = \<Union> (rng ` free_blocks mp)"

lemma blk_addr_off [simp]: "blk_addr mp (blk_off mp a) = a"
  by (simp add: blk_addr_def blk_off_def)

lemma pool_bound: "pool_ok mp \<Longrightarrow> (p::nat) < 2 ^ pool_order mp \<Longrightarrow> p < 2 ^ 64"
  by (simp add: pool_ok_def)

lemma blk_off_addr: "pool_ok mp \<Longrightarrow> p < 2 ^ pool_order mp \<Longrightarrow> blk_off mp (blk_addr mp p) = p"
  using pool_bound [of mp p] by (simp add: blk_off_def blk_addr_def unat64_of_nat)

lemma unat_blk_addr:
  assumes "pool_ok mp" "p < 2 ^ pool_order mp"
  shows "unat (blk_addr mp p) = unat (base_addr mp) + p"
proof -
  have "unat (of_nat p :: u64) = p" using pool_bound [OF assms] by (rule unat64_of_nat)
  then show ?thesis using assms by (simp add: blk_addr_def unat64_add pool_ok_def)
qed

lemma blk_addr_inj:
  assumes "pool_ok mp" "p < 2 ^ pool_order mp" "q < 2 ^ pool_order mp"
  shows "blk_addr mp p = blk_addr mp q \<longleftrightarrow> p = q"
  using unat_blk_addr [OF assms(1,2)] unat_blk_addr [OF assms(1,3)]
  by (auto simp: word64_eq_iff_unat)

lemma blk_addr_less:
  assumes "pool_ok mp" "p < 2 ^ pool_order mp" "q < 2 ^ pool_order mp"
  shows "blk_addr mp p < blk_addr mp q \<longleftrightarrow> p < q"
  using unat_blk_addr [OF assms(1,2)] unat_blk_addr [OF assms(1,3)]
  by (simp add: word64_less_unat)

lemma blk_addr_ge_base: "pool_ok mp \<Longrightarrow> p < 2 ^ pool_order mp \<Longrightarrow> base_addr mp \<le> blk_addr mp p"
  by (simp add: word64_le_unat unat_blk_addr)

lemma block_id_bound:
  assumes "pool_ok mp" "(p::nat) < 2 ^ pool_order mp"
  shows "p div 2 ^ min_order mp < 2 ^ (pool_order mp - min_order mp)"
proof -
  have "(2::nat) ^ pool_order mp = 2 ^ (pool_order mp - min_order mp) * 2 ^ min_order mp"
    using assms(1) by (simp add: pool_ok_def flip: power_add)
  with assms(2) show ?thesis by (simp add: less_mult_imp_div_less)
qed

lemma block_to_id_addr:
  assumes "pool_ok mp" "p < 2 ^ pool_order mp"
  shows "block_to_id mp (blk_addr mp p) = Some (of_nat (p div 2 ^ min_order mp))"
proof -
  let ?i = "p div 2 ^ min_order mp"
  have p64: "p < 2 ^ 64" by (rule pool_bound [OF assms])
  then have i64: "?i < 2 ^ 64" by (rule order_le_less_trans [OF div_le_dividend])
  have e: "drop_bit (min_order mp) (of_nat p :: u64) = of_nat ?i"
  proof -
    have "unat (drop_bit (min_order mp) (of_nat p :: u64)) = ?i"
      by (simp only: unat_drop_bit_eq unat64_of_nat [OF p64]) (simp add: drop_bit_eq_div)
    then show ?thesis by (rule unat64_eqD)
  qed
  have nb: "unat (num_blocks mp) = 2 ^ (pool_order mp - min_order mp)"
    using assms(1) by (auto simp: pool_ok_def intro!: unat64_pow2)
  have "\<not> num_blocks mp \<le> of_nat ?i"
    using block_id_bound [OF assms] by (simp add: word64_le_unat nb unat64_of_nat [OF i64])
  then show ?thesis by (simp add: block_to_id_def blk_addr_def e)
qed

lemma of_nat_block_id_eq:
  assumes "pool_ok mp" "p < 2 ^ pool_order mp" "q < 2 ^ pool_order mp"
    and "2 ^ min_order mp dvd p" "2 ^ min_order mp dvd q"
  shows "(of_nat (p div 2 ^ min_order mp) :: u64) = of_nat (q div 2 ^ min_order mp) \<longleftrightarrow> p = q"
proof -
  have "p div 2 ^ min_order mp < 2 ^ 64" "q div 2 ^ min_order mp < 2 ^ 64"
    using pool_bound [OF assms(1,2)] pool_bound [OF assms(1,3)]
    by (auto intro: order_le_less_trans [OF div_le_dividend])
  then have "(of_nat (p div 2 ^ min_order mp) :: u64) = of_nat (q div 2 ^ min_order mp) \<longleftrightarrow>
      p div 2 ^ min_order mp = q div 2 ^ min_order mp"
    by (metis unat64_of_nat)
  also have "\<dots> \<longleftrightarrow> p = q" using assms(4,5) by (metis dvd_div_mult_self)
  finally show ?thesis .
qed

lemma find_buddy_addr:
  assumes "pool_ok mp" "p < 2 ^ pool_order mp" "k < pool_order mp"
  shows "find_buddy mp (blk_addr mp p) k = Some (blk_addr mp (buddy_off k p))"
proof -
  have "k < 64" using assms(1,3) by (simp add: pool_ok_def)
  then have "unat ((of_nat p :: u64) XOR push_bit k 1) = buddy_off k p"
    using pool_bound [OF assms(1,2)]
    by (simp add: unat64_xor unat64_of_nat push_bit_1_u64 unat64_pow2 buddy_off_def)
  then have "(of_nat p :: u64) XOR push_bit k 1 = of_nat (buddy_off k p)"
    by (rule unat64_eqD)
  moreover have "\<not> blk_addr mp p < base_addr mp"
    using blk_addr_ge_base [OF assms(1,2)] by simp
  ultimately show ?thesis by (simp add: find_buddy_def blk_addr_def add.commute)
qed

section \<open>The invariant\<close>

text \<open>
  \<open>A\<close> is the set of blocks handed out and not yet returned. Free and handed-out blocks are
  aligned, inside the pool and pairwise disjoint; a free block has its tag bit set and its
  order stored; a set tag bit belongs to a free block, to one of the offsets in \<open>X\<close>, or to
  an offset strictly inside some block, where it is stale and never consulted. Between
  operations \<open>X\<close> is empty; while a block is being coalesced it holds that block's offset.
\<close>

definition buddy_inv_upto :: "buddy_mempool \<Rightarrow> block set \<Rightarrow> nat set \<Rightarrow> bool" where
  "buddy_inv_upto mp A X \<longleftrightarrow>
     pool_ok mp \<and>
     tiling (pool_order mp) (min_order mp) (free_blocks mp \<union> A) \<and>
     free_blocks mp \<inter> A = {} \<and>
     (\<forall>k. distinct (avail mp k)) \<and>
     (\<forall>(p, k) \<in> free_blocks mp. tag mp p \<and> blk_order mp (blk_addr mp p) = k) \<and>
     (\<forall>p < 2 ^ pool_order mp. 2 ^ min_order mp dvd p \<longrightarrow> tag mp p \<longrightarrow>
        p \<in> X \<or> (\<exists>k. (p, k) \<in> free_blocks mp) \<or> (\<exists>b \<in> free_blocks mp \<union> A. inside p b))"

definition buddy_inv :: "buddy_mempool \<Rightarrow> block set \<Rightarrow> bool" where
  "buddy_inv mp A \<longleftrightarrow> buddy_inv_upto mp A {}"

definition pool_coalesced :: "buddy_mempool \<Rightarrow> bool" where
  "pool_coalesced mp \<longleftrightarrow> coalesced (pool_order mp) (free_blocks mp)"

lemma buddy_inv_uptoD:
  assumes "buddy_inv_upto mp A X"
  shows "pool_ok mp"
    and "tiling (pool_order mp) (min_order mp) (free_blocks mp \<union> A)"
    and "free_blocks mp \<inter> A = {}"
    and "distinct (avail mp k)"
    and "(p, k) \<in> free_blocks mp \<Longrightarrow> tag mp p"
    and "(p, k) \<in> free_blocks mp \<Longrightarrow> blk_order mp (blk_addr mp p) = k"
    and "p < 2 ^ pool_order mp \<Longrightarrow> 2 ^ min_order mp dvd p \<Longrightarrow> tag mp p \<Longrightarrow>
        p \<in> X \<or> (\<exists>k. (p, k) \<in> free_blocks mp) \<or> (\<exists>b \<in> free_blocks mp \<union> A. inside p b)"
  using assms unfolding buddy_inv_upto_def by (auto split: prod.splits)

lemma block_facts:
  assumes "buddy_inv_upto mp A X" "(p, k) \<in> free_blocks mp \<union> A"
  shows "min_order mp \<le> k" "k \<le> pool_order mp" "2 ^ k dvd p" "p < 2 ^ pool_order mp"
    "p + 2 ^ k \<le> 2 ^ pool_order mp" "2 ^ min_order mp dvd p"
proof -
  note t = tilingD [OF buddy_inv_uptoD(2) [OF assms(1)] assms(2)]
  then show "min_order mp \<le> k" "k \<le> pool_order mp" "2 ^ k dvd p" "p < 2 ^ pool_order mp"
    "p + 2 ^ k \<le> 2 ^ pool_order mp" by auto
  from t(1,3) show "2 ^ min_order mp dvd p" by (meson dvd_trans le_imp_power_dvd)
qed

lemma in_avail_iff:
  assumes "pool_ok mp" "p < 2 ^ pool_order mp"
  shows "blk_addr mp p \<in> set (avail mp k) \<longleftrightarrow> (p, k) \<in> free_blocks mp"
  using blk_off_addr [OF assms] by (auto simp: free_blocks_def) (metis blk_addr_off)

lemma avail_addr: "a \<in> set (avail mp k) \<Longrightarrow> (blk_off mp a, k) \<in> free_blocks mp"
  by (auto simp: free_blocks_def)

lemma set_avail_free: "set (avail mp k) = blk_addr mp ` {p. (p, k) \<in> free_blocks mp}"
  by (force simp: free_blocks_def)

text \<open>The tag bit of a handed-out block is clear, and so is that of any offset whose block
  meets nothing.\<close>

lemma head_tag_clear:
  assumes "buddy_inv mp A" "p < 2 ^ pool_order mp" "2 ^ min_order mp dvd p"
    and "\<And>b. b \<in> free_blocks mp \<Longrightarrow> p \<notin> rng b"
    and "\<And>b. b \<in> A \<Longrightarrow> \<not> inside p b"
  shows "\<not> tag mp p"
proof
  assume "tag mp p"
  then have "(\<exists>k. (p, k) \<in> free_blocks mp) \<or> (\<exists>b \<in> free_blocks mp \<union> A. inside p b)"
    using buddy_inv_uptoD(7) [OF assms(1) [unfolded buddy_inv_def] assms(2,3)] by blast
  then show False
  proof (elim disjE exE bexE)
    fix k assume "(p, k) \<in> free_blocks mp"
    with assms(4) [of "(p, k)"] show False by simp
  next
    fix b assume b: "b \<in> free_blocks mp \<union> A" "inside p b"
    then have "p \<in> rng b" by (auto simp: inside_def rng_def)
    with b assms(4,5) show False by blast
  qed
qed

lemma allocated_tag_clear:
  assumes inv: "buddy_inv mp A" and "(p, k) \<in> A"
  shows "\<not> tag mp p"
proof (rule head_tag_clear [OF inv])
  note i = inv [unfolded buddy_inv_def]
  have pk: "(p, k) \<in> free_blocks mp \<union> A" using assms(2) by blast
  show "p < 2 ^ pool_order mp" "2 ^ min_order mp dvd p" by (rule block_facts [OF i pk])+
  have meet: "b = (p, k)" if "b \<in> free_blocks mp \<union> A" "p \<in> rng b" for b
    by (rule tiling_meet [OF buddy_inv_uptoD(2) [OF i] that(1) pk that(2)]) simp
  show "p \<notin> rng b" if "b \<in> free_blocks mp" for b
    using meet [of b] that assms(2) buddy_inv_uptoD(3) [OF i] by blast
  show "\<not> inside p b" if "b \<in> A" for b
  proof
    assume ins: "inside p b"
    then have "p \<in> rng b" by (auto simp: inside_def rng_def)
    with meet [of b] that have "b = (p, k)" by blast
    with ins show False by (simp add: inside_def)
  qed
qed

text \<open>Blocks that meet nothing can be added to the handed-out ones: this is how memory
  enters the pool.\<close>

lemma buddy_inv_adopt:
  assumes inv: "buddy_inv mp A" and ok: "blk_ok (pool_order mp) (min_order mp) b"
    and disj: "\<And>a. a \<in> free_blocks mp \<union> A \<Longrightarrow> rng a \<inter> rng b = {}"
  shows "buddy_inv mp (insert b A)"
proof -
  have "b \<notin> free_blocks mp"
  proof
    assume "b \<in> free_blocks mp"
    with disj have "rng b = {}" by blast
    moreover have "fst b \<in> rng b" by (cases b) simp
    ultimately show False by simp
  qed
  moreover have "tiling (pool_order mp) (min_order mp) (insert b (free_blocks mp \<union> A))"
    using inv ok disj unfolding tiling_insert buddy_inv_def buddy_inv_upto_def by blast
  ultimately show ?thesis
    using inv unfolding buddy_inv_def buddy_inv_upto_def by auto
qed

section \<open>Effects of the primitive updates\<close>

definition same_pool :: "buddy_mempool \<Rightarrow> buddy_mempool \<Rightarrow> bool" where
  "same_pool mp mp' \<longleftrightarrow> base_addr mp' = base_addr mp \<and> pool_order mp' = pool_order mp \<and>
     min_order mp' = min_order mp \<and> num_blocks mp' = num_blocks mp"

lemma same_pool_refl [simp]: "same_pool mp mp"
  by (simp add: same_pool_def)

lemma same_pool_trans: "same_pool a b \<Longrightarrow> same_pool b c \<Longrightarrow> same_pool a c"
  by (simp add: same_pool_def)

lemma same_poolD:
  assumes "same_pool mp mp'"
  shows "blk_addr mp' = blk_addr mp" "blk_off mp' = blk_off mp" "pool_ok mp' = pool_ok mp"
    "pool_order mp' = pool_order mp" "min_order mp' = min_order mp" "base_addr mp' = base_addr mp"
  using assms by (auto simp: same_pool_def blk_addr_def blk_off_def pool_ok_def fun_eq_iff)

lemma same_pool_updates [simp]:
  "same_pool mp (mp\<lparr>tag_bits := t\<rparr>)" "same_pool mp (mp\<lparr>avail := v\<rparr>)"
  "same_pool mp (mp\<lparr>blk_order := w\<rparr>)" "same_pool mp (avail_del mp a)"
  by (simp_all add: same_pool_def avail_del_def)

lemma blk_addr_updates [simp]:
  "blk_addr (mp\<lparr>tag_bits := t\<rparr>) = blk_addr mp" "blk_addr (mp\<lparr>avail := v\<rparr>) = blk_addr mp"
  "blk_addr (mp\<lparr>blk_order := w\<rparr>) = blk_addr mp" "blk_addr (avail_del mp a) = blk_addr mp"
  by (simp_all add: same_poolD [OF same_pool_updates(1)] same_poolD [OF same_pool_updates(2)]
      same_poolD [OF same_pool_updates(3)] same_poolD [OF same_pool_updates(4)])

lemma blk_off_updates [simp]:
  "blk_off (mp\<lparr>tag_bits := t\<rparr>) = blk_off mp" "blk_off (mp\<lparr>avail := v\<rparr>) = blk_off mp"
  "blk_off (mp\<lparr>blk_order := w\<rparr>) = blk_off mp" "blk_off (avail_del mp a) = blk_off mp"
  by (simp_all add: blk_off_def avail_del_def fun_eq_iff)

lemma pool_ok_updates [simp]:
  "pool_ok (mp\<lparr>tag_bits := t\<rparr>) = pool_ok mp" "pool_ok (mp\<lparr>avail := v\<rparr>) = pool_ok mp"
  "pool_ok (mp\<lparr>blk_order := w\<rparr>) = pool_ok mp" "pool_ok (avail_del mp a) = pool_ok mp"
  by (simp_all add: pool_ok_def avail_del_def)

lemma free_blocks_updates [simp]:
  "free_blocks (mp\<lparr>tag_bits := t\<rparr>) = free_blocks mp"
  "free_blocks (mp\<lparr>blk_order := w\<rparr>) = free_blocks mp"
  by (simp_all add: free_blocks_def)

lemma tag_updates [simp]:
  "tag (mp\<lparr>avail := v\<rparr>) = tag mp" "tag (mp\<lparr>blk_order := w\<rparr>) = tag mp"
  "tag (avail_del mp a) = tag mp"
  by (simp_all add: tag_def avail_del_def fun_eq_iff)

definition set_tag :: "buddy_mempool \<Rightarrow> nat \<Rightarrow> bool \<Rightarrow> buddy_mempool" where
  "set_tag mp p b = mp\<lparr>tag_bits := (tag_bits mp)(of_nat (p div 2 ^ min_order mp) := b)\<rparr>"

lemma mark_available_addr:
  "pool_ok mp \<Longrightarrow> p < 2 ^ pool_order mp \<Longrightarrow>
     mark_available mp (blk_addr mp p) = Some (set_tag mp p True)"
  by (simp add: mark_available_def block_to_id_addr set_tag_def)

lemma mark_allocated_addr:
  "pool_ok mp \<Longrightarrow> p < 2 ^ pool_order mp \<Longrightarrow>
     mark_allocated mp (blk_addr mp p) = Some (set_tag mp p False)"
  by (simp add: mark_allocated_def block_to_id_addr set_tag_def)

lemma is_available_addr:
  "pool_ok mp \<Longrightarrow> p < 2 ^ pool_order mp \<Longrightarrow> is_available mp (blk_addr mp p) = Some (tag mp p)"
  by (simp add: is_available_def block_to_id_addr tag_def)

lemma tag_set_tag:
  assumes "pool_ok mp" "p < 2 ^ pool_order mp" "q < 2 ^ pool_order mp"
    and "2 ^ min_order mp dvd p" "2 ^ min_order mp dvd q"
  shows "tag (set_tag mp p b) q = (if q = p then b else tag mp q)"
  using of_nat_block_id_eq [OF assms(1,3,2,5,4)] by (simp add: set_tag_def tag_def)

lemma set_tag_simps [simp]:
  "blk_addr (set_tag mp p b) = blk_addr mp" "blk_off (set_tag mp p b) = blk_off mp"
  "pool_ok (set_tag mp p b) = pool_ok mp" "free_blocks (set_tag mp p b) = free_blocks mp"
  "avail (set_tag mp p b) = avail mp" "blk_order (set_tag mp p b) = blk_order mp"
  "pool_order (set_tag mp p b) = pool_order mp" "min_order (set_tag mp p b) = min_order mp"
  "same_pool mp (set_tag mp p b)"
  by (simp_all add: set_tag_def)

lemma blk_off_inj: "blk_off mp a = blk_off mp b \<longleftrightarrow> a = b"
  by (metis blk_addr_off)

lemma free_blocks_push:
  assumes "pool_ok mp" "p < 2 ^ pool_order mp"
  shows "free_blocks (mp\<lparr>avail := (avail mp)(k := blk_addr mp p # avail mp k)\<rparr>) =
     insert (p, k) (free_blocks mp)"
  using blk_off_addr [OF assms] by (auto simp: free_blocks_def split: if_splits)

lemma free_blocks_pop:
  assumes "distinct (a # rest)" "avail mp k = a # rest"
  shows "free_blocks (mp\<lparr>avail := (avail mp)(k := rest)\<rparr>) = free_blocks mp - {(blk_off mp a, k)}"
  using assms by (auto simp: free_blocks_def blk_off_inj split: if_splits)

section \<open>Allocation\<close>

lemma buddy_invI:
  assumes "pool_ok mp" "tiling (pool_order mp) (min_order mp) (free_blocks mp \<union> A)"
    and "free_blocks mp \<inter> A = {}" "\<And>k. distinct (avail mp k)"
    and "\<And>p k. (p, k) \<in> free_blocks mp \<Longrightarrow> tag mp p \<and> blk_order mp (blk_addr mp p) = k"
    and "\<And>p. p < 2 ^ pool_order mp \<Longrightarrow> 2 ^ min_order mp dvd p \<Longrightarrow> tag mp p \<Longrightarrow>
        p \<in> X \<or> (\<exists>k. (p, k) \<in> free_blocks mp) \<or> (\<exists>b \<in> free_blocks mp \<union> A. inside p b)"
  shows "buddy_inv_upto mp A X"
  using assms unfolding buddy_inv_upto_def by blast

lemma free_head_unique:
  assumes "buddy_inv_upto mp A X" "(p, k) \<in> free_blocks mp \<union> A" "(p, l) \<in> free_blocks mp \<union> A"
  shows "k = l"
  using tiling_meet [OF buddy_inv_uptoD(2) [OF assms(1)] assms(2,3), of p] by simp

text \<open>Taking the first block off a free list and clearing its tag hands the block out.\<close>

lemma buddy_pop:
  assumes inv: "buddy_inv mp A" and av: "avail mp j = a # rest"
  defines "p \<equiv> blk_off mp a"
  defines "mp1 \<equiv> set_tag (mp\<lparr>avail := (avail mp)(j := rest)\<rparr>) p False"
  shows "mark_allocated (mp\<lparr>avail := (avail mp)(j := rest)\<rparr>) a = Some mp1"
    and "(p, j) \<in> free_blocks mp" and "a = blk_addr mp p"
    and "free_blocks mp1 = free_blocks mp - {(p, j)}"
    and "same_pool mp mp1" and "buddy_inv mp1 (insert (p, j) A)"
proof -
  note i = inv [unfolded buddy_inv_def]
  show a: "a = blk_addr mp p" by (simp add: p_def)
  show pj: "(p, j) \<in> free_blocks mp" unfolding p_def by (rule avail_addr) (simp add: av)
  then have pjA: "(p, j) \<in> free_blocks mp \<union> A" by simp
  note bf = block_facts [OF i pjA]
  note ok = buddy_inv_uptoD(1) [OF i]
  show "mark_allocated (mp\<lparr>avail := (avail mp)(j := rest)\<rparr>) a = Some mp1"
    using mark_allocated_addr [of "mp\<lparr>avail := (avail mp)(j := rest)\<rparr>" p] ok bf(4)
    by (simp add: mp1_def a)
  show fb: "free_blocks mp1 = free_blocks mp - {(p, j)}"
    using free_blocks_pop [OF _ av] buddy_inv_uptoD(4) [OF i, of j] av
    by (simp add: mp1_def p_def)
  show sp: "same_pool mp mp1"
    unfolding mp1_def by (rule same_pool_trans [OF same_pool_updates(2) set_tag_simps(9)])
  have tag1: "tag mp1 q = (q \<noteq> p \<and> tag mp q)" if "q < 2 ^ pool_order mp" "2 ^ min_order mp dvd q" for q
    unfolding mp1_def
    using tag_set_tag [of "mp\<lparr>avail := (avail mp)(j := rest)\<rparr>" p q False] that ok bf(4,6) by simp
  have blocks: "free_blocks mp1 \<union> insert (p, j) A = free_blocks mp \<union> A"
    using fb pj by blast
  show "buddy_inv mp1 (insert (p, j) A)"
    unfolding buddy_inv_def
  proof (rule buddy_invI)
    show "pool_ok mp1" using ok by (simp add: mp1_def)
    show "tiling (pool_order mp1) (min_order mp1) (free_blocks mp1 \<union> insert (p, j) A)"
      unfolding blocks using buddy_inv_uptoD(2) [OF i] same_poolD [OF sp] by simp
    show "free_blocks mp1 \<inter> insert (p, j) A = {}"
      using fb buddy_inv_uptoD(3) [OF i] by blast
    show "distinct (avail mp1 k)" for k
      using buddy_inv_uptoD(4) [OF i, of k] buddy_inv_uptoD(4) [OF i, of j] av
      by (simp add: mp1_def)
  next
    fix q k assume qk: "(q, k) \<in> free_blocks mp1"
    then have qf: "(q, k) \<in> free_blocks mp" "(q, k) \<noteq> (p, j)" using fb by auto
    then have "q \<noteq> p" using free_head_unique [OF i, of p k j] pj by auto
    moreover have "q < 2 ^ pool_order mp" "2 ^ min_order mp dvd q"
      using block_facts [OF i, of q k] qf by auto
    ultimately show "tag mp1 q \<and> blk_order mp1 (blk_addr mp1 q) = k"
      using tag1 [of q] buddy_inv_uptoD(5,6) [OF i qf(1)] by (simp add: mp1_def)
  next
    fix q assume q: "q < 2 ^ pool_order mp1" "2 ^ min_order mp1 dvd q" "tag mp1 q"
    then have q': "q < 2 ^ pool_order mp" "2 ^ min_order mp dvd q"
      using same_poolD [OF sp] by auto
    with q tag1 have "q \<noteq> p" "tag mp q" by auto
    with buddy_inv_uptoD(7) [OF i q'] fb
    show "q \<in> {} \<or> (\<exists>k. (q, k) \<in> free_blocks mp1) \<or>
        (\<exists>b \<in> free_blocks mp1 \<union> insert (p, j) A. inside q b)"
      unfolding blocks by auto
  qed
qed

text \<open>Cutting a handed-out block in two: the upper half becomes free.\<close>

lemma rng_split: "rng (p, Suc k) = rng (p, k) \<union> rng (p + 2 ^ k, k)"
  by (auto simp: rng_iff)

lemma split_blk_ok:
  assumes "blk_ok P m (p, Suc k)" "m \<le> k"
  shows "tiling P m {(p, k), (p + 2 ^ k, k)}"
proof -
  from assms have d: "2 ^ Suc k dvd p" "Suc k \<le> P" "p + 2 ^ Suc k \<le> 2 ^ P"
    by (auto simp: blk_ok_def)
  then have dk: "2 ^ k dvd p" by (meson dvd_trans le_imp_power_dvd le_SucI order_refl)
  then have "blk_ok P m (p, k)" "blk_ok P m (p + 2 ^ k, k)"
    using d assms(2) by (auto simp: blk_ok_def)
  moreover have "rng (p, k) \<inter> rng (p + 2 ^ k, k) = {}" by (auto simp: rng_iff)
  ultimately show ?thesis by (auto simp: tiling_def Int_commute)
qed

lemma buddy_split:
  assumes inv: "buddy_inv mp (insert (p, Suc k) A)" and pA: "(p, Suc k) \<notin> A"
    and mk: "min_order mp \<le> k"
  defines "q \<equiv> p + 2 ^ k"
  defines "mp1 \<equiv> set_tag (mp\<lparr>blk_order := (blk_order mp)(blk_addr mp q := k)\<rparr>) q True"
  defines "mp2 \<equiv> mp1\<lparr>avail := (avail mp1)(k := blk_addr mp q # avail mp1 k)\<rparr>"
  shows "mark_available (mp\<lparr>blk_order := (blk_order mp)(blk_addr mp q := k)\<rparr>) (blk_addr mp q)
      = Some mp1"
    and "free_blocks mp2 = insert (q, k) (free_blocks mp)"
    and "same_pool mp mp2" and "buddy_inv mp2 (insert (p, k) A)" and "(p, k) \<notin> A"
proof -
  note i = inv [unfolded buddy_inv_def]
  note ok = buddy_inv_uptoD(1) [OF i]
  note til = buddy_inv_uptoD(2) [OF i]
  let ?P = "pool_order mp" and ?m = "min_order mp" and ?B = "free_blocks mp \<union> A"
  have okp: "blk_ok ?P ?m (p, Suc k)" using til by (auto simp: tiling_def)
  have pF: "(p, Suc k) \<notin> ?B" using pA buddy_inv_uptoD(3) [OF i] by blast
  have "tiling ?P ?m ({(p, Suc k)} \<union> ?B)" using til by (simp add: insert_commute)
  note ex = tiling_exchange [OF this _ split_blk_ok [OF okp mk]]
  have til2: "tiling ?P ?m ({(p, k), (q, k)} \<union> ?B)" and disj: "{(p, k), (q, k)} \<inter> ?B = {}"
    using ex pF rng_split [of p k] by (auto simp: q_def)
  then show "(p, k) \<notin> A" by blast
  have qB: "(q, k) \<in> {(p, k), (q, k)} \<union> ?B" by simp
  have q: "q < 2 ^ ?P" "2 ^ ?m dvd q"
  proof -
    show "q < 2 ^ ?P" by (rule tilingD(5) [OF til2 qB])
    show "2 ^ ?m dvd q"
      by (rule dvd_trans [OF le_imp_power_dvd [OF mk] tilingD(3) [OF til2 qB]])
  qed
  show "mark_available (mp\<lparr>blk_order := (blk_order mp)(blk_addr mp q := k)\<rparr>) (blk_addr mp q)
      = Some mp1"
    using mark_available_addr [of "mp\<lparr>blk_order := (blk_order mp)(blk_addr mp q := k)\<rparr>" q] ok q
    by (simp add: mp1_def)
  show fb: "free_blocks mp2 = insert (q, k) (free_blocks mp)"
    using free_blocks_push [of mp1 q k] ok q by (simp add: mp2_def mp1_def)
  show sp: "same_pool mp mp2"
    unfolding mp2_def mp1_def
    by (rule same_pool_trans [OF same_pool_trans [OF same_pool_updates(3) set_tag_simps(9)]
          same_pool_updates(2)])
  note spD = same_poolD [OF sp]
  have tag2: "tag mp2 r = (r = q \<or> tag mp r)" if "r < 2 ^ ?P" "2 ^ ?m dvd r" for r
    unfolding mp2_def mp1_def
    using tag_set_tag [of "mp\<lparr>blk_order := (blk_order mp)(blk_addr mp q := k)\<rparr>" q r True]
      that ok q by simp
  have notq: "r \<noteq> q" if "(r, l) \<in> ?B" for r l
  proof
    assume "r = q"
    with that have "(r, l) = (q, k)"
      using tiling_meet [OF til2 _ qB, of "(r, l)" q] by simp
    with that disj show False by blast
  qed
  show "buddy_inv mp2 (insert (p, k) A)"
    unfolding buddy_inv_def
  proof (rule buddy_invI)
    show "pool_ok mp2" using ok spD by simp
    show "tiling (pool_order mp2) (min_order mp2) (free_blocks mp2 \<union> insert (p, k) A)"
      using til2 spD fb by (simp add: Un_commute insert_commute)
    show "free_blocks mp2 \<inter> insert (p, k) A = {}"
      using fb disj buddy_inv_uptoD(3) [OF i] by (auto simp: q_def)
    have "blk_addr mp q \<notin> set (avail mp k)"
      using disj in_avail_iff [OF ok q(1)] by blast
    then show "distinct (avail mp2 l)" for l
      using buddy_inv_uptoD(4) [OF i] by (simp add: mp2_def mp1_def)
  next
    fix r l assume rl: "(r, l) \<in> free_blocks mp2"
    show "tag mp2 r \<and> blk_order mp2 (blk_addr mp2 r) = l"
    proof (cases "(r, l) = (q, k)")
      case True
      then show ?thesis using tag2 q by (simp add: mp2_def mp1_def)
    next
      case False
      with rl fb have rf: "(r, l) \<in> free_blocks mp" by auto
      then have rq: "r \<noteq> q" using notq by blast
      have r: "r < 2 ^ ?P" "2 ^ ?m dvd r" using block_facts [OF i, of r l] rf by auto
      have "blk_addr mp r \<noteq> blk_addr mp q" using rq blk_addr_inj [OF ok r(1) q(1)] by simp
      then show ?thesis
        using tag2 [OF r] buddy_inv_uptoD(5,6) [OF i rf] by (simp add: mp2_def mp1_def)
    qed
  next
    fix r assume r: "r < 2 ^ pool_order mp2" "2 ^ min_order mp2 dvd r" "tag mp2 r"
    then have r': "r < 2 ^ ?P" "2 ^ ?m dvd r" using spD by auto
    show "r \<in> {} \<or> (\<exists>l. (r, l) \<in> free_blocks mp2) \<or>
        (\<exists>b \<in> free_blocks mp2 \<union> insert (p, k) A. inside r b)"
    proof (cases "r = q")
      case True
      then show ?thesis using fb by auto
    next
      case False
      with tag2 [OF r'] r(3) have "tag mp r" by simp
      from buddy_inv_uptoD(7) [OF i r' this]
      consider l where "(r, l) \<in> free_blocks mp" | b where "b \<in> ?B" "inside r b"
        | "inside r (p, Suc k)" by auto
      then show ?thesis
      proof cases
        case 3
        with False have "inside r (p, k) \<or> inside r (q, k)" by (auto simp: inside_def q_def)
        then show ?thesis using fb by auto
      qed (use fb in auto)
    qed
  qed
qed

lemma buddy_trim_correct:
  assumes "buddy_inv mp (insert (p, j) A)" "(p, j) \<notin> A" "order \<le> j" "min_order mp \<le> order"
  shows "\<exists>mp'. buddy_trim mp (blk_addr mp p) order j = Some mp' \<and> same_pool mp mp' \<and>
      buddy_inv mp' (insert (p, order) A) \<and> (p, order) \<notin> A \<and>
      free_blocks mp' = free_blocks mp \<union> (\<lambda>i. (p + 2 ^ i, i)) ` {order ..< j}"
  using assms
proof (induction "j - order" arbitrary: mp j)
  case 0
  then have "j = order" by simp
  with 0 show ?case by (simp add: buddy_trim.simps)
next
  case (Suc d)
  then obtain k where j: "j = Suc k" by (cases j) auto
  with Suc have k: "order \<le> k" "d = k - order" "min_order mp \<le> k" by auto
  define q where "q = p + 2 ^ k"
  define mp1 where "mp1 = set_tag (mp\<lparr>blk_order := (blk_order mp)(blk_addr mp q := k)\<rparr>) q True"
  define mp2 where "mp2 = mp1\<lparr>avail := (avail mp1)(k := blk_addr mp q # avail mp1 k)\<rparr>"
  note sp = buddy_split [OF Suc.prems(1,2) [unfolded j] k(3), folded q_def, folded mp1_def, folded mp2_def]
  have addr: "blk_addr mp p + 2 ^ k = blk_addr mp q"
    by (simp add: blk_addr_def q_def add.assoc)
  have "buddy_trim mp (blk_addr mp p) order j = buddy_trim mp2 (blk_addr mp2 p) order k"
    using k j sp(1) same_poolD(1) [OF sp(3)]
    by (subst buddy_trim.simps) (simp add: addr mp2_def Let_def push_bit_1_u64)
  moreover obtain mp' where mp': "buddy_trim mp2 (blk_addr mp2 p) order k = Some mp'"
      "same_pool mp2 mp'" "buddy_inv mp' (insert (p, order) A)" "(p, order) \<notin> A"
      "free_blocks mp' = free_blocks mp2 \<union> (\<lambda>i. (p + 2 ^ i, i)) ` {order ..< k}"
    using Suc.hyps(1) [OF k(2) sp(4,5) k(1)] same_poolD(5) [OF sp(3)] Suc.prems(4) by auto
  moreover have "{order ..< j} = insert k {order ..< k}" using j k by auto
  ultimately show ?case
    using sp(2) same_pool_trans [OF sp(3) mp'(2)] by (auto simp: q_def)
qed

text \<open>The free list the search stops at is the first nonempty one of sufficient order.\<close>

lemma buddy_alloc_from_none:
  assumes "\<And>k. j \<le> k \<Longrightarrow> k \<le> pool_order mp \<Longrightarrow> avail mp k = []"
  shows "buddy_alloc_from mp order j = Some (None, mp)"
  using assms
proof (induction mp order j rule: buddy_alloc_from.induct)
  case (1 mp order j)
  show ?case
  proof (cases "j \<le> pool_order mp")
    case True
    then have "avail mp j = []" using "1.prems" by simp
    then show ?thesis using "1.IH" [OF True] "1.prems" True by (subst buddy_alloc_from.simps) simp
  qed (simp add: buddy_alloc_from.simps)
qed

lemma buddy_alloc_from_skip:
  assumes "j \<le> n" "n \<le> pool_order mp" "\<And>k. j \<le> k \<Longrightarrow> k < n \<Longrightarrow> avail mp k = []"
  shows "buddy_alloc_from mp order j = buddy_alloc_from mp order n"
  using assms
proof (induction "n - j" arbitrary: j)
  case (Suc d)
  then have "avail mp j = []" "j \<le> pool_order mp" by auto
  then have "buddy_alloc_from mp order j = buddy_alloc_from mp order (Suc j)"
    by (subst buddy_alloc_from.simps) simp
  also have "\<dots> = buddy_alloc_from mp order n" using Suc by (intro Suc.hyps) auto
  finally show ?case .
qed simp

lemma first_nonempty:
  assumes "\<exists>k \<ge> j :: nat. k \<le> P \<and> f k \<noteq> []"
  obtains n where "j \<le> n" "n \<le> P" "f n \<noteq> []" "\<And>k. j \<le> k \<Longrightarrow> k < n \<Longrightarrow> f k = []"
proof -
  define n where "n = (LEAST k. j \<le> k \<and> k \<le> P \<and> f k \<noteq> [])"
  have n: "j \<le> n \<and> n \<le> P \<and> f n \<noteq> []" unfolding n_def
    using LeastI_ex [of "\<lambda>k. j \<le> k \<and> k \<le> P \<and> f k \<noteq> []"] assms by blast
  moreover have "f k = []" if "j \<le> k" "k < n" for k
    using not_less_Least [of k "\<lambda>k. j \<le> k \<and> k \<le> P \<and> f k \<noteq> []", folded n_def] that n by auto
  ultimately show ?thesis using that by blast
qed

lemma buddy_alloc_from_some:
  assumes inv: "buddy_inv mp A" and n: "order \<le> n" "n \<le> pool_order mp" "avail mp n \<noteq> []"
    and m: "min_order mp \<le> order"
  shows "\<exists>p mp'. buddy_alloc_from mp order n = Some (Some (blk_addr mp p), mp') \<and>
      same_pool mp mp' \<and> p < 2 ^ pool_order mp \<and>
      buddy_inv mp' (insert (p, order) A) \<and> (p, order) \<notin> A \<and> (p, n) \<in> free_blocks mp \<and>
      free_blocks mp' = free_blocks mp - {(p, n)} \<union> (\<lambda>i. (p + 2 ^ i, i)) ` {order ..< n}"
proof -
  from n(3) obtain a rest where av: "avail mp n = a # rest" by (cases "avail mp n") auto
  define p where "p = blk_off mp a"
  define mp1 where "mp1 = set_tag (mp\<lparr>avail := (avail mp)(n := rest)\<rparr>) p False"
  note pop = buddy_pop [OF inv av, folded p_def, folded mp1_def]
  note i = inv [unfolded buddy_inv_def]
  have pF: "(p, n) \<in> free_blocks mp \<union> A" using pop(2) by blast
  have "(p, n) \<notin> A" using buddy_inv_uptoD(3) [OF i] pop(2) by blast
  from buddy_trim_correct [OF pop(6) this n(1)] m same_poolD [OF pop(5)]
  obtain mp' where mp': "buddy_trim mp1 (blk_addr mp1 p) order n = Some mp'" "same_pool mp1 mp'"
      "buddy_inv mp' (insert (p, order) A)" "(p, order) \<notin> A"
      "free_blocks mp' = free_blocks mp1 \<union> (\<lambda>i. (p + 2 ^ i, i)) ` {order ..< n}" by auto
  have "buddy_alloc_from mp order n = Some (Some (blk_addr mp p), mp')"
    using n av pop(1,3) mp'(1) same_poolD(1) [OF pop(5)]
    by (subst buddy_alloc_from.simps) simp
  moreover have "p < 2 ^ pool_order mp" by (rule block_facts(4) [OF i pF])
  ultimately show ?thesis
    using mp' pop(2,4) same_pool_trans [OF pop(5) mp'(2)] by auto
qed

lemma pieces_rng:
  "order \<le> j \<Longrightarrow> \<Union> (rng ` (\<lambda>i. (p + 2 ^ i, i)) ` {order ..< j}) \<union> rng (p, order) = rng (p, j)"
proof (induction "j - order" arbitrary: j)
  case (Suc d)
  then obtain k where j: "j = Suc k" "order \<le> k" "d = k - order" by (cases j) auto
  have "{order ..< j} = insert k {order ..< k}" using j by auto
  then have "\<Union> (rng ` (\<lambda>i. (p + 2 ^ i, i)) ` {order ..< j}) \<union> rng (p, order) =
      rng (p + 2 ^ k, k) \<union> (\<Union> (rng ` (\<lambda>i. (p + 2 ^ i, i)) ` {order ..< k}) \<union> rng (p, order))"
    by auto
  also have "\<dots> = rng (p + 2 ^ k, k) \<union> rng (p, k)" using Suc.hyps(1) [OF j(3,2)] by simp
  also have "\<dots> = rng (p, j)" by (simp add: j rng_split Un_commute)
  finally show ?case .
qed simp

text \<open>
  What one allocation does. The block handed out has the order asked for (at least the minimum
  order), is disjoint from everything handed out before, and the free bytes are exactly the
  old ones without it; a failing allocation changes nothing and fails only when every free
  list of sufficient order is empty.
\<close>

definition eff_order :: "buddy_mempool \<Rightarrow> nat \<Rightarrow> nat" where
  "eff_order mp order = (if order < min_order mp then min_order mp else order)"

lemma buddy_alloc_cases:
  assumes inv: "buddy_inv mp A" and ord: "order \<le> pool_order mp"
  obtains (fail) "buddy_alloc mp order = Some (None, mp)"
      "\<And>k. eff_order mp order \<le> k \<Longrightarrow> k \<le> pool_order mp \<Longrightarrow> avail mp k = []"
    | (take) p n mp' where "buddy_alloc mp order = Some (Some (blk_addr mp p), mp')"
      "same_pool mp mp'" "p < 2 ^ pool_order mp" "eff_order mp order \<le> n"
      "buddy_inv mp' (insert (p, eff_order mp order) A)" "(p, eff_order mp order) \<notin> A"
      "(p, n) \<in> free_blocks mp"
      "free_blocks mp' =
        free_blocks mp - {(p, n)} \<union> (\<lambda>i. (p + 2 ^ i, i)) ` {eff_order mp order ..< n}"
proof -
  let ?o = "eff_order mp order"
  have al: "buddy_alloc mp order = buddy_alloc_from mp ?o ?o"
    using ord by (simp add: buddy_alloc_def eff_order_def Let_def)
  show thesis
  proof (cases "\<exists>k. ?o \<le> k \<and> k \<le> pool_order mp \<and> avail mp k \<noteq> []")
    case False
    then have "\<And>k. ?o \<le> k \<Longrightarrow> k \<le> pool_order mp \<Longrightarrow> avail mp k = []" by blast
    with buddy_alloc_from_none [of ?o mp ?o] al show thesis by (intro fail) auto
  next
    case True
    then obtain n where n: "?o \<le> n" "n \<le> pool_order mp" "avail mp n \<noteq> []"
        "\<And>k. ?o \<le> k \<Longrightarrow> k < n \<Longrightarrow> avail mp k = []"
      by (rule first_nonempty) blast
    have m: "min_order mp \<le> ?o" by (simp add: eff_order_def)
    from buddy_alloc_from_some [OF inv n(1-3) m] buddy_alloc_from_skip [OF n(1,2,4)] al n(1)
    show thesis by (auto intro: take)
  qed
qed

lemma buddy_alloc_bytes:
  assumes inv: "buddy_inv mp A" and inv': "buddy_inv mp' (insert (p, k) A)"
    and "(p, n) \<in> free_blocks mp" "k \<le> n"
    and fb: "free_blocks mp' = free_blocks mp - {(p, n)} \<union> (\<lambda>i. (p + 2 ^ i, i)) ` {k ..< n}"
  shows "free_bytes mp = free_bytes mp' \<union> rng (p, k)" "free_bytes mp' \<inter> rng (p, k) = {}"
proof -
  have "free_bytes mp' \<union> rng (p, k) = \<Union> (rng ` (free_blocks mp - {(p, n)})) \<union> rng (p, n)"
    using pieces_rng [OF assms(4), of p] unfolding free_bytes_def fb by auto
  also have "\<dots> = free_bytes mp" using assms(3) unfolding free_bytes_def by auto
  finally show "free_bytes mp = free_bytes mp' \<union> rng (p, k)" ..
  note i = inv' [unfolded buddy_inv_def]
  show "free_bytes mp' \<inter> rng (p, k) = {}"
  proof (rule ccontr)
    assume "free_bytes mp' \<inter> rng (p, k) \<noteq> {}"
    then obtain b x where b: "b \<in> free_blocks mp'" "x \<in> rng b" "x \<in> rng (p, k)"
      by (auto simp: free_bytes_def)
    then have "b = (p, k)" using tiling_meet [OF buddy_inv_uptoD(2) [OF i], of b "(p, k)" x] by blast
    with b(1) buddy_inv_uptoD(3) [OF i] show False by blast
  qed
qed

text \<open>C1: allocating an order the pool can hold never trips a \<^verbatim>\<open>BUG_ON\<close>. A returned block
  has the (rounded up) order asked for, was entirely free, is disjoint from every block handed out
  before, leaves the free list state consistent, and exactly its bytes leave the free memory. A
  \<^verbatim>\<open>NULL\<close> return changes nothing and means that every large enough free list is empty.\<close>

theorem buddy_alloc_correct:
  assumes inv: "buddy_inv mp A" and ord: "order \<le> pool_order mp"
  shows "\<exists>res mp'. buddy_alloc mp order = Some (res, mp') \<and> same_pool mp mp' \<and>
      (case res of
         None \<Rightarrow> mp' = mp \<and> (\<forall>k. eff_order mp order \<le> k \<and> k \<le> pool_order mp \<longrightarrow> avail mp k = [])
       | Some a \<Rightarrow>
           let b = (blk_off mp a, eff_order mp order) in
           buddy_inv mp' (insert b A) \<and> b \<notin> A \<and>
           free_bytes mp = free_bytes mp' \<union> rng b \<and> free_bytes mp' \<inter> rng b = {} \<and>
           (\<forall>a \<in> A. rng a \<inter> rng b = {}))"
  using inv ord
proof (cases rule: buddy_alloc_cases)
  case fail
  then show ?thesis by auto
next
  case (take p n mp')
  have "rng c \<inter> rng (p, eff_order mp order) = {}" if "c \<in> A" for c
  proof (rule ccontr)
    assume "rng c \<inter> rng (p, eff_order mp order) \<noteq> {}"
    then obtain x where "x \<in> rng c" "x \<in> rng (p, eff_order mp order)" by blast
    then have "c = (p, eff_order mp order)"
      using tiling_meet [OF buddy_inv_uptoD(2) [OF take(5) [unfolded buddy_inv_def]], of c] that by blast
    with that take(6) show False by simp
  qed
  moreover have "blk_off mp (blk_addr mp p) = p"
    using blk_off_addr inv take(3) buddy_inv_uptoD(1) by (auto simp: buddy_inv_def)
  ultimately show ?thesis
    using take buddy_alloc_bytes [OF inv take(5,7,4,8)] by (simp add: Let_def)
qed

section \<open>Freeing\<close>

lemma free_blocks_del:
  assumes "\<And>k. distinct (avail mp k)" "pool_ok mp" "p < 2 ^ pool_order mp"
  shows "free_blocks (avail_del mp (blk_addr mp p)) = {(q, k) \<in> free_blocks mp. q \<noteq> p}"
  using assms(1) blk_off_addr [OF assms(2,3)]
  by (auto simp: free_blocks_def avail_del_def blk_off_inj)

text \<open>One round of the coalescing loop: the free buddy is absorbed into the current block.\<close>

lemma buddy_merge:
  assumes inv: "buddy_inv_upto mp (insert (p, k) A) {p}" and pA: "(p, k) \<notin> A"
    and k: "k < pool_order mp"
  defines "q \<equiv> buddy_off k p" and "r \<equiv> parent_off k p"
  assumes qF: "(q, k) \<in> free_blocks mp"
  defines "mp1 \<equiv> (avail_del mp (blk_addr mp q))
      \<lparr>blk_order := (blk_order (avail_del mp (blk_addr mp q)))(blk_addr mp r := Suc k)\<rparr>"
  shows "free_blocks mp1 = free_blocks mp - {(q, k)}" and "same_pool mp mp1"
    and "buddy_inv_upto mp1 (insert (r, Suc k) A) {r}" and "(r, Suc k) \<notin> A"
    and "r < 2 ^ pool_order mp" and "rng (r, Suc k) = rng (p, k) \<union> rng (q, k)"
proof -
  note ok = buddy_inv_uptoD(1) [OF inv] and til = buddy_inv_uptoD(2) [OF inv]
  let ?P = "pool_order mp" and ?m = "min_order mp"
  let ?C = "{(p, k), (q, k)}" and ?B = "(free_blocks mp - {(q, k)}) \<union> A"
  have pk: "(p, k) \<in> free_blocks mp \<union> insert (p, k) A"
    and qk: "(q, k) \<in> free_blocks mp \<union> insert (p, k) A" using qF by auto
  note pf = block_facts [OF inv pk] and qf = block_facts [OF inv qk]
  have "blk_ok ?P ?m (p, k)" using til by (auto simp: tiling_def)
  note rok = buddy_blk_ok(2) [OF this k, folded r_def]
  show "r < 2 ^ ?P" using pf(4) by (simp add: r_def parent_off_def)
  show rr: "rng (r, Suc k) = rng (p, k) \<union> rng (q, k)"
    using rng_parent [OF pf(3)] by (simp add: r_def q_def)
  show fb: "free_blocks mp1 = free_blocks mp - {(q, k)}"
    using free_blocks_del [OF buddy_inv_uptoD(4) [OF inv] ok qf(4)]
      free_head_unique [OF inv qk] by (auto simp: mp1_def)
  show sp: "same_pool mp mp1"
    unfolding mp1_def by (rule same_pool_trans [OF same_pool_updates(4) same_pool_updates(3)])
  note spD = same_poolD [OF sp]
  have qA: "(q, k) \<notin> A" using buddy_inv_uptoD(3) [OF inv] qF by blast
  have pF: "(p, k) \<notin> free_blocks mp" using buddy_inv_uptoD(3) [OF inv] by blast
  have CB: "?C \<union> ?B = free_blocks mp \<union> insert (p, k) A" using qF by blast
  have "tiling ?P ?m {(r, Suc k)}" using rok by (simp add: tiling_def)
  from tiling_exchange [OF _ _ this, of ?C ?B] til CB rr pA qA pF
  have til1: "tiling ?P ?m ({(r, Suc k)} \<union> ?B)" and disj: "{(r, Suc k)} \<inter> ?B = {}" by auto
  then show "(r, Suc k) \<notin> A" by blast
  have head: "s \<noteq> r" if "(s, l) \<in> ?B" for s l
  proof
    assume "s = r"
    with that have "(s, l) = (r, Suc k)"
      using tiling_meet [OF til1, of "(s, l)" "(r, Suc k)" r] by simp
    with that disj show False by blast
  qed
  have into: "inside s (r, Suc k)" if "s = p \<or> s = q \<or> inside s (p, k) \<or> inside s (q, k)" "s \<noteq> r" for s
    using that by (auto simp: inside_iff rr)
  show "buddy_inv_upto mp1 (insert (r, Suc k) A) {r}"
  proof (rule buddy_invI)
    show "pool_ok mp1" using ok spD by simp
    show "tiling (pool_order mp1) (min_order mp1) (free_blocks mp1 \<union> insert (r, Suc k) A)"
      using til1 spD fb by simp
    show "free_blocks mp1 \<inter> insert (r, Suc k) A = {}"
      using fb disj buddy_inv_uptoD(3) [OF inv] by blast
    show "distinct (avail mp1 l)" for l
      using buddy_inv_uptoD(4) [OF inv, of l] by (simp add: mp1_def avail_del_def)
  next
    fix s l assume "(s, l) \<in> free_blocks mp1"
    with fb have sl: "(s, l) \<in> free_blocks mp" "(s, l) \<in> ?B" by auto
    have "s < 2 ^ ?P" using block_facts(4) [OF inv, of s l] sl by blast
    with head [OF sl(2)] \<open>r < 2 ^ ?P\<close> have "blk_addr mp s \<noteq> blk_addr mp r"
      using blk_addr_inj [OF ok] by blast
    then show "tag mp1 s \<and> blk_order mp1 (blk_addr mp1 s) = l"
      using buddy_inv_uptoD(5,6) [OF inv sl(1)] by (simp add: mp1_def avail_del_def)
  next
    fix s assume "s < 2 ^ pool_order mp1" "2 ^ min_order mp1 dvd s" "tag mp1 s"
    then have "s < 2 ^ ?P" "2 ^ ?m dvd s" "tag mp s" using spD by (auto simp: mp1_def)
    from buddy_inv_uptoD(7) [OF inv this]
    consider "s = p \<or> s = q \<or> inside s (p, k) \<or> inside s (q, k)"
      | l where "(s, l) \<in> free_blocks mp" "s \<noteq> q" | b where "b \<in> ?B" "inside s b" by auto
    then show "s \<in> {r} \<or> (\<exists>l. (s, l) \<in> free_blocks mp1) \<or>
        (\<exists>b \<in> free_blocks mp1 \<union> insert (r, Suc k) A. inside s b)"
      by cases (use fb into in auto)
  qed
qed

text \<open>The tests of the loop decide whether the buddy is a free block of the same order.\<close>

lemma buddy_free_iff:
  assumes inv: "buddy_inv_upto mp (insert (p, k) A) {p}" and k: "k < pool_order mp"
  shows "(buddy_off k p, k) \<in> free_blocks mp \<longleftrightarrow>
     tag mp (buddy_off k p) \<and> blk_order mp (blk_addr mp (buddy_off k p)) = k"
proof
  assume "(buddy_off k p, k) \<in> free_blocks mp"
  with buddy_inv_uptoD(5,6) [OF inv]
  show "tag mp (buddy_off k p) \<and> blk_order mp (blk_addr mp (buddy_off k p)) = k" by blast
next
  let ?q = "buddy_off k p"
  assume q: "tag mp ?q \<and> blk_order mp (blk_addr mp ?q) = k"
  have pk: "(p, k) \<in> free_blocks mp \<union> insert (p, k) A" by simp
  note pf = block_facts [OF inv pk]
  have "blk_ok (pool_order mp) (min_order mp) (p, k)"
    using buddy_inv_uptoD(2) [OF inv] by (auto simp: tiling_def)
  from buddy_blk_ok(1) [OF this k]
  have ok: "2 ^ k dvd ?q" "?q + 2 ^ k \<le> 2 ^ pool_order mp" by (auto simp: blk_ok_def)
  have "(0::nat) < 2 ^ k" by simp
  with ok(2) have lt: "?q < 2 ^ pool_order mp" by linarith
  have dv: "2 ^ min_order mp dvd ?q" by (rule dvd_trans [OF le_imp_power_dvd [OF pf(1)] ok(1)])
  from buddy_inv_uptoD(7) [OF inv lt dv] q
  have "?q \<in> {p} \<or> (\<exists>l. (?q, l) \<in> free_blocks mp) \<or>
      (\<exists>b \<in> free_blocks mp \<union> insert (p, k) A. inside ?q b)" by blast
  moreover have "?q \<notin> {p}" using buddy_off_neq [OF pf(3)] by simp
  moreover have "\<not> (\<exists>b \<in> free_blocks mp \<union> insert (p, k) A. inside ?q b)"
    using buddy_not_inside [OF buddy_inv_uptoD(2) [OF inv] pk] by blast
  ultimately obtain l where "(?q, l) \<in> free_blocks mp" by blast
  with q buddy_inv_uptoD(6) [OF inv this] show "(?q, k) \<in> free_blocks mp" by simp
qed

lemma buddy_coalesce_step:
  assumes inv: "buddy_inv_upto mp (insert (p, k) A) {p}" and k: "k < pool_order mp"
  shows "buddy_coalesce mp (blk_addr mp p) k =
     (if (buddy_off k p, k) \<in> free_blocks mp
      then let mp1 = avail_del mp (blk_addr mp (buddy_off k p));
               mp2 = mp1\<lparr>blk_order := (blk_order mp1)(blk_addr mp (parent_off k p) := Suc k)\<rparr>
           in buddy_coalesce mp2 (blk_addr mp2 (parent_off k p)) (Suc k)
      else Some (mp, blk_addr mp p, k))"
proof -
  let ?q = "buddy_off k p"
  have pk: "(p, k) \<in> free_blocks mp \<union> insert (p, k) A" by simp
  note pf = block_facts [OF inv pk] and ok = buddy_inv_uptoD(1) [OF inv]
  have "blk_ok (pool_order mp) (min_order mp) (p, k)"
    using buddy_inv_uptoD(2) [OF inv] by (auto simp: tiling_def)
  from buddy_blk_ok(1) [OF this k] have "?q + 2 ^ k \<le> 2 ^ pool_order mp" by (simp add: blk_ok_def)
  moreover have "(0::nat) < 2 ^ k" by simp
  ultimately have q: "?q < 2 ^ pool_order mp" by linarith
  have par: "(if blk_addr mp ?q < blk_addr mp p then blk_addr mp ?q else blk_addr mp p) =
      blk_addr mp (parent_off k p)"
    using blk_addr_less [OF ok q pf(4)] by (simp add: parent_off_def min_def not_le)
  show ?thesis
    using buddy_free_iff [OF inv k] k
    by (subst buddy_coalesce.simps)
      (simp add: find_buddy_addr [OF ok pf(4) k] is_available_addr [OF ok q] par Let_def)
qed

lemma free_bytes_minus:
  "b \<in> free_blocks mp \<Longrightarrow> free_blocks mp' = free_blocks mp - {b} \<Longrightarrow>
     free_bytes mp = free_bytes mp' \<union> rng b"
  by (auto simp: free_bytes_def)

lemma buddy_coalesce_correct:
  assumes "buddy_inv_upto mp (insert (p, k) A) {p}" "(p, k) \<notin> A" "k \<le> pool_order mp"
  shows "\<exists>mp' r l. buddy_coalesce mp (blk_addr mp p) k = Some (mp', blk_addr mp' r, l) \<and>
      same_pool mp mp' \<and> buddy_inv_upto mp' (insert (r, l) A) {r} \<and> (r, l) \<notin> A \<and>
      free_blocks mp' \<subseteq> free_blocks mp \<and>
      free_bytes mp' \<union> rng (r, l) = free_bytes mp \<union> rng (p, k) \<and>
      (l < pool_order mp \<longrightarrow> (buddy_off l r, l) \<notin> free_blocks mp')"
  using assms
proof (induction "pool_order mp - k" arbitrary: mp p k)
  case 0
  then have "buddy_coalesce mp (blk_addr mp p) k = Some (mp, blk_addr mp p, k)"
    by (subst buddy_coalesce.simps) simp
  with 0 show ?case by (intro exI [of _ mp] exI [of _ p] exI [of _ k]) auto
next
  case (Suc d)
  then have k: "k < pool_order mp" by simp
  note step = buddy_coalesce_step [OF Suc.prems(1) k]
  show ?case
  proof (cases "(buddy_off k p, k) \<in> free_blocks mp")
    case False
    with step Suc.prems show ?thesis by (intro exI [of _ mp] exI [of _ p] exI [of _ k]) auto
  next
    case True
    let ?q = "buddy_off k p" and ?r = "parent_off k p"
    define mp1 where "mp1 = (avail_del mp (blk_addr mp ?q))
        \<lparr>blk_order := (blk_order (avail_del mp (blk_addr mp ?q)))(blk_addr mp ?r := Suc k)\<rparr>"
    note mg = buddy_merge [OF Suc.prems(1,2) k True, folded mp1_def]
    have eq: "buddy_coalesce mp (blk_addr mp p) k = buddy_coalesce mp1 (blk_addr mp1 ?r) (Suc k)"
      using step True by (simp add: mp1_def Let_def)
    have P: "pool_order mp1 = pool_order mp" using same_poolD [OF mg(2)] by simp
    have "d = pool_order mp1 - Suc k" "Suc k \<le> pool_order mp1" using Suc.hyps(2) P k by auto
    from Suc.hyps(1) [OF this(1) mg(3,4) this(2)] obtain mp' r l where IH:
      "buddy_coalesce mp1 (blk_addr mp1 ?r) (Suc k) = Some (mp', blk_addr mp' r, l)"
      "same_pool mp1 mp'" "buddy_inv_upto mp' (insert (r, l) A) {r}" "(r, l) \<notin> A"
      "free_blocks mp' \<subseteq> free_blocks mp1"
      "free_bytes mp' \<union> rng (r, l) = free_bytes mp1 \<union> rng (?r, Suc k)"
      "l < pool_order mp1 \<longrightarrow> (buddy_off l r, l) \<notin> free_blocks mp'" by blast
    have "free_bytes mp = free_bytes mp1 \<union> rng (?q, k)" by (rule free_bytes_minus [OF True mg(1)])
    then have "free_bytes mp' \<union> rng (r, l) = free_bytes mp \<union> rng (p, k)"
      using IH(6) mg(6) by auto
    with IH eq mg(1) P same_pool_trans [OF mg(2) IH(2)] show ?thesis by auto
  qed
qed

text \<open>The tail of \<^verbatim>\<open>buddy_free\<close>: the block that is left is put on its free list.\<close>

lemma buddy_finish:
  assumes inv: "buddy_inv_upto mp (insert (r, l) A) {r}" and rA: "(r, l) \<notin> A"
  defines "mp1 \<equiv> set_tag (mp\<lparr>blk_order := (blk_order mp)(blk_addr mp r := l)\<rparr>) r True"
  defines "mp2 \<equiv> mp1\<lparr>avail := (avail mp1)(l := blk_addr mp r # avail mp1 l)\<rparr>"
  shows "mark_available (mp\<lparr>blk_order := (blk_order mp)(blk_addr mp r := l)\<rparr>) (blk_addr mp r)
      = Some mp1"
    and "free_blocks mp2 = insert (r, l) (free_blocks mp)" and "same_pool mp mp2"
    and "buddy_inv mp2 A"
proof -
  note ok = buddy_inv_uptoD(1) [OF inv]
  have rl: "(r, l) \<in> free_blocks mp \<union> insert (r, l) A" by simp
  note rf = block_facts [OF inv rl]
  show "mark_available (mp\<lparr>blk_order := (blk_order mp)(blk_addr mp r := l)\<rparr>) (blk_addr mp r)
      = Some mp1"
    using mark_available_addr [of "mp\<lparr>blk_order := (blk_order mp)(blk_addr mp r := l)\<rparr>" r] ok rf(4)
    by (simp add: mp1_def)
  show fb: "free_blocks mp2 = insert (r, l) (free_blocks mp)"
    using free_blocks_push [of mp1 r l] ok rf(4) by (simp add: mp2_def mp1_def)
  show sp: "same_pool mp mp2"
    unfolding mp2_def mp1_def
    by (rule same_pool_trans [OF same_pool_trans [OF same_pool_updates(3) set_tag_simps(9)]
          same_pool_updates(2)])
  note spD = same_poolD [OF sp]
  have tag2: "tag mp2 s = (s = r \<or> tag mp s)" if "s < 2 ^ pool_order mp" "2 ^ min_order mp dvd s" for s
    unfolding mp2_def mp1_def
    using tag_set_tag [of "mp\<lparr>blk_order := (blk_order mp)(blk_addr mp r := l)\<rparr>" r s True]
      that ok rf(4,6) by simp
  have blocks: "free_blocks mp2 \<union> A = free_blocks mp \<union> insert (r, l) A" using fb by blast
  show "buddy_inv mp2 A"
    unfolding buddy_inv_def
  proof (rule buddy_invI)
    show "pool_ok mp2" using ok spD by simp
    show "tiling (pool_order mp2) (min_order mp2) (free_blocks mp2 \<union> A)"
      unfolding blocks spD(4,5) by (rule buddy_inv_uptoD(2) [OF inv])
    show "free_blocks mp2 \<inter> A = {}" using fb rA buddy_inv_uptoD(3) [OF inv] by auto
    have "blk_addr mp r \<notin> set (avail mp l)"
      using in_avail_iff [OF ok rf(4)] buddy_inv_uptoD(3) [OF inv] by blast
    then show "distinct (avail mp2 k)" for k
      using buddy_inv_uptoD(4) [OF inv] by (simp add: mp2_def mp1_def)
  next
    fix s k assume sk: "(s, k) \<in> free_blocks mp2"
    then have sB: "(s, k) \<in> free_blocks mp \<union> insert (r, l) A" using blocks by blast
    note sf = block_facts [OF inv sB]
    show "tag mp2 s \<and> blk_order mp2 (blk_addr mp2 s) = k"
    proof (cases "s = r")
      case True
      with free_head_unique [OF inv sB, of l] have "k = l" by simp
      with True tag2 [OF rf(4,6)] show ?thesis by (simp add: mp2_def mp1_def)
    next
      case False
      with sk fb have sF: "(s, k) \<in> free_blocks mp" by auto
      have "blk_addr mp s \<noteq> blk_addr mp r" using False blk_addr_inj [OF ok sf(4) rf(4)] by simp
      then show ?thesis
        using tag2 [OF sf(4,6)] buddy_inv_uptoD(5,6) [OF inv sF] by (simp add: mp2_def mp1_def)
    qed
  next
    fix s assume st: "s < 2 ^ pool_order mp2" "2 ^ min_order mp2 dvd s" "tag mp2 s"
    then have s: "s < 2 ^ pool_order mp" "2 ^ min_order mp dvd s" by (simp_all add: spD)
    have "s = r \<or> tag mp s" using st(3) tag2 [OF s] by simp
    then consider "s = r" | "s \<in> {r} \<or> (\<exists>k. (s, k) \<in> free_blocks mp) \<or>
        (\<exists>b \<in> free_blocks mp \<union> insert (r, l) A. inside s b)"
      using buddy_inv_uptoD(7) [OF inv s(1,2)] by blast
    then show "s \<in> {} \<or> (\<exists>k. (s, k) \<in> free_blocks mp2) \<or> (\<exists>b \<in> free_blocks mp2 \<union> A. inside s b)"
      unfolding blocks by cases (use fb in auto)
  qed
qed

lemma buddy_inv_upto_mono: "buddy_inv_upto mp A X \<Longrightarrow> X \<subseteq> Y \<Longrightarrow> buddy_inv_upto mp A Y"
  using buddy_inv_uptoD [of mp A X] by (intro buddy_invI) blast+

lemma buddy_free_inserted:
  assumes inv: "buddy_inv mp (insert (p, k) A)" and pA: "(p, k) \<notin> A"
  shows "\<exists>mp' r l. buddy_free mp (blk_addr mp p) k = Some mp' \<and> same_pool mp mp' \<and>
      buddy_inv mp' A \<and> free_bytes mp' = free_bytes mp \<union> rng (p, k) \<and>
      free_blocks mp' \<subseteq> insert (r, l) (free_blocks mp) \<and> (r, l) \<in> free_blocks mp' \<and>
      (l < pool_order mp \<longrightarrow> (buddy_off l r, l) \<notin> free_blocks mp')"
proof -
  note i = inv [unfolded buddy_inv_def]
  have pk: "(p, k) \<in> free_blocks mp \<union> insert (p, k) A" by simp
  note pf = block_facts [OF i pk]
  have clear: "is_available mp (blk_addr mp p) = Some False"
    using is_available_addr [OF buddy_inv_uptoD(1) [OF i] pf(4)]
      allocated_tag_clear [OF inv insertI1] by simp
  from buddy_coalesce_correct [OF buddy_inv_upto_mono [OF i empty_subsetI] pA pf(2)]
  obtain mp1 r l where co: "buddy_coalesce mp (blk_addr mp p) k = Some (mp1, blk_addr mp1 r, l)"
    "same_pool mp mp1" "buddy_inv_upto mp1 (insert (r, l) A) {r}" "(r, l) \<notin> A"
    "free_blocks mp1 \<subseteq> free_blocks mp" "free_bytes mp1 \<union> rng (r, l) = free_bytes mp \<union> rng (p, k)"
    "l < pool_order mp \<longrightarrow> (buddy_off l r, l) \<notin> free_blocks mp1" by blast
  note fin = buddy_finish [OF co(3,4)]
  define mp2 where "mp2 = set_tag (mp1\<lparr>blk_order := (blk_order mp1)(blk_addr mp1 r := l)\<rparr>) r True"
  define mp3 where "mp3 = mp2\<lparr>avail := (avail mp2)(l := blk_addr mp1 r # avail mp2 l)\<rparr>"
  note fin = fin [folded mp2_def, folded mp3_def]
  have run: "buddy_free mp (blk_addr mp p) k = Some mp3"
    using pf(1,2) clear co(1) fin(1) by (simp add: buddy_free_def Let_def mp3_def)
  have bytes: "free_bytes mp3 = free_bytes mp \<union> rng (p, k)"
    using co(6) fin(2) by (auto simp: free_bytes_def)
  have rl: "(r, l) \<in> free_blocks mp1 \<union> insert (r, l) A" by simp
  have "(buddy_off l r, l) \<noteq> (r, l)" using buddy_off_neq [OF block_facts(3) [OF co(3) rl]] by simp
  with co(7) fin(2) have max: "l < pool_order mp \<longrightarrow> (buddy_off l r, l) \<notin> free_blocks mp3" by blast
  have "free_blocks mp3 \<subseteq> insert (r, l) (free_blocks mp)" "(r, l) \<in> free_blocks mp3"
    using fin(2) co(5) by auto
  with run bytes max fin(4) same_pool_trans [OF co(2) fin(3)] show ?thesis
    by (intro exI [of _ mp3] exI [of _ r] exI [of _ l] conjI)
qed

text \<open>C2: freeing a block that was handed out never trips a \<^verbatim>\<open>BUG_ON\<close>, restores the
  invariant without that block, keeps the pool geometry, and returns exactly its bytes to the free
  memory, whatever coalescing takes place.\<close>

theorem buddy_free_correct:
  assumes "buddy_inv mp A" "(p, k) \<in> A"
  shows "\<exists>mp'. buddy_free mp (blk_addr mp p) k = Some mp' \<and> same_pool mp mp' \<and>
      buddy_inv mp' (A - {(p, k)}) \<and> free_bytes mp' = free_bytes mp \<union> rng (p, k)"
proof -
  have "insert (p, k) (A - {(p, k)}) = A" using assms(2) by blast
  with buddy_free_inserted [of mp p k "A - {(p, k)}"] assms(1) show ?thesis by auto
qed

section \<open>Full coalescing\<close>

lemma coalesced_alloc:
  assumes inv: "buddy_inv mp A" and co: "pool_coalesced mp"
    and pn: "(p, n) \<in> free_blocks mp" and sp: "same_pool mp mp'"
    and inv': "buddy_inv mp' (insert (p, m) A)" and mn: "m \<le> n"
    and fb: "free_blocks mp' = free_blocks mp - {(p, n)} \<union> (\<lambda>i. (p + 2 ^ i, i)) ` {m ..< n}"
  shows "pool_coalesced mp'"
proof -
  note i = inv [unfolded buddy_inv_def]
  have pn': "(p, n) \<in> free_blocks mp \<union> A" using pn by simp
  have pd: "2 ^ Suc i dvd p" if "i < n" for i
    by (rule dvd_trans [OF le_imp_power_dvd block_facts(3) [OF i pn']]) (use that in simp)
  have pf: "(p, l) \<notin> free_blocks mp'" for l
  proof
    assume "(p, l) \<in> free_blocks mp'"
    then have "(p, l) = (p, m)"
      using tiling_meet [OF buddy_inv_uptoD(2) [OF inv' [unfolded buddy_inv_def]],
          of "(p, l)" "(p, m)" p] by simp
    with \<open>(p, l) \<in> free_blocks mp'\<close> buddy_inv_uptoD(3) [OF inv' [unfolded buddy_inv_def]]
    show False by blast
  qed
  have "(buddy_off k q, k) \<notin> free_blocks mp'"
    if qk: "(q, k) \<in> free_blocks mp'" and kP: "k < pool_order mp" for q k
  proof
    assume bk: "(buddy_off k q, k) \<in> free_blocks mp'"
    have piece: "False" if "(r, k) \<in> (\<lambda>i. (p + 2 ^ i, i)) ` {m ..< n}"
      "(buddy_off k r, k) \<in> free_blocks mp'" for r
    proof -
      from that(1) have r: "r = p + 2 ^ k" "k < n" by auto
      then have "buddy_off k p = r" using buddy_off_even [OF pd] by simp
      then have "buddy_off k r = p" by (metis buddy_off_invol)
      with that(2) pf show False by simp
    qed
    show False
    proof (cases "(q, k) \<in> free_blocks mp \<and> (buddy_off k q, k) \<in> free_blocks mp")
      case True
      with co kP show False by (auto simp: pool_coalesced_def coalesced_def)
    next
      case False
      with qk bk fb piece [of q] piece [of "buddy_off k q"] show False by auto
    qed
  qed
  then show ?thesis
    using same_poolD [OF sp] by (auto simp: pool_coalesced_def coalesced_def)
qed

lemma coalesced_free:
  assumes co: "pool_coalesced mp" and sp: "same_pool mp mp'"
    and sub: "free_blocks mp' \<subseteq> insert (r, l) (free_blocks mp)"
    and max: "l < pool_order mp \<longrightarrow> (buddy_off l r, l) \<notin> free_blocks mp'"
  shows "pool_coalesced mp'"
proof -
  have "(buddy_off k q, k) \<notin> free_blocks mp'"
    if qk: "(q, k) \<in> free_blocks mp'" and kP: "k < pool_order mp" for q k
  proof
    assume bk: "(buddy_off k q, k) \<in> free_blocks mp'"
    consider "(q, k) = (r, l)" | "(buddy_off k q, k) = (r, l)"
      | "(q, k) \<in> free_blocks mp" "(buddy_off k q, k) \<in> free_blocks mp"
      using sub qk bk by blast
    then show False
    proof cases
      case 2
      then have "(q, k) = (buddy_off l r, l)" by auto
      with qk max kP 2 show False by auto
    next
      case 3
      with co kP show False by (auto simp: pool_coalesced_def coalesced_def)
    qed (use bk max kP in auto)
  qed
  then show ?thesis
    using same_poolD [OF sp] by (auto simp: pool_coalesced_def coalesced_def)
qed

lemma pool_coalesced_unique:
  assumes "buddy_inv mp A" "buddy_inv mp' A'" "same_pool mp mp'"
    and "pool_coalesced mp" "pool_coalesced mp'" "free_bytes mp = free_bytes mp'"
  shows "free_blocks mp = free_blocks mp'"
proof (rule coalesced_unique)
  have t: "tiling (pool_order mp) (min_order mp) (free_blocks mp \<union> A)"
    "tiling (pool_order mp') (min_order mp') (free_blocks mp' \<union> A')"
    using assms(1,2) buddy_inv_uptoD(2) by (auto simp: buddy_inv_def)
  show "tiling (pool_order mp) (min_order mp) (free_blocks mp)"
    by (rule tiling_subset [OF t(1)]) simp
  show "tiling (pool_order mp) (min_order mp) (free_blocks mp')"
    using tiling_subset [OF t(2), of "free_blocks mp'"] same_poolD [OF assms(3)] by simp
  show "coalesced (pool_order mp) (free_blocks mp)" "coalesced (pool_order mp) (free_blocks mp')"
    using assms(4,5) same_poolD [OF assms(3)] by (simp_all add: pool_coalesced_def)
  show "\<Union> (rng ` free_blocks mp) = \<Union> (rng ` free_blocks mp')"
    using assms(6) by (simp add: free_bytes_def)
qed

text \<open>Freeing what was just allocated restores every free list up to the order of its
  elements.\<close>

text \<open>C4: in a fully coalesced pool, freeing the block just allocated restores every free list
  (as a set of blocks): splitting and coalescing are inverse.\<close>

theorem buddy_alloc_free_roundtrip:
  assumes inv: "buddy_inv mp A" and co: "pool_coalesced mp" and ord: "order \<le> pool_order mp"
    and al: "buddy_alloc mp order = Some (Some a, mp1)"
  shows "\<exists>mp2. buddy_free mp1 a (eff_order mp order) = Some mp2 \<and> buddy_inv mp2 A \<and>
      pool_coalesced mp2 \<and> (\<forall>k. set (avail mp2 k) = set (avail mp k))"
  using inv ord
proof (cases rule: buddy_alloc_cases)
  case fail
  with al show ?thesis by simp
next
  case (take p n mp')
  with al have a: "a = blk_addr mp1 p" "mp' = mp1" using same_poolD [OF take(2)] by auto
  note tk = take [unfolded a(2)]
  have c1: "pool_coalesced mp1" by (rule coalesced_alloc [OF inv co tk(7,2,5,4,8)])
  note bts = buddy_alloc_bytes [OF inv tk(5,7,4,8)]
  from buddy_free_inserted [OF tk(5,6)] obtain mp2 r l where fr:
    "buddy_free mp1 a (eff_order mp order) = Some mp2" "same_pool mp1 mp2" "buddy_inv mp2 A"
    "free_bytes mp2 = free_bytes mp1 \<union> rng (p, eff_order mp order)"
    "free_blocks mp2 \<subseteq> insert (r, l) (free_blocks mp1)"
    "l < pool_order mp1 \<longrightarrow> (buddy_off l r, l) \<notin> free_blocks mp2"
    unfolding a(1) by blast
  have c2: "pool_coalesced mp2" by (rule coalesced_free [OF c1 fr(2,5,6)])
  have sp: "same_pool mp mp2" by (rule same_pool_trans [OF tk(2) fr(2)])
  have "free_blocks mp = free_blocks mp2"
    by (rule pool_coalesced_unique [OF inv fr(3) sp co c2]) (simp add: bts fr(4))
  then have "set (avail mp2 k) = set (avail mp k)" for k
    by (simp add: set_avail_free same_poolD(1) [OF sp])
  with fr(1,3) c2 show ?thesis by blast
qed

section \<open>Initialisation\<close>

lemma min_order_floor: "nat (ilog2 (roundup_pow_of_two sizeof_block)) = 5"
  by code_simp

lemma pow2_div_u64: "b \<le> a \<Longrightarrow> a < 64 \<Longrightarrow> (2 ^ a :: u64) div 2 ^ b = 2 ^ (a - b)"
  by (simp add: word64_eq_iff_unat unat_div unat64_pow2 power_diff)

lemma buddy_init_inv:
  assumes "buddy_init base pool_ord min_ord = Some mp"
    and "pool_ord < 64" "unat base + 2 ^ pool_ord \<le> 2 ^ 64"
  shows "buddy_inv mp {}" "pool_coalesced mp" "free_blocks mp = {}"
    "pool_order mp = pool_ord" "base_addr mp = base"
    "min_order mp = (if push_bit min_ord 1 < sizeof_block then 5 else min_ord)"
proof -
  define m where "m = (if push_bit min_ord 1 < sizeof_block then 5 else min_ord)"
  have mp: "mp = \<lparr>base_addr = base, pool_order = pool_ord, min_order = m,
      num_blocks = push_bit pool_ord 1 div push_bit m 1,
      tag_bits = (\<lambda>_. False), avail = (\<lambda>_. []), blk_order = (\<lambda>_. 0)\<rparr>" and m: "m \<le> pool_ord"
    using assms(1) by (auto simp: buddy_init_def Let_def min_order_floor m_def split: if_splits)
  show "pool_order mp = pool_ord" "base_addr mp = base"
    "min_order mp = (if push_bit min_ord 1 < sizeof_block then 5 else min_ord)"
    by (simp_all add: mp m_def)
  show fb: "free_blocks mp = {}" by (simp add: free_blocks_def mp)
  have ok: "pool_ok mp"
    using assms(2,3) m pow2_div_u64 [OF m assms(2)] by (simp add: pool_ok_def mp push_bit_1_u64)
  show "buddy_inv mp {}"
    unfolding buddy_inv_def
    by (rule buddy_invI) (auto simp: fb ok tiling_def, simp_all add: mp tag_def)
  show "pool_coalesced mp" by (simp add: pool_coalesced_def coalesced_def fb)
qed

text \<open>The memory of handed-out blocks belongs to their owners: whatever they write there,
  the allocator does not notice.\<close>

lemma buddy_inv_client_write:
  assumes inv: "buddy_inv mp A"
    and same: "\<And>a. blk_off mp a \<notin> \<Union> (rng ` A) \<Longrightarrow> w a = blk_order mp a"
  shows "buddy_inv (mp\<lparr>blk_order := w\<rparr>) A"
  unfolding buddy_inv_def
proof (rule buddy_invI)
  note i = inv [unfolded buddy_inv_def]
  show "pool_ok (mp\<lparr>blk_order := w\<rparr>)" using buddy_inv_uptoD(1) [OF i] by simp
  show "tiling (pool_order (mp\<lparr>blk_order := w\<rparr>)) (min_order (mp\<lparr>blk_order := w\<rparr>))
      (free_blocks (mp\<lparr>blk_order := w\<rparr>) \<union> A)" using buddy_inv_uptoD(2) [OF i] by simp
  show "free_blocks (mp\<lparr>blk_order := w\<rparr>) \<inter> A = {}" using buddy_inv_uptoD(3) [OF i] by simp
  show "distinct (avail (mp\<lparr>blk_order := w\<rparr>) k)" for k using buddy_inv_uptoD(4) [OF i] by simp
  show "p \<in> {} \<or> (\<exists>k. (p, k) \<in> free_blocks (mp\<lparr>blk_order := w\<rparr>)) \<or>
      (\<exists>b \<in> free_blocks (mp\<lparr>blk_order := w\<rparr>) \<union> A. inside p b)"
    if "p < 2 ^ pool_order (mp\<lparr>blk_order := w\<rparr>)" "2 ^ min_order (mp\<lparr>blk_order := w\<rparr>) dvd p"
      "tag (mp\<lparr>blk_order := w\<rparr>) p" for p
    using buddy_inv_uptoD(7) [OF i] that by simp
  fix p k assume "(p, k) \<in> free_blocks (mp\<lparr>blk_order := w\<rparr>)"
  then have pk: "(p, k) \<in> free_blocks mp" by simp
  then have pB: "(p, k) \<in> free_blocks mp \<union> A" by simp
  have off: "blk_off mp (blk_addr mp p) = p"
    by (rule blk_off_addr [OF buddy_inv_uptoD(1) [OF i] block_facts(4) [OF i pB]])
  have "p \<notin> rng b" if b: "b \<in> A" for b
  proof
    assume "p \<in> rng b"
    then have "b = (p, k)"
      using tiling_meet [OF buddy_inv_uptoD(2) [OF i], of b "(p, k)" p] b pk by simp
    with b pk buddy_inv_uptoD(3) [OF i] show False by blast
  qed
  then have "w (blk_addr mp p) = blk_order mp (blk_addr mp p)" by (intro same) (auto simp: off)
  with buddy_inv_uptoD(5,6) [OF i pk]
  show "tag (mp\<lparr>blk_order := w\<rparr>) p \<and>
      blk_order (mp\<lparr>blk_order := w\<rparr>) (blk_addr (mp\<lparr>blk_order := w\<rparr>) p) = k" by simp
qed

section \<open>The allocator as an interface\<close>

text \<open>What the kernel heap relies on: \<open>held s A\<close> says that the allocator in state \<open>s\<close>
  has handed out exactly the blocks \<open>A\<close>, as offsets and orders.\<close>

locale block_allocator =
  fixes alloc :: "'s \<Rightarrow> nat \<Rightarrow> (u64 option \<times> 's) option"
    and free :: "'s \<Rightarrow> u64 \<Rightarrow> nat \<Rightarrow> 's option"
    and held :: "'s \<Rightarrow> block set \<Rightarrow> bool"
    and pos :: "'s \<Rightarrow> u64 \<Rightarrow> nat"
    and smallest :: "'s \<Rightarrow> nat"
    and largest :: "'s \<Rightarrow> nat"
  assumes alloc_held: "held s A \<Longrightarrow> smallest s \<le> k \<Longrightarrow> k \<le> largest s \<Longrightarrow>
      alloc s k = Some (None, s) \<or>
      (\<exists>a s'. alloc s k = Some (Some a, s') \<and> held s' (insert (pos s a, k) A) \<and>
         (pos s a, k) \<notin> A \<and> pos s' = pos s \<and> smallest s' = smallest s \<and> largest s' = largest s)"
    and free_held: "held s (insert (pos s a, k) A) \<Longrightarrow> (pos s a, k) \<notin> A \<Longrightarrow>
      \<exists>s'. free s a k = Some s' \<and> held s' A \<and>
         pos s' = pos s \<and> smallest s' = smallest s \<and> largest s' = largest s"
    and held_disjoint: "held s A \<Longrightarrow> b \<in> A \<Longrightarrow> c \<in> A \<Longrightarrow> b \<noteq> c \<Longrightarrow> rng b \<inter> rng c = {}"
    and held_bounds: "held s A \<Longrightarrow> b \<in> A \<Longrightarrow> blk_ok (largest s) (smallest s) b"
begin

lemma alloc_total:
  assumes "held s A" "smallest s \<le> k" "k \<le> largest s"
  obtains (none) "alloc s k = Some (None, s)"
    | (some) a s' where "alloc s k = Some (Some a, s')" "held s' (insert (pos s a, k) A)"
        "(pos s a, k) \<notin> A" "pos s' = pos s" "smallest s' = smallest s" "largest s' = largest s"
        "blk_ok (largest s) (smallest s) (pos s a, k)"
        "\<And>b. b \<in> A \<Longrightarrow> rng b \<inter> rng (pos s a, k) = {}"
proof -
  from alloc_held [OF assms] consider "alloc s k = Some (None, s)" | a s' where
    "alloc s k = Some (Some a, s')" "held s' (insert (pos s a, k) A)" "(pos s a, k) \<notin> A"
    "pos s' = pos s" "smallest s' = smallest s" "largest s' = largest s" by blast
  then show thesis
  proof cases
    case 2
    have dj: "rng b \<inter> rng (pos s a, k) = {}" if "b \<in> A" for b
      using held_disjoint [OF 2(2), of b "(pos s a, k)"] 2(3) that by blast
    have "blk_ok (largest s) (smallest s) (pos s a, k)"
      using held_bounds [OF 2(2), of "(pos s a, k)"] 2(5,6) by simp
    from some [OF 2 this dj] show thesis .
  qed (rule none)
qed

lemma alloc_then_free:
  assumes "held s A" "smallest s \<le> k" "k \<le> largest s" "alloc s k = Some (Some a, s')"
  shows "\<exists>s''. free s' a k = Some s'' \<and> held s'' A"
  using assms(1-3)
proof (cases rule: alloc_total)
  case none
  with assms(4) show ?thesis by simp
next
  case (some b t)
  with assms(4) free_held [of s' a k A] show ?thesis by auto
qed

end

interpretation buddy: block_allocator buddy_alloc buddy_free buddy_inv blk_off min_order pool_order
proof
  fix s A k assume inv: "buddy_inv s A" and k: "min_order s \<le> k" "k \<le> pool_order s"
  have e: "eff_order s k = k" using k by (simp add: eff_order_def)
  from inv k(2) show "buddy_alloc s k = Some (None, s) \<or>
      (\<exists>a s'. buddy_alloc s k = Some (Some a, s') \<and> buddy_inv s' (insert (blk_off s a, k) A) \<and>
         (blk_off s a, k) \<notin> A \<and> blk_off s' = blk_off s \<and> min_order s' = min_order s \<and>
         pool_order s' = pool_order s)"
  proof (cases rule: buddy_alloc_cases)
    case (take p n mp')
    have "blk_off s (blk_addr s p) = p"
      using blk_off_addr take(3) buddy_inv_uptoD(1) inv by (auto simp: buddy_inv_def)
    with take e same_poolD [OF take(2)] show ?thesis by simp
  qed simp
next
  fix s a k A assume "buddy_inv s (insert (blk_off s a, k) A)" "(blk_off s a, k) \<notin> A"
  from buddy_free_inserted [OF this] show "\<exists>s'. buddy_free s a k = Some s' \<and> buddy_inv s' A \<and>
      blk_off s' = blk_off s \<and> min_order s' = min_order s \<and> pool_order s' = pool_order s"
    using same_poolD by fastforce
next
  fix s A b c assume "buddy_inv s A" "b \<in> A" "c \<in> A" "b \<noteq> c"
  then show "rng b \<inter> rng c = {}"
    using buddy_inv_uptoD(2) [of s A "{}"] unfolding buddy_inv_def tiling_def by blast
next
  fix s A b assume "buddy_inv s A" "b \<in> A"
  then show "blk_ok (pool_order s) (min_order s) b"
    using buddy_inv_uptoD(2) [of s A "{}"] by (auto simp: buddy_inv_def tiling_def)
qed

section \<open>Completeness of allocation and reachable states\<close>

lemma buddy_alloc_none_full:
  assumes inv: "buddy_inv mp A" and co: "pool_coalesced mp" and ord: "order \<le> pool_order mp"
    and none: "\<And>k. eff_order mp order \<le> k \<Longrightarrow> k \<le> pool_order mp \<Longrightarrow> avail mp k = []"
    and q: "2 ^ eff_order mp order dvd q"
  shows "\<not> rng (q, eff_order mp order) \<subseteq> free_bytes mp"
proof
  let ?o = "eff_order mp order"
  note i = inv [unfolded buddy_inv_def]
  assume cov: "rng (q, ?o) \<subseteq> free_bytes mp"
  have small: "k < ?o" if "(p, k) \<in> free_blocks mp" for p k
  proof (rule ccontr)
    assume "\<not> k < ?o"
    moreover have "(p, k) \<in> free_blocks mp \<union> A" using that by simp
    from block_facts(2) [OF i this] have "k \<le> pool_order mp" .
    ultimately have "avail mp k = []" using none by simp
    with that show False by (simp add: free_blocks_def)
  qed
  have oP: "?o \<le> pool_order mp"
    using ord buddy_inv_uptoD(1) [OF i] by (simp add: eff_order_def pool_ok_def)
  show False
    by (rule coalesced_no_cover [OF tiling_subset [OF buddy_inv_uptoD(2) [OF i] Un_upper1]
          co [unfolded pool_coalesced_def] q oP cov [unfolded free_bytes_def] small])
qed

lemma buddy_alloc_coalesced:
  assumes "buddy_inv mp A" "pool_coalesced mp" "order \<le> pool_order mp"
    and "buddy_alloc mp order = Some (Some a, mp')"
  shows "buddy_inv mp' (insert (blk_off mp a, eff_order mp order) A)" "pool_coalesced mp'"
  using assms(1,3)
proof (atomize (full), cases rule: buddy_alloc_cases)
  case (take p n mp1)
  have "blk_off mp (blk_addr mp p) = p"
    by (rule blk_off_addr) (use take(3) buddy_inv_uptoD(1) assms(1) in \<open>auto simp: buddy_inv_def\<close>)
  with take assms(4) coalesced_alloc [OF assms(1,2) take(7,2,5,4,8)]
  show "buddy_inv mp' (insert (blk_off mp a, eff_order mp order) A) \<and> pool_coalesced mp'" by auto
qed (use assms(4) in simp)

lemma buddy_free_coalesced:
  assumes "buddy_inv mp A" "pool_coalesced mp" "(blk_off mp a, k) \<in> A"
  obtains mp' where "buddy_free mp a k = Some mp'" "buddy_inv mp' (A - {(blk_off mp a, k)})"
    "pool_coalesced mp'" "same_pool mp mp'" "free_bytes mp' = free_bytes mp \<union> rng (blk_off mp a, k)"
proof -
  have "buddy_inv mp (insert (blk_off mp a, k) (A - {(blk_off mp a, k)}))"
    using assms(1,3) by (simp add: insert_absorb)
  from buddy_free_inserted [OF this] obtain mp' r l where fr: "buddy_free mp a k = Some mp'"
    "same_pool mp mp'" "buddy_inv mp' (A - {(blk_off mp a, k)})"
    "free_bytes mp' = free_bytes mp \<union> rng (blk_off mp a, k)"
    "free_blocks mp' \<subseteq> insert (r, l) (free_blocks mp)"
    "l < pool_order mp \<longrightarrow> (buddy_off l r, l) \<notin> free_blocks mp'" by auto
  from that [OF fr(1,3) coalesced_free [OF assms(2) fr(2,5,6)] fr(2,4)] show thesis .
qed

text \<open>The states a pool can reach from \<^verbatim>\<open>buddy_init\<close>: memory enters the pool, blocks
  are allocated and freed, and the owners of blocks write to them.\<close>

inductive buddy_reach :: "buddy_mempool \<Rightarrow> block set \<Rightarrow> bool" where
  init: "buddy_init base pool_ord min_ord = Some mp \<Longrightarrow> pool_ord < 64 \<Longrightarrow>
    unat base + 2 ^ pool_ord \<le> 2 ^ 64 \<Longrightarrow> buddy_reach mp {}"
| enter: "buddy_reach mp A \<Longrightarrow> blk_ok (pool_order mp) (min_order mp) b \<Longrightarrow>
    (\<forall>a \<in> free_blocks mp \<union> A. rng a \<inter> rng b = {}) \<Longrightarrow> buddy_reach mp (insert b A)"
| alloc: "buddy_reach mp A \<Longrightarrow> buddy_alloc mp order = Some (Some a, mp') \<Longrightarrow>
    buddy_reach mp' (insert (blk_off mp a, eff_order mp order) A)"
| free: "buddy_reach mp A \<Longrightarrow> (blk_off mp a, k) \<in> A \<Longrightarrow> buddy_free mp a k = Some mp' \<Longrightarrow>
    buddy_reach mp' (A - {(blk_off mp a, k)})"
| client_write: "buddy_reach mp A \<Longrightarrow>
    (\<forall>a. blk_off mp a \<notin> \<Union> (rng ` A) \<longrightarrow> w a = blk_order mp a) \<Longrightarrow>
    buddy_reach (mp\<lparr>blk_order := w\<rparr>) A"

lemma buddy_reach_inv: "buddy_reach mp A \<Longrightarrow> buddy_inv mp A \<and> pool_coalesced mp"
proof (induction rule: buddy_reach.induct)
  case (init base pool_ord min_ord mp)
  then show ?case by (simp add: buddy_init_inv(1,2))
next
  case (enter mp A b)
  then show ?case using buddy_inv_adopt [of mp A b] by blast
next
  case (alloc mp A order a mp')
  from alloc(2) have "order \<le> pool_order mp" by (simp add: buddy_alloc_def split: if_splits)
  with alloc show ?case using buddy_alloc_coalesced by blast
next
  case (free mp A a k mp')
  from free.IH have "buddy_inv mp A" "pool_coalesced mp" by simp_all
  from buddy_free_coalesced [OF this free(2)] free(3) show ?case by auto
next
  case (client_write mp A w)
  then show ?case using buddy_inv_client_write [of mp A w] by (simp add: pool_coalesced_def)
qed

text \<open>C3: in every state a pool can reach, no legitimate call panics, and allocation is complete:
  it returns \<^verbatim>\<open>NULL\<close> exactly when no aligned block of the requested order is entirely
  free, because the free lists never hold two buddies at once.\<close>

theorem buddy_reach_alloc_complete:
  assumes "buddy_reach mp A" "order \<le> pool_order mp"
  shows "\<exists>res mp'. buddy_alloc mp order = Some (res, mp') \<and>
    (res = None \<longleftrightarrow> (\<forall>q. 2 ^ eff_order mp order dvd q \<longrightarrow>
       \<not> rng (q, eff_order mp order) \<subseteq> free_bytes mp))"
proof -
  have ic: "buddy_inv mp A" "pool_coalesced mp" using buddy_reach_inv [OF assms(1)] by simp_all
  from ic(1) assms(2) show ?thesis
  proof (cases rule: buddy_alloc_cases)
    case fail
    from fail(1) buddy_alloc_none_full [OF ic assms(2) fail(2)] show ?thesis by simp
  next
    case (take p n mp')
    have "(p, eff_order mp order) \<in> free_blocks mp' \<union> insert (p, eff_order mp order) A" by simp
    from block_facts(3) [OF take(5) [unfolded buddy_inv_def] this]
    have "2 ^ eff_order mp order dvd p" .
    moreover have "rng (p, eff_order mp order) \<subseteq> free_bytes mp"
      using buddy_alloc_bytes(1) [OF ic(1) take(5,7,4,8)] by simp
    ultimately show ?thesis using take(1) by auto
  qed
qed

section \<open>A small pool\<close>

text \<open>A kilobyte at address 64 KiB, handed to a fresh pool with 32-byte blocks.\<close>

definition small_pool :: buddy_mempool where
  "small_pool = the (buddy_free (the (buddy_init 65536 10 5)) 65536 10)"

lemma small_pool_init: "buddy_init 65536 10 5 = Some (the (buddy_init 65536 10 5))"
  by (simp add: buddy_init_def Let_def sizeof_block_def)

lemma small_pool_reach: "buddy_reach small_pool {}"
proof -
  let ?i = "the (buddy_init 65536 10 5)"
  note ini = buddy_init_inv [OF small_pool_init]
  have r0: "buddy_reach ?i {}" by (rule buddy_reach.init [OF small_pool_init]) simp_all
  have off: "blk_off ?i 65536 = 0" using ini(5) by (simp add: blk_off_def)
  have r1: "buddy_reach ?i {(blk_off ?i 65536, 10)}"
    by (rule buddy_reach.enter [OF r0])
      (use ini(3,4,6) in \<open>simp_all add: blk_ok_def off sizeof_block_def\<close>)
  then have "buddy_inv ?i {(blk_off ?i 65536, 10)}" "pool_coalesced ?i"
    using buddy_reach_inv by simp_all
  from buddy_free_coalesced [OF this] obtain mp' where "buddy_free ?i 65536 10 = Some mp'" by blast
  from buddy_reach.free [OF r1 _ this] this show ?thesis by (simp add: small_pool_def)
qed

lemma small_pool_inv: "buddy_inv small_pool {}" "pool_coalesced small_pool"
  using buddy_reach_inv [OF small_pool_reach] by simp_all

lemma small_pool_geometry: "base_addr small_pool = 65536" "pool_order small_pool = 10"
  "min_order small_pool = 5"
  by code_simp+

lemma small_pool_alloc: "map_option fst (buddy_alloc small_pool 5) = Some (Some 65536)"
  by code_simp

theorem buddy_alloc_correct_witness:
  "\<exists>mp'. buddy_alloc small_pool 5 = Some (Some 65536, mp') \<and> buddy_inv mp' {(0, 5)} \<and>
    free_bytes mp' \<inter> rng (0, 5) = {}"
  using buddy_alloc_correct [OF small_pool_inv(1), of 5] small_pool_alloc
  by (auto simp: small_pool_geometry eff_order_def blk_off_def Let_def)

theorem buddy_reach_alloc_complete_witness:
  "\<exists>q. 2 ^ 5 dvd q \<and> rng (q, 5) \<subseteq> free_bytes small_pool"
proof -
  have e: "eff_order small_pool 5 = 5" "(5::nat) \<le> pool_order small_pool"
    by (simp_all add: small_pool_geometry eff_order_def)
  from buddy_reach_alloc_complete [OF small_pool_reach e(2), unfolded e(1)] small_pool_alloc
  show ?thesis by (metis option.map_sel option.sel fst_conv option.simps(3))
qed

definition small_pool_taken :: buddy_mempool where
  "small_pool_taken = snd (the (buddy_alloc small_pool 5))"

lemma small_pool_taken: "buddy_alloc small_pool 5 = Some (Some 65536, small_pool_taken)"
  using small_pool_alloc by (auto simp: small_pool_taken_def)

lemma small_pool_taken_inv: "buddy_inv small_pool_taken {(0, 5)}"
  using buddy_alloc_coalesced(1) [OF small_pool_inv _ small_pool_taken]
  by (simp add: small_pool_geometry eff_order_def blk_off_def)

theorem buddy_free_correct_witness:
  "\<exists>mp'. buddy_free small_pool_taken (blk_addr small_pool_taken 0) 5 = Some mp' \<and> buddy_inv mp' {}"
  using buddy_free_correct [OF small_pool_taken_inv, of 0 5] by auto

theorem buddy_alloc_free_roundtrip_witness:
  "\<exists>mp2. buddy_free small_pool_taken 65536 5 = Some mp2 \<and> set (avail mp2 10) = {65536}"
proof -
  have "set (avail small_pool 10) = {65536}" by code_simp
  with buddy_alloc_free_roundtrip [OF small_pool_inv _ small_pool_taken] show ?thesis
    by (auto simp: small_pool_geometry eff_order_def)
qed

end
