(* ===== verification/Kitten_Kmem.thy ===== *)
theory Kitten_Kmem
  imports Kitten_Buddy
begin

text \<open>
  The kernel heap of \<^verbatim>\<open>kernel/mm/kmem.c\<close>: a buddy pool, two byte counters and the
  memory the blocks consist of. \<^verbatim>\<open>kmem_mem\<close> gives the 64-bit word at an address. The
  first two words of a block on a free list are its list links, which the pool record holds as
  lists; the words of \<^verbatim>\<open>kmem_mem\<close> at such a block are not read while it is there, and
  become the poison values of \<^verbatim>\<open>list_del\<close> when it is unlinked by coalescing. Orders in
  block headers and arguments are 64-bit words; \<^term>\<open>None\<close> is a panic.
\<close>

section \<open>State and operations\<close>

record kmem_state =
  kmem :: "buddy_mempool option"
  kmem_bytes_managed :: u64
  kmem_bytes_allocated :: u64
  kmem_mem :: "u64 \<Rightarrow> u64"

definition MIN_ORDER :: nat where "MIN_ORDER = 5"
definition KMEM_MAGIC :: u64 where "KMEM_MAGIC = 0xF0F0F0F0F0F0F0F0"
definition LIST_POISON1 :: u64 where "LIST_POISON1 = 0x00100100"
definition LIST_POISON2 :: u64 where "LIST_POISON2 = 0x00200200"
definition sizeof_kmem_block_hdr :: u64 where "sizeof_kmem_block_hdr = 16"
definition PAGE_ORDER :: nat where "PAGE_ORDER = 12"
definition PAGE_OFFSET :: u64 where "PAGE_OFFSET = 0xffff810000000000"

text \<open>\<^verbatim>\<open>ilog2\<close> yields an \<^verbatim>\<open>int\<close>, stored in an \<^verbatim>\<open>unsigned long\<close>.\<close>

definition ilog2_ul :: "u64 \<Rightarrow> nat" where
  "ilog2_ul n = unat (word_of_int (ilog2 n) :: u64)"

text \<open>A pointer is \<^verbatim>\<open>NULL\<close> when the allocator found nothing.\<close>

definition ptr_of :: "u64 option \<Rightarrow> u64" where
  "ptr_of r = (case r of None \<Rightarrow> 0 | Some a \<Rightarrow> a)"

text \<open>Is there a free block at this address? If so its head holds list links.\<close>

definition free_head :: "buddy_mempool \<Rightarrow> u64 \<Rightarrow> bool" where
  "free_head mp a = list_ex (\<lambda>k. a \<in> set (avail mp k)) [0 ..< Suc (pool_order mp)]"

definition unlink_words :: "buddy_mempool \<Rightarrow> buddy_mempool \<Rightarrow> (u64 \<Rightarrow> u64) \<Rightarrow> u64 \<Rightarrow> u64" where
  "unlink_words mp mp' m = (\<lambda>a.
     if free_head mp a \<and> \<not> free_head mp' a then LIST_POISON1
     else if free_head mp (a - 8) \<and> \<not> free_head mp' (a - 8) then LIST_POISON2
     else m a)"

definition memset_zero :: "(u64 \<Rightarrow> u64) \<Rightarrow> u64 \<Rightarrow> u64 \<Rightarrow> u64 \<Rightarrow> u64" where
  "memset_zero m start len = (\<lambda>a. if a - start < len then 0 else m a)"

definition kmem_create_zone :: "kmem_state \<Rightarrow> u64 \<Rightarrow> u64 \<Rightarrow> kmem_state option" where
  "kmem_create_zone s base_address sz =
     (let pool_ord = ilog2_ul (roundup_pow_of_two sz)
      in case kmem s of
           Some _ \<Rightarrow> None
         | None \<Rightarrow> do {
             mp \<leftarrow> buddy_init base_address pool_ord MIN_ORDER;
             Some (s\<lparr>kmem := Some mp\<rparr>)
           })"

definition kmem_add_memory :: "kmem_state \<Rightarrow> u64 \<Rightarrow> u64 \<Rightarrow> kmem_state option" where
  "kmem_add_memory s base_address sz = do {
     mp \<leftarrow> kmem s;
     mp' \<leftarrow> buddy_free mp base_address (ilog2_ul sz);
     Some (s\<lparr>kmem := Some mp',
             kmem_bytes_managed := kmem_bytes_managed s + sz,
             kmem_mem := unlink_words mp mp' (kmem_mem s)\<rparr>)
   }"

definition kmem_order :: "u64 \<Rightarrow> nat" where
  "kmem_order sz =
     (let sz = sz + sizeof_kmem_block_hdr;
          order = ilog2_ul (roundup_pow_of_two sz)
      in if order < MIN_ORDER then MIN_ORDER else order)"

definition kmem_alloc :: "kmem_state \<Rightarrow> u64 \<Rightarrow> (u64 \<times> kmem_state) option" where
  "kmem_alloc s sz =
     (let order = kmem_order sz
      in do {
        mp \<leftarrow> kmem s;
        (r, mp') \<leftarrow> buddy_alloc mp order;
        let hdr = ptr_of r;
        if hdr = 0 then Some (0, s\<lparr>kmem := Some mp'\<rparr>)
        else Some (hdr + sizeof_kmem_block_hdr,
          s\<lparr>kmem := Some mp',
            kmem_bytes_allocated := kmem_bytes_allocated s + push_bit order 1,
            kmem_mem := (memset_zero (kmem_mem s) hdr (push_bit order 1))
                          (hdr := of_nat order, hdr + 8 := KMEM_MAGIC)\<rparr>)
      })"

text \<open>The header of a block that sits on a free list holds list links: the word where the magic
  value is expected is a list pointer, an address of the kernel, and the check fails.\<close>

definition kmem_free :: "kmem_state \<Rightarrow> u64 \<Rightarrow> kmem_state option" where
  "kmem_free s addr =
     (if addr = 0 then Some s
      else if addr < sizeof_kmem_block_hdr then None
      else let hdr = addr - sizeof_kmem_block_hdr in do {
        mp \<leftarrow> kmem s;
        if free_head mp hdr \<or> kmem_mem s (hdr + 8) \<noteq> KMEM_MAGIC then None
        else do {
          let order = unat (kmem_mem s hdr);
          mp' \<leftarrow> buddy_free mp hdr order;
          Some (s\<lparr>kmem := Some mp',
            kmem_bytes_allocated := kmem_bytes_allocated s - push_bit order 1,
            kmem_mem := unlink_words mp mp' (kmem_mem s)\<rparr>)
        }
      })"

definition kmem_get_pages :: "kmem_state \<Rightarrow> u64 \<Rightarrow> (u64 \<times> kmem_state) option" where
  "kmem_get_pages s order =
     (let block_order = unat (order + of_nat PAGE_ORDER)
      in do {
        mp \<leftarrow> kmem s;
        (r, mp') \<leftarrow> buddy_alloc mp block_order;
        let addr = ptr_of r;
        if addr = 0 then Some (0, s\<lparr>kmem := Some mp'\<rparr>)
        else Some (addr,
          s\<lparr>kmem := Some mp',
            kmem_bytes_allocated := kmem_bytes_allocated s + push_bit block_order 1,
            kmem_mem := memset_zero (kmem_mem s) addr (push_bit block_order 1)\<rparr>)
      })"

text \<open>The counter goes down by \<^verbatim>\<open>1UL << order\<close>, with the order in pages.\<close>

definition kmem_free_pages :: "kmem_state \<Rightarrow> u64 \<Rightarrow> u64 \<Rightarrow> kmem_state option" where
  "kmem_free_pages s addr order = do {
     mp \<leftarrow> kmem s;
     mp' \<leftarrow> buddy_free mp addr (unat (order + of_nat PAGE_ORDER));
     Some (s\<lparr>kmem := Some mp',
       kmem_bytes_allocated := kmem_bytes_allocated s - push_bit (unat order) 1,
       kmem_mem := unlink_words mp mp' (kmem_mem s)\<rparr>)
   }"

text \<open>\<^verbatim>\<open>1 << pool_order\<close> is an \<^verbatim>\<open>int\<close>, sign-extended for the comparison.\<close>

definition paddr_is_kmem :: "kmem_state \<Rightarrow> paddr \<Rightarrow> bool option" where
  "paddr_is_kmem s paddr = do {
     mp \<leftarrow> kmem s;
     Some (base_addr mp \<le> paddr + PAGE_OFFSET \<and>
       paddr + PAGE_OFFSET - base_addr mp < (signed_take_bit 31 (push_bit (pool_order mp) 1)))
   }"

section \<open>Sizes and orders\<close>

lemma ilog2_ul_pow2: "k < 64 \<Longrightarrow> ilog2_ul (2 ^ k) = k"
  by (simp add: ilog2_ul_def ilog2_pow2 unat64_of_nat)

lemma kmem_order_eq:
  assumes "unat sz + 16 \<le> 2 ^ 63"
  shows "kmem_order sz = max 5 (fls_nat (unat sz + 15))"
proof -
  have n: "unat (sz + sizeof_kmem_block_hdr) = unat sz + 16"
    using assms by (simp add: sizeof_kmem_block_hdr_def unat64_add)
  have "fls_nat (unat sz + 15) \<le> 63"
    using assms unfolding fls_nat_le_iff by simp
  then have lt: "fls_nat (unat sz + 15) < 64" by simp
  have "unat (roundup_pow_of_two (sz + sizeof_kmem_block_hdr)) = 2 ^ fls_nat (unat sz + 15)"
    using unat_roundup_pow_of_two(1) [of "sz + sizeof_kmem_block_hdr"] assms by (simp add: n) (simp add: add.commute)
  then have "roundup_pow_of_two (sz + sizeof_kmem_block_hdr) = 2 ^ fls_nat (unat sz + 15)"
    using lt by (simp add: word64_eq_iff_unat unat64_pow2)
  with lt show ?thesis by (simp add: kmem_order_def Let_def ilog2_ul_pow2 MIN_ORDER_def)
qed

lemma kmem_order_fits:
  assumes "unat sz + 16 \<le> 2 ^ P" "5 \<le> P" "P < 64"
  shows "5 \<le> kmem_order sz" "kmem_order sz \<le> P" "unat sz + 16 \<le> 2 ^ kmem_order sz"
proof -
  have "(2::nat) ^ P \<le> 2 ^ 63" using assms(3) by (intro power_increasing) auto
  with assms(1) have "unat sz + 16 \<le> 2 ^ 63" by linarith
  note o = kmem_order_eq [OF this]
  show "5 \<le> kmem_order sz" by (simp add: o)
  have "fls_nat (unat sz + 15) \<le> P" using assms(1) by (simp add: fls_nat_le_iff)
  with assms(2) show "kmem_order sz \<le> P" by (simp add: o)
  have "unat sz + 15 < 2 ^ fls_nat (unat sz + 15)" by (rule fls_nat_upper)
  also have "(2::nat) ^ fls_nat (unat sz + 15) \<le> 2 ^ kmem_order sz"
    unfolding o by (intro power_increasing) auto
  finally show "unat sz + 16 \<le> 2 ^ kmem_order sz" by simp
qed

section \<open>Heap memory by pool offset\<close>

lemma unat_blk_diff:
  assumes "pool_ok mp" "p < 2 ^ pool_order mp" "x < 2 ^ pool_order mp"
  shows "unat (blk_addr mp x - blk_addr mp p) = (if p \<le> x then x - p else x + 2 ^ 64 - p)"
  using assms by (simp add: unat_sub_if_size unat_blk_addr size_word_def)

lemma blk_ok_less: "blk_ok P m (p, k) \<Longrightarrow> x \<in> rng (p, k) \<Longrightarrow> x < 2 ^ P"
  by (simp add: blk_ok_def rng_def)

lemma memset_zero_blk:
  assumes "pool_ok mp" "blk_ok (pool_order mp) m (p, k)" "x < 2 ^ pool_order mp"
  shows "memset_zero w (blk_addr mp p) (2 ^ k) (blk_addr mp x) =
    (if x \<in> rng (p, k) then 0 else w (blk_addr mp x))"
proof -
  have k: "k < 64" and pk: "p + 2 ^ k \<le> 2 ^ pool_order mp"
    using assms(1,2) by (auto simp: pool_ok_def blk_ok_def)
  have p: "p < 2 ^ pool_order mp" by (rule blk_ok_less [OF assms(2)]) simp
  have P: "(2::nat) ^ pool_order mp \<le> 2 ^ 64" using assms(1) by (simp add: pool_ok_def)
  show ?thesis
  proof (cases "p \<le> x")
    case True
    with k show ?thesis
      by (simp add: memset_zero_def word64_less_unat unat_blk_diff [OF assms(1) p assms(3)]
          unat64_pow2 rng_def less_diff_conv2 add.commute)
  next
    case False
    then have "\<not> x + 2 ^ 64 - p < 2 ^ k" using pk P by linarith
    with False k show ?thesis
      by (simp add: memset_zero_def word64_less_unat unat_blk_diff [OF assms(1) p assms(3)]
          unat64_pow2 rng_def)
  qed
qed

lemma free_headD: "free_head mp a \<Longrightarrow> \<exists>k. (blk_off mp a, k) \<in> free_blocks mp"
  unfolding free_head_def list_ex_iff using avail_addr by blast

lemma held_not_free_head:
  assumes "buddy_inv mp A" "b \<in> A" "x \<in> rng b"
  shows "\<not> free_head mp (blk_addr mp x)"
proof
  note i = assms(1) [unfolded buddy_inv_def]
  have "b \<in> free_blocks mp \<union> A" using assms(2) by simp
  then have x: "x < 2 ^ pool_order mp"
    using tilingD [OF buddy_inv_uptoD(2) [OF i], of "fst b" "snd b"] assms(3) by (auto simp: rng_def)
  assume "free_head mp (blk_addr mp x)"
  then obtain k where "(x, k) \<in> free_blocks mp"
    using free_headD blk_off_addr [OF buddy_inv_uptoD(1) [OF i] x] by fastforce
  then have "b = (x, k)"
    using tiling_meet [OF buddy_inv_uptoD(2) [OF i], of b "(x, k)" x] assms(2,3) by simp
  with \<open>(x, k) \<in> free_blocks mp\<close> assms(2) buddy_inv_uptoD(3) [OF i] show False by blast
qed

lemma held_not_free_head8:
  assumes "buddy_inv mp A" "b \<in> A" "x \<in> rng b" "5 \<le> min_order mp"
  shows "\<not> free_head mp (blk_addr mp x - 8)"
proof
  note i = assms(1) [unfolded buddy_inv_def]
  let ?q = "blk_off mp (blk_addr mp x - 8)"
  have bB: "b \<in> free_blocks mp \<union> A" using assms(2) by simp
  then have x: "x < 2 ^ pool_order mp"
    using tilingD [OF buddy_inv_uptoD(2) [OF i], of "fst b" "snd b"] assms(3) by (auto simp: rng_def)
  assume "free_head mp (blk_addr mp x - 8)"
  then obtain k where q: "(?q, k) \<in> free_blocks mp" using free_headD by blast
  then have qB: "(?q, k) \<in> free_blocks mp \<union> A" by simp
  note f = block_facts [OF i qB]
  have "(2::nat) ^ 5 \<le> 2 ^ k" using f(1) assms(4) by (intro power_increasing) auto
  then have k: "8 < (2::nat) ^ k" by simp
  then have q8: "?q + 8 < 2 ^ pool_order mp" using f(5) by linarith
  have "blk_addr mp (?q + 8) = blk_addr mp x"
    by (simp add: blk_addr_def blk_off_def)
  then have "?q + 8 = x" using blk_addr_inj [OF buddy_inv_uptoD(1) [OF i] q8 x] by simp
  then have "x \<in> rng (?q, k)" using k by (auto simp: rng_def)
  then have "b = (?q, k)"
    using tiling_meet [OF buddy_inv_uptoD(2) [OF i] bB qB assms(3)] by simp
  with q assms(2) buddy_inv_uptoD(3) [OF i] show False by auto
qed

lemma unlink_words_held:
  assumes "buddy_inv mp A" "b \<in> A" "x \<in> rng b" "5 \<le> min_order mp"
  shows "unlink_words mp mp' w (blk_addr mp x) = w (blk_addr mp x)"
  using held_not_free_head [OF assms(1-3)] held_not_free_head8 [OF assms]
  by (simp add: unlink_words_def)

section \<open>The invariant of the heap\<close>

text \<open>\<open>K\<close> is the set of blocks handed out by \<^verbatim>\<open>kmem_alloc\<close>, each with its header
  in place; \<open>P\<close> that of the blocks handed out by \<^verbatim>\<open>kmem_get_pages\<close>.\<close>

definition kmem_pool :: "kmem_state \<Rightarrow> buddy_mempool" where
  "kmem_pool s = the (kmem s)"

definition kword :: "kmem_state \<Rightarrow> nat \<Rightarrow> u64" where
  "kword s x = kmem_mem s (blk_addr (kmem_pool s) x)"

definition kmem_inv :: "kmem_state \<Rightarrow> block set \<Rightarrow> block set \<Rightarrow> bool" where
  "kmem_inv s K P \<longleftrightarrow> kmem s = Some (kmem_pool s) \<and> buddy_inv (kmem_pool s) (K \<union> P) \<and> K \<inter> P = {} \<and>
     base_addr (kmem_pool s) \<noteq> 0 \<and> min_order (kmem_pool s) = 5 \<and>
     (\<forall>(p, k) \<in> K. kword s p = of_nat k \<and> kword s (p + 8) = KMEM_MAGIC)"

lemma blk_off_eq_base:
  assumes "blk_off mp' = blk_off mp" shows "base_addr mp' = base_addr mp"
proof -
  have "blk_off mp' (base_addr mp) = blk_off mp (base_addr mp)" by (simp add: assms)
  then show ?thesis by (simp add: blk_off_def unat_eq_zero)
qed

lemma base_addr_eqI: "blk_addr mp' = blk_addr mp \<Longrightarrow> base_addr mp' = base_addr mp"
  by (drule fun_cong [of _ _ 0]) (simp add: blk_addr_def)

lemma blk_addr_eqI: "blk_off mp' = blk_off mp \<Longrightarrow> blk_addr mp' = blk_addr mp"
  using blk_off_eq_base [of mp' mp] by (simp add: blk_addr_def fun_eq_iff)

lemma kmem_invD:
  assumes "kmem_inv s K P"
  shows "kmem s = Some (kmem_pool s)" "buddy_inv (kmem_pool s) (K \<union> P)" "K \<inter> P = {}"
    "base_addr (kmem_pool s) \<noteq> 0" "min_order (kmem_pool s) = 5" "pool_ok (kmem_pool s)"
    "(p, k) \<in> K \<Longrightarrow> kword s p = of_nat k" "(p, k) \<in> K \<Longrightarrow> kword s (p + 8) = KMEM_MAGIC"
  using assms buddy_inv_uptoD(1) by (auto simp: kmem_inv_def buddy_inv_def)


lemma kmem_take:
  assumes inv: "kmem_inv s K P" and k: "5 \<le> k" "k \<le> pool_order (kmem_pool s)"
  obtains (none) "buddy_alloc (kmem_pool s) k = Some (None, kmem_pool s)"
    | (some) p mp' where "buddy_alloc (kmem_pool s) k = Some (Some (blk_addr (kmem_pool s) p), mp')"
        "blk_addr (kmem_pool s) p \<noteq> 0" "buddy_inv mp' (insert (p, k) (K \<union> P))" "(p, k) \<notin> K \<union> P"
        "blk_addr mp' = blk_addr (kmem_pool s)" "base_addr mp' \<noteq> 0" "min_order mp' = 5"
        "pool_order mp' = pool_order (kmem_pool s)"
        "blk_ok (pool_order (kmem_pool s)) 5 (p, k)"
        "\<And>b. b \<in> K \<union> P \<Longrightarrow> rng b \<inter> rng (p, k) = {}"
proof -
  note I = kmem_invD [OF inv]
  have m: "min_order (kmem_pool s) \<le> k" using I(5) k by simp
  show thesis
  proof (cases rule: buddy.alloc_total [OF I(2) m k(2)])
    case 1
    then show thesis by (rule none)
  next
    case (2 a mp')
    have "blk_addr (kmem_pool s) (blk_off (kmem_pool s) a) = a" by simp
    moreover have "a \<noteq> 0"
    proof
      assume a: "a = 0"
      have "blk_off (kmem_pool s) a < 2 ^ pool_order (kmem_pool s)"
        by (rule blk_ok_less [OF 2(7)]) simp
      from unat_blk_addr [OF I(6) this] I(4) show False by (simp add: a unat_eq_zero)
    qed
    ultimately show thesis
      using 2 I(4,5) blk_addr_eqI [OF 2(4)] blk_off_eq_base [OF 2(4)]
      by (intro some [of "blk_off (kmem_pool s) a" mp']) simp_all
  qed
qed

text \<open>The heap words after \<^verbatim>\<open>kmem_alloc\<close> has set up a block.\<close>

lemma alloc_words:
  assumes "pool_ok mp" "blk_ok (pool_order mp) 5 (p, k)" "x < 2 ^ pool_order mp"
  shows "((memset_zero w (blk_addr mp p) (2 ^ k)) (blk_addr mp p := v, blk_addr mp p + 8 := v'))
      (blk_addr mp x) =
    (if x = p + 8 then v' else if x = p then v else if x \<in> rng (p, k) then 0 else w (blk_addr mp x))"
proof -
  have "5 \<le> k" using assms(2) by (simp add: blk_ok_def)
  then have "(2::nat) ^ 5 \<le> 2 ^ k" by (intro power_increasing) auto
  then have "p + 8 \<in> rng (p, k)" "p \<in> rng (p, k)" by (auto simp: rng_def)
  then have b: "p + 8 < 2 ^ pool_order mp" "p < 2 ^ pool_order mp"
    using blk_ok_less [OF assms(2)] by blast+
  have "blk_addr mp p + 8 = blk_addr mp (p + 8)" by (simp add: blk_addr_def)
  then show ?thesis
    using blk_addr_inj [OF assms(1) assms(3) b(1)] blk_addr_inj [OF assms(1) assms(3) b(2)]
      memset_zero_blk [OF assms] by simp
qed

lemma header_in_rng: "5 \<le> k \<Longrightarrow> p \<in> rng (p, k) \<and> p + 8 \<in> rng (p, k)"
proof -
  assume "5 \<le> k"
  then have "(2::nat) ^ 5 \<le> 2 ^ k" by (intro power_increasing) auto
  then show ?thesis by (simp add: rng_def)
qed

lemma held_in_pool:
  assumes "kmem_inv s K P" "b \<in> K \<union> P" "x \<in> rng b"
  shows "x < 2 ^ pool_order (kmem_pool s)"
  using buddy.held_bounds [OF kmem_invD(2) [OF assms(1)] assms(2)] assms(3)
  by (cases b) (auto dest: blk_ok_less)

lemma held_header:
  assumes "kmem_inv s K P" "(p, k) \<in> K \<union> P"
  shows "p \<in> rng (p, k)" "p + 8 \<in> rng (p, k)" "5 \<le> k"
proof -
  show "5 \<le> k" using buddy.held_bounds [OF kmem_invD(2) [OF assms(1)] assms(2)] kmem_invD(5) [OF assms(1)]
    by (simp add: blk_ok_def)
  then show "p \<in> rng (p, k)" "p + 8 \<in> rng (p, k)" using header_in_rng by blast+
qed

text \<open>Any step that keeps the words of the held blocks and gives a consistent pool keeps the heap
  invariant.\<close>

lemma kmem_inv_step:
  assumes inv: "kmem_inv s K P" and K': "K' \<subseteq> insert b K" "K' \<inter> P' = {}"
    and pool: "kmem s' = Some mp'" "buddy_inv mp' (K' \<union> P')" "base_addr mp' \<noteq> 0" "min_order mp' = 5"
    and words: "\<And>c x. c \<in> K \<Longrightarrow> c \<in> K' \<Longrightarrow> x \<in> rng c \<Longrightarrow> kword s' x = kword s x"
    and new: "b \<in> K' \<Longrightarrow> b \<notin> K \<Longrightarrow> kword s' (fst b) = of_nat (snd b) \<and> kword s' (fst b + 8) = KMEM_MAGIC"
  shows "kmem_inv s' K' P'"
proof -
  have p: "kmem_pool s' = mp'" using pool(1) by (simp add: kmem_pool_def)
  have "kword s' q = of_nat l \<and> kword s' (q + 8) = KMEM_MAGIC" if ql: "(q, l) \<in> K'" for q l
  proof (cases "(q, l) \<in> K")
    case True
    then have "(q, l) \<in> K \<union> P" by simp
    note h = held_header [OF inv this]
    show ?thesis using words [OF True ql h(1)] words [OF True ql h(2)] kmem_invD(7,8) [OF inv True] by simp
  next
    case False
    then have "(q, l) = b" using ql K'(1) by blast
    then show ?thesis using new False ql by auto
  qed
  then show ?thesis using pool K'(2) p by (auto simp: kmem_inv_def)
qed

lemma kmem_alloc_cases:
  assumes inv: "kmem_inv s K P" and sz: "unat sz + 16 \<le> 2 ^ pool_order (kmem_pool s)"
  obtains (fail) "kmem_alloc s sz = Some (0, s)"
    | (block) p s' where "kmem_alloc s sz = Some (blk_addr (kmem_pool s) p + 16, s')"
      "unat sz + 16 \<le> 2 ^ kmem_order sz" "(p, kmem_order sz) \<notin> K \<union> P"
      "kmem_inv s' (insert (p, kmem_order sz) K) P"
      "\<And>b. b \<in> K \<union> P \<Longrightarrow> rng b \<inter> rng (p, kmem_order sz) = {}"
      "\<And>b x. b \<in> K \<union> P \<Longrightarrow> x \<in> rng b \<Longrightarrow> kword s' x = kword s x"
      "\<And>x. x \<in> rng (p, kmem_order sz) \<Longrightarrow> x \<noteq> p \<Longrightarrow> x \<noteq> p + 8 \<Longrightarrow> kword s' x = 0"
      "kmem_bytes_allocated s' = kmem_bytes_allocated s + 2 ^ kmem_order sz"
      "pool_order (kmem_pool s') = pool_order (kmem_pool s)"
      "blk_addr (kmem_pool s') = blk_addr (kmem_pool s)"
proof -
  note I = kmem_invD [OF inv]
  let ?k = "kmem_order sz" and ?mp = "kmem_pool s"
  have "5 \<le> pool_order ?mp" "pool_order ?mp < 64" using I(5,6) by (auto simp: pool_ok_def)
  note o = kmem_order_fits [OF sz this]
  from inv o(1,2) show thesis
  proof (cases rule: kmem_take)
    case none
    then have "kmem_alloc s sz = Some (0, s)"
      using I(1) by (simp add: kmem_alloc_def Let_def ptr_of_def)
    then show thesis by (rule fail)
  next
    case (some p mp')
    define s' where "s' = s\<lparr>kmem := Some mp',
      kmem_bytes_allocated := kmem_bytes_allocated s + 2 ^ ?k,
      kmem_mem := (memset_zero (kmem_mem s) (blk_addr ?mp p) (2 ^ ?k))
        (blk_addr ?mp p := of_nat ?k, blk_addr ?mp p + 8 := KMEM_MAGIC)\<rparr>"
    have run: "kmem_alloc s sz = Some (blk_addr ?mp p + 16, s')"
      using some(1,2) I(1) by (simp add: kmem_alloc_def Let_def ptr_of_def s'_def
          sizeof_kmem_block_hdr_def push_bit_1_u64)
    have pool': "kmem_pool s' = mp'" by (simp add: kmem_pool_def s'_def)
    have w: "kword s' x = (if x = p + 8 then KMEM_MAGIC else if x = p then of_nat ?k
        else if x \<in> rng (p, ?k) then 0 else kword s x)" if "x < 2 ^ pool_order ?mp" for x
    proof -
      have "kword s' x = ((memset_zero (kmem_mem s) (blk_addr ?mp p) (2 ^ ?k))
          (blk_addr ?mp p := of_nat ?k, blk_addr ?mp p + 8 := KMEM_MAGIC)) (blk_addr ?mp x)"
        unfolding kword_def pool' some(5) by (simp add: s'_def)
      then show ?thesis
        by (simp only: alloc_words [OF I(6) some(9) that] kword_def)
    qed
    have pP: "p < 2 ^ pool_order ?mp" "p + 8 < 2 ^ pool_order ?mp"
      using blk_ok_less [OF some(9)] header_in_rng [OF o(1)] by blast+
    have keep: "kword s' x = kword s x" if "b \<in> K \<union> P" "x \<in> rng b" for b x
      using w [OF held_in_pool [OF inv that]] some(10) [OF that(1)] that(2) header_in_rng [OF o(1), of p]
      by auto
    have inv': "kmem_inv s' (insert (p, ?k) K) P"
    proof (rule kmem_inv_step [OF inv, where mp' = mp' and b = "(p, ?k)"])
      show "kmem s' = Some mp'" by (simp add: s'_def)
      show "buddy_inv mp' (insert (p, ?k) K \<union> P)" using some(3) by simp
      show "insert (p, ?k) K \<inter> P = {}" using some(4) I(3) by simp
      show "kword s' x = kword s x" if "c \<in> K" "x \<in> rng c" for c x
        by (rule keep [of c]) (use that in simp_all)
    qed (use some(6,7) pP w in simp_all)
    have zero: "kword s' x = 0" if "x \<in> rng (p, ?k)" "x \<noteq> p" "x \<noteq> p + 8" for x
      using w [OF blk_ok_less [OF some(9) that(1)]] that by simp
    have "kmem_bytes_allocated s' = kmem_bytes_allocated s + 2 ^ ?k" "pool_order (kmem_pool s') = pool_order ?mp"
      "blk_addr (kmem_pool s') = blk_addr ?mp"
      by (simp_all add: s'_def kmem_pool_def some)
    from block [OF run o(3) some(4) inv' some(10) keep zero this] show thesis .
  qed
qed


text \<open>C5: \<^verbatim>\<open>kmem_alloc\<close> of a size that fits the pool never panics. It returns
  \<^verbatim>\<open>NULL\<close> with nothing changed, or a pointer past the header of a fresh block that is
  large enough, disjoint from every block in use and zeroed; the contents of all other blocks are
  unchanged, and the byte counter grows by the block size.\<close>

theorem kmem_alloc_correct:
  assumes "kmem_inv s K P" "unat sz + 16 \<le> 2 ^ pool_order (kmem_pool s)"
  shows "\<exists>a s'. kmem_alloc s sz = Some (a, s') \<and>
    (a = 0 \<and> s' = s \<or>
     (\<exists>p k. a = blk_addr (kmem_pool s) p + 16 \<and> k = kmem_order sz \<and> unat sz + 16 \<le> 2 ^ k \<and>
        (p, k) \<notin> K \<union> P \<and> kmem_inv s' (insert (p, k) K) P \<and>
        (\<forall>b \<in> K \<union> P. rng b \<inter> rng (p, k) = {} \<and> (\<forall>x \<in> rng b. kword s' x = kword s x)) \<and>
        (\<forall>x \<in> rng (p, k). x \<noteq> p \<longrightarrow> x \<noteq> p + 8 \<longrightarrow> kword s' x = 0) \<and>
        kmem_bytes_allocated s' = kmem_bytes_allocated s + 2 ^ k))"
  using assms
proof (cases rule: kmem_alloc_cases)
  case fail
  then show ?thesis by blast
next
  case (block p s')
  then show ?thesis by (intro exI [of _ "blk_addr (kmem_pool s) p + 16"] exI [of _ s'] conjI disjI2
      exI [of _ p] exI [of _ "kmem_order sz"] ballI impI refl) auto
qed

section \<open>Freeing and pages\<close>

text \<open>What returning a held block to the pool does to the rest of the heap.\<close>

lemma kmem_release:
  assumes inv: "kmem_inv s K P" and b: "(p, k) \<in> K \<union> P"
  obtains mp' where "buddy_free (kmem_pool s) (blk_addr (kmem_pool s) p) k = Some mp'"
    "blk_addr mp' = blk_addr (kmem_pool s)" "pool_order mp' = pool_order (kmem_pool s)"
    "\<And>s'. kmem s' = Some mp' \<Longrightarrow> kmem_mem s' = unlink_words (kmem_pool s) mp' (kmem_mem s) \<Longrightarrow>
       kmem_inv s' (K - {(p, k)}) (P - {(p, k)}) \<and>
       (\<forall>c \<in> K \<union> P. \<forall>x \<in> rng c. kword s' x = kword s x)"
proof -
  note I = kmem_invD [OF inv]
  let ?mp = "kmem_pool s"
  have "p < 2 ^ pool_order ?mp" by (rule held_in_pool [OF inv b held_header(1) [OF inv b]])
  then have off: "blk_off ?mp (blk_addr ?mp p) = p" by (rule blk_off_addr [OF I(6)])
  have "insert (p, k) (K \<union> P - {(p, k)}) = K \<union> P" using b by blast
  with I(2) have h: "buddy_inv ?mp (insert (p, k) (K \<union> P - {(p, k)}))" by simp
  obtain mp' where fr: "buddy_free ?mp (blk_addr ?mp p) k = Some mp'"
    "buddy_inv mp' (K \<union> P - {(p, k)})" "blk_off mp' = blk_off ?mp"
    "min_order mp' = min_order ?mp" "pool_order mp' = pool_order ?mp"
    using buddy.free_held [of ?mp "blk_addr ?mp p" k "K \<union> P - {(p, k)}"] h off by auto
  note ad = blk_addr_eqI [OF fr(3)]
  have "kmem_inv s' (K - {(p, k)}) (P - {(p, k)}) \<and> (\<forall>c \<in> K \<union> P. \<forall>x \<in> rng c. kword s' x = kword s x)"
    if k': "kmem s' = Some mp'" and m': "kmem_mem s' = unlink_words ?mp mp' (kmem_mem s)" for s'
  proof -
    have w: "kword s' x = kword s x" if "c \<in> K \<union> P" "x \<in> rng c" for c x
      using unlink_words_held [OF I(2) that] I(5) k' m' by (simp add: kword_def kmem_pool_def ad)
    have "kmem_inv s' (K - {(p, k)}) (P - {(p, k)})"
    proof (rule kmem_inv_step [OF inv, where mp' = mp' and b = "(p, k)"])
      show "buddy_inv mp' (K - {(p, k)} \<union> (P - {(p, k)}))" using fr(2) by (simp add: Un_Diff)
      show "base_addr mp' \<noteq> 0" using I(4) blk_off_eq_base [OF fr(3)] by simp
    qed (use I(3,5) k' fr(4) w in auto)
    with w show ?thesis by blast
  qed
  with fr(1,5) ad that show thesis by blast
qed

lemma held_ptr:
  assumes "kmem_inv s K P" "(p, k) \<in> K \<union> P"
  shows "unat (blk_addr (kmem_pool s) p + 16) = unat (blk_addr (kmem_pool s) p) + 16"
    "blk_off (kmem_pool s) (blk_addr (kmem_pool s) p) = p"
proof -
  note I = kmem_invD [OF assms(1)] and h = held_header [OF assms]
  let ?mp = "kmem_pool s"
  have p: "p < 2 ^ pool_order ?mp" by (rule held_in_pool [OF assms h(1)])
  then show "blk_off ?mp (blk_addr ?mp p) = p" by (rule blk_off_addr [OF I(6)])
  have "p + 2 ^ k \<le> 2 ^ pool_order ?mp" using buddy.held_bounds [OF I(2) assms(2)] by (simp add: blk_ok_def)
  moreover have "(2::nat) ^ 5 \<le> 2 ^ k" using h(3) by (intro power_increasing) auto
  ultimately have "unat (blk_addr ?mp p) + 16 < 2 ^ 64"
    using I(6) unat_blk_addr [OF I(6) p] by (simp add: pool_ok_def)
  then show "unat (blk_addr ?mp p + 16) = unat (blk_addr ?mp p) + 16" by (simp add: unat64_add)
qed

lemma held_nonnull:
  assumes "kmem_inv s K P" "(p, k) \<in> K \<union> P"
  shows "blk_addr (kmem_pool s) p \<noteq> 0" "blk_addr (kmem_pool s) p + 16 \<noteq> 0"
proof -
  have "p < 2 ^ pool_order (kmem_pool s)"
    by (rule held_in_pool [OF assms held_header(1) [OF assms]])
  from unat_blk_addr [OF kmem_invD(6) [OF assms(1)] this] kmem_invD(4) [OF assms(1)]
  show "blk_addr (kmem_pool s) p \<noteq> 0" by (auto simp: word64_eq_iff_unat [of _ 0])
  show "blk_addr (kmem_pool s) p + 16 \<noteq> 0"
    using held_ptr(1) [OF assms] by (auto simp: word64_eq_iff_unat [of _ 0])
qed

lemma kmem_free_held:
  assumes "kmem_inv s K P" "(p, k) \<in> K"
  obtains s' where "kmem_free s (blk_addr (kmem_pool s) p + 16) = Some s'"
    "kmem_inv s' (K - {(p, k)}) P"
    "\<And>c x. c \<in> K \<union> P \<Longrightarrow> x \<in> rng c \<Longrightarrow> kword s' x = kword s x"
    "kmem_bytes_allocated s' = kmem_bytes_allocated s - 2 ^ k"
    "blk_addr (kmem_pool s') = blk_addr (kmem_pool s)" "pool_order (kmem_pool s') = pool_order (kmem_pool s)"
proof -
  note I = kmem_invD [OF assms(1)]
  let ?mp = "kmem_pool s"
  have b: "(p, k) \<in> K \<union> P" using assms(2) by simp
  note h = held_header [OF assms(1) b]
  from assms(1) b obtain mp' where fr: "buddy_free ?mp (blk_addr ?mp p) k = Some mp'"
    "blk_addr mp' = blk_addr ?mp" "pool_order mp' = pool_order ?mp"
    "\<And>s'. kmem s' = Some mp' \<Longrightarrow> kmem_mem s' = unlink_words ?mp mp' (kmem_mem s) \<Longrightarrow>
       kmem_inv s' (K - {(p, k)}) (P - {(p, k)}) \<and> (\<forall>c \<in> K \<union> P. \<forall>x \<in> rng c. kword s' x = kword s x)"
    by (rule kmem_release) blast
  define s' where "s' = s\<lparr>kmem := Some mp', kmem_bytes_allocated := kmem_bytes_allocated s - 2 ^ k,
    kmem_mem := unlink_words ?mp mp' (kmem_mem s)\<rparr>"
  have k64: "k < 64" using buddy.held_bounds [OF I(2) b] I(6) by (simp add: blk_ok_def pool_ok_def)
  have p: "p < 2 ^ pool_order ?mp" "p + 8 < 2 ^ pool_order ?mp"
    using held_in_pool [OF assms(1) b] h by blast+
  have ord: "kmem_mem s (blk_addr ?mp p) = of_nat k" "kmem_mem s (blk_addr ?mp p + 8) = KMEM_MAGIC"
    using I(7,8) [OF assms(2)] by (simp_all add: kword_def blk_addr_def add.assoc)
  note un = held_ptr(1) [OF assms(1) b]
  have "\<not> free_head ?mp (blk_addr ?mp p)" by (rule held_not_free_head [OF I(2) b h(1)])
  then have run: "kmem_free s (blk_addr ?mp p + 16) = Some s'"
    using I(1) ord fr(1) un k64
    by (simp add: kmem_free_def Let_def sizeof_kmem_block_hdr_def s'_def word64_less_unat
        word64_eq_iff_unat [of _ 0] unat64_of_nat push_bit_1_u64)
  have "P - {(p, k)} = P" using I(3) assms(2) by blast
  with fr(4) [of s'] have "kmem_inv s' (K - {(p, k)}) P"
    "\<And>c x. c \<in> K \<union> P \<Longrightarrow> x \<in> rng c \<Longrightarrow> kword s' x = kword s x"
    by (auto simp: s'_def)
  moreover have "kmem_bytes_allocated s' = kmem_bytes_allocated s - 2 ^ k" by (simp add: s'_def)
  moreover have "kmem_pool s' = mp'" by (simp add: kmem_pool_def s'_def)
  ultimately show thesis using fr(2,3) by (intro that [OF run]) simp_all
qed

text \<open>C6: \<^verbatim>\<open>kmem_free\<close> of a pointer \<^verbatim>\<open>kmem_alloc\<close> returned never
  panics: the header still carries the magic value and the order, the block goes back to the pool,
  the contents of every other block are unchanged and the byte counter drops by the block size.
  Freeing \<^verbatim>\<open>NULL\<close> does nothing.\<close>

theorem kmem_free_correct:
  assumes "kmem_inv s K P" "(p, k) \<in> K"
  shows "kmem_free s 0 = Some s \<and>
    (\<exists>s'. kmem_free s (blk_addr (kmem_pool s) p + 16) = Some s' \<and> kmem_inv s' (K - {(p, k)}) P \<and>
      (\<forall>c \<in> K \<union> P - {(p, k)}. \<forall>x \<in> rng c. kword s' x = kword s x) \<and>
      kmem_bytes_allocated s' = kmem_bytes_allocated s - 2 ^ k)"
proof -
  from assms obtain s' where fr: "kmem_free s (blk_addr (kmem_pool s) p + 16) = Some s'"
    "kmem_inv s' (K - {(p, k)}) P" "\<And>c x. c \<in> K \<union> P \<Longrightarrow> x \<in> rng c \<Longrightarrow> kword s' x = kword s x"
    "kmem_bytes_allocated s' = kmem_bytes_allocated s - 2 ^ k"
    by (rule kmem_free_held) blast
  have "kmem_free s 0 = Some s" by (simp add: kmem_free_def)
  with fr show ?thesis by (intro conjI exI [of _ s']) auto
qed


lemma kmem_get_pages_cases:
  assumes inv: "kmem_inv s K P" and ord: "unat order + 12 \<le> pool_order (kmem_pool s)"
  obtains (fail) "kmem_get_pages s order = Some (0, s)"
    | (block) p s' where "kmem_get_pages s order = Some (blk_addr (kmem_pool s) p, s')"
      "2 ^ (unat order + 12) dvd p" "(p, unat order + 12) \<notin> K \<union> P"
      "kmem_inv s' K (insert (p, unat order + 12) P)"
      "\<And>b. b \<in> K \<union> P \<Longrightarrow> rng b \<inter> rng (p, unat order + 12) = {}"
      "\<And>b x. b \<in> K \<union> P \<Longrightarrow> x \<in> rng b \<Longrightarrow> kword s' x = kword s x"
      "\<And>x. x \<in> rng (p, unat order + 12) \<Longrightarrow> kword s' x = 0"
      "kmem_bytes_allocated s' = kmem_bytes_allocated s + 2 ^ (unat order + 12)"
      "blk_addr (kmem_pool s') = blk_addr (kmem_pool s)"
      "pool_order (kmem_pool s') = pool_order (kmem_pool s)"
proof -
  note I = kmem_invD [OF inv]
  let ?k = "unat order + 12" and ?mp = "kmem_pool s"
  have bo: "unat (order + of_nat PAGE_ORDER) = ?k"
    using ord I(6) by (simp add: PAGE_ORDER_def unat64_add pool_ok_def)
  have k5: "5 \<le> ?k" by simp
  from inv k5 ord show thesis
  proof (cases rule: kmem_take)
    case none
    then have "kmem_get_pages s order = Some (0, s)"
      using I(1) by (simp add: kmem_get_pages_def Let_def ptr_of_def bo)
    then show thesis by (rule fail)
  next
    case (some p mp')
    define s' where "s' = s\<lparr>kmem := Some mp',
      kmem_bytes_allocated := kmem_bytes_allocated s + 2 ^ ?k,
      kmem_mem := memset_zero (kmem_mem s) (blk_addr ?mp p) (2 ^ ?k)\<rparr>"
    have run: "kmem_get_pages s order = Some (blk_addr ?mp p, s')"
      using some(1,2) I(1) by (simp add: kmem_get_pages_def Let_def ptr_of_def s'_def bo push_bit_1_u64)
    have pool': "kmem_pool s' = mp'" by (simp add: kmem_pool_def s'_def)
    have w: "kword s' x = (if x \<in> rng (p, ?k) then 0 else kword s x)"
      if "x < 2 ^ pool_order ?mp" for x
    proof -
      have "kword s' x = memset_zero (kmem_mem s) (blk_addr ?mp p) (2 ^ ?k) (blk_addr ?mp x)"
        unfolding kword_def pool' some(5) by (simp add: s'_def)
      then show ?thesis by (simp only: memset_zero_blk [OF I(6) some(9) that] kword_def)
    qed
    have keep: "kword s' x = kword s x" if "b \<in> K \<union> P" "x \<in> rng b" for b x
      using w [OF held_in_pool [OF inv that]] some(10) [OF that(1)] that(2) by auto
    have inv': "kmem_inv s' K (insert (p, ?k) P)"
    proof (rule kmem_inv_step [OF inv, where mp' = mp' and b = "(p, ?k)"])
      show "kmem s' = Some mp'" by (simp add: s'_def)
      show "buddy_inv mp' (K \<union> insert (p, ?k) P)" using some(3) by simp
      show "K \<inter> insert (p, ?k) P = {}" using some(4) I(3) by simp
      show "kword s' x = kword s x" if "c \<in> K" "x \<in> rng c" for c x
        by (rule keep [of c]) (use that in simp_all)
    qed (use some(4,6,7) in auto)
    have zero: "kword s' x = 0" if "x \<in> rng (p, ?k)" for x
      using w [OF blk_ok_less [OF some(9) that]] that by simp
    have al: "2 ^ ?k dvd p" using some(9) by (simp add: blk_ok_def)
    have "kmem_bytes_allocated s' = kmem_bytes_allocated s + 2 ^ ?k"
      "blk_addr (kmem_pool s') = blk_addr ?mp" "pool_order (kmem_pool s') = pool_order ?mp"
      by (simp_all add: s'_def kmem_pool_def some)
    from block [OF run al some(4) inv' some(10) keep zero this] show thesis .
  qed
qed

lemma kmem_free_pages_held:
  assumes inv: "kmem_inv s K P" and b: "(p, unat order + 12) \<in> P"
  obtains s' where "kmem_free_pages s (blk_addr (kmem_pool s) p) order = Some s'"
    "kmem_inv s' K (P - {(p, unat order + 12)})"
    "\<And>c x. c \<in> K \<union> P \<Longrightarrow> x \<in> rng c \<Longrightarrow> kword s' x = kword s x"
    "kmem_bytes_allocated s' = kmem_bytes_allocated s - 2 ^ unat order"
    "blk_addr (kmem_pool s') = blk_addr (kmem_pool s)"
    "pool_order (kmem_pool s') = pool_order (kmem_pool s)"
proof -
  note I = kmem_invD [OF inv]
  let ?k = "unat order + 12" and ?mp = "kmem_pool s"
  have b': "(p, ?k) \<in> K \<union> P" using b by simp
  have "?k < 64" using buddy.held_bounds [OF I(2) b'] I(6) by (simp add: blk_ok_def pool_ok_def)
  then have bo: "unat (order + of_nat PAGE_ORDER) = ?k" by (simp add: PAGE_ORDER_def unat64_add)
  from inv b' obtain mp' where fr: "buddy_free ?mp (blk_addr ?mp p) ?k = Some mp'"
    "blk_addr mp' = blk_addr ?mp" "pool_order mp' = pool_order ?mp"
    "\<And>s'. kmem s' = Some mp' \<Longrightarrow> kmem_mem s' = unlink_words ?mp mp' (kmem_mem s) \<Longrightarrow>
       kmem_inv s' (K - {(p, ?k)}) (P - {(p, ?k)}) \<and> (\<forall>c \<in> K \<union> P. \<forall>x \<in> rng c. kword s' x = kword s x)"
    by (rule kmem_release) blast
  define s' where "s' = s\<lparr>kmem := Some mp',
    kmem_bytes_allocated := kmem_bytes_allocated s - 2 ^ unat order,
    kmem_mem := unlink_words ?mp mp' (kmem_mem s)\<rparr>"
  have run: "kmem_free_pages s (blk_addr ?mp p) order = Some s'"
    using I(1) fr(1) by (simp add: kmem_free_pages_def bo s'_def push_bit_1_u64)
  have "K - {(p, ?k)} = K" using I(3) b by blast
  with fr(4) [of s'] have "kmem_inv s' K (P - {(p, ?k)})"
    "\<And>c x. c \<in> K \<union> P \<Longrightarrow> x \<in> rng c \<Longrightarrow> kword s' x = kword s x"
    by (auto simp: s'_def)
  moreover have "kmem_bytes_allocated s' = kmem_bytes_allocated s - 2 ^ unat order"
    "blk_addr (kmem_pool s') = blk_addr ?mp" "pool_order (kmem_pool s') = pool_order ?mp"
    by (simp_all add: s'_def kmem_pool_def fr(2,3))
  ultimately show thesis by (rule that [OF run])
qed


text \<open>C8: \<^verbatim>\<open>kmem_get_pages\<close> returns zeroed memory of \<open>2 ^ order\<close> pages, aligned to
  its size within the pool, disjoint from every block in use; or \<^verbatim>\<open>NULL\<close> with nothing
  changed.\<close>

theorem kmem_get_pages_correct:
  assumes "kmem_inv s K P" "unat order + 12 \<le> pool_order (kmem_pool s)"
  shows "\<exists>a s'. kmem_get_pages s order = Some (a, s') \<and>
    (a = 0 \<and> s' = s \<or>
     (\<exists>p k. a = blk_addr (kmem_pool s) p \<and> k = unat order + 12 \<and> 2 ^ k dvd p \<and>
        (p, k) \<notin> K \<union> P \<and> kmem_inv s' K (insert (p, k) P) \<and>
        (\<forall>b \<in> K \<union> P. rng b \<inter> rng (p, k) = {} \<and> (\<forall>x \<in> rng b. kword s' x = kword s x)) \<and>
        (\<forall>x \<in> rng (p, k). kword s' x = 0)))"
  using assms
proof (cases rule: kmem_get_pages_cases)
  case fail
  then show ?thesis by blast
next
  case (block p s')
  then show ?thesis by (intro exI [of _ "blk_addr (kmem_pool s) p"] exI [of _ s'] conjI disjI2
      exI [of _ p] exI [of _ "unat order + 12"] ballI impI refl) auto
qed

text \<open>A page allocation followed by the matching free does not restore the byte counter: the
  free subtracts the order in pages, so the counter keeps \<open>2 ^ (order + 12) - 2 ^ order\<close> bytes
  that nobody holds.\<close>

lemma kmem_pages_counter_drift:
  assumes "kmem_inv s K P" "unat order + 12 \<le> pool_order (kmem_pool s)"
    and "kmem_get_pages s order = Some (a, s')" "a \<noteq> 0"
  shows "\<exists>s''. kmem_free_pages s' a order = Some s'' \<and> kmem_inv s'' K P \<and>
    kmem_bytes_allocated s'' =
      kmem_bytes_allocated s + 2 ^ (unat order + 12) - 2 ^ unat order"
  using assms(1,2)
proof (cases rule: kmem_get_pages_cases)
  case fail
  with assms(3,4) show ?thesis by simp
next
  case (block p t)
  from block(1) assms(3) have a: "a = blk_addr (kmem_pool s') p" and t: "t = s'"
    using block(9) by auto
  from block(4) [unfolded t] obtain s'' where "kmem_free_pages s' a order = Some s''"
    "kmem_inv s'' K (insert (p, unat order + 12) P - {(p, unat order + 12)})"
    "kmem_bytes_allocated s'' = kmem_bytes_allocated s' - 2 ^ unat order"
    unfolding a by (rule kmem_free_pages_held) auto
  moreover have "insert (p, unat order + 12) P - {(p, unat order + 12)} = P" using block(3) by blast
  ultimately show ?thesis using block(8) t by auto
qed

section \<open>Every reachable heap is safe\<close>

lemma kmem_create_zone_inv:
  assumes "kmem_create_zone s base sz = Some s'" "base \<noteq> 0" "1 \<le> unat sz" "unat sz \<le> 2 ^ 63"
    and "unat base + 2 ^ fls_nat (unat sz - 1) \<le> 2 ^ 64"
  shows "kmem_inv s' {} {}" "free_blocks (kmem_pool s') = {}"
    "pool_order (kmem_pool s') = fls_nat (unat sz - 1)" "base_addr (kmem_pool s') = base"
proof -
  have "fls_nat (unat sz - 1) \<le> 63" using assms(3,4) unfolding fls_nat_le_iff by linarith
  then have lt: "fls_nat (unat sz - 1) < 64" by simp
  have "roundup_pow_of_two sz = 2 ^ fls_nat (unat sz - 1)"
    using unat_roundup_pow_of_two(1) [OF assms(3,4)] lt by (simp add: word64_eq_iff_unat unat64_pow2)
  then have o: "ilog2_ul (roundup_pow_of_two sz) = fls_nat (unat sz - 1)"
    using lt by (simp add: ilog2_ul_pow2)
  from assms(1) obtain mp where mp: "buddy_init base (fls_nat (unat sz - 1)) 5 = Some mp"
    "s' = s\<lparr>kmem := Some mp\<rparr>"
    by (auto simp: kmem_create_zone_def o MIN_ORDER_def split: option.splits bind_splits)
  note ini = buddy_init_inv [OF mp(1) lt assms(5)]
  have p: "kmem_pool s' = mp" by (simp add: mp(2) kmem_pool_def)
  show "kmem_inv s' {} {}" using ini assms(2) by (simp add: kmem_inv_def kmem_pool_def mp(2) sizeof_block_def)
  show "free_blocks (kmem_pool s') = {}" "pool_order (kmem_pool s') = fls_nat (unat sz - 1)"
    "base_addr (kmem_pool s') = base" using ini by (simp_all add: p)
qed

lemma kmem_add_memory_inv:
  assumes inv: "kmem_inv s K P" and ok: "blk_ok (pool_order (kmem_pool s)) 5 (p, k)"
    and disj: "\<And>b. b \<in> free_blocks (kmem_pool s) \<union> (K \<union> P) \<Longrightarrow> rng b \<inter> rng (p, k) = {}"
  obtains s' where "kmem_add_memory s (blk_addr (kmem_pool s) p) (2 ^ k) = Some s'" "kmem_inv s' K P"
proof -
  note I = kmem_invD [OF inv]
  let ?mp = "kmem_pool s"
  have ad: "buddy_inv ?mp (insert (p, k) (K \<union> P))"
    by (rule buddy_inv_adopt [OF I(2)]) (use ok disj I(5) in simp_all)
  have new: "(p, k) \<notin> K \<union> P"
  proof
    assume "(p, k) \<in> K \<union> P"
    then have "rng (p, k) = {}" using disj [of "(p, k)"] by simp
    moreover have "p \<in> rng (p, k)" by simp
    ultimately show False by simp
  qed
  with I ad have inv1: "kmem_inv s K (insert (p, k) P)" by (auto simp: kmem_inv_def)
  have "k < 64" using ok I(6) by (simp add: blk_ok_def pool_ok_def)
  then have o: "ilog2_ul (2 ^ k) = k" by (rule ilog2_ul_pow2)
  have pk: "(p, k) \<in> K \<union> insert (p, k) P" by simp
  from inv1 pk obtain mp' where fr: "buddy_free ?mp (blk_addr ?mp p) k = Some mp'"
    "\<And>s'. kmem s' = Some mp' \<Longrightarrow> kmem_mem s' = unlink_words ?mp mp' (kmem_mem s) \<Longrightarrow>
       kmem_inv s' (K - {(p, k)}) (insert (p, k) P - {(p, k)})"
    by (rule kmem_release) blast
  have "K - {(p, k)} = K" "insert (p, k) P - {(p, k)} = P" using new by blast+
  with fr I(1) that show thesis by (simp add: kmem_add_memory_def o)
qed

text \<open>An owner writes a word of its block, past the header if the block has one.\<close>

definition client_write :: "kmem_state \<Rightarrow> nat \<Rightarrow> u64 \<Rightarrow> kmem_state" where
  "client_write s x v = s\<lparr>kmem_mem := (kmem_mem s)(blk_addr (kmem_pool s) x := v)\<rparr>"

inductive kmem_reach :: "kmem_state \<Rightarrow> block set \<Rightarrow> block set \<Rightarrow> bool" where
  zone: "kmem_create_zone s base sz = Some s' \<Longrightarrow> base \<noteq> 0 \<Longrightarrow> 1 \<le> unat sz \<Longrightarrow> unat sz \<le> 2 ^ 63 \<Longrightarrow>
    unat base + 2 ^ fls_nat (unat sz - 1) \<le> 2 ^ 64 \<Longrightarrow> kmem_reach s' {} {}"
| add: "kmem_reach s K P \<Longrightarrow> blk_ok (pool_order (kmem_pool s)) 5 (p, k) \<Longrightarrow>
    (\<forall>b \<in> free_blocks (kmem_pool s) \<union> (K \<union> P). rng b \<inter> rng (p, k) = {}) \<Longrightarrow>
    kmem_add_memory s (blk_addr (kmem_pool s) p) (2 ^ k) = Some s' \<Longrightarrow> kmem_reach s' K P"
| alloc: "kmem_reach s K P \<Longrightarrow> unat sz + 16 \<le> 2 ^ pool_order (kmem_pool s) \<Longrightarrow>
    kmem_alloc s sz = Some (a, s') \<Longrightarrow>
    kmem_reach s' (if a = 0 then K else insert (blk_off (kmem_pool s) (a - 16), kmem_order sz) K) P"
| free: "kmem_reach s K P \<Longrightarrow> (p, k) \<in> K \<Longrightarrow>
    kmem_free s (blk_addr (kmem_pool s) p + 16) = Some s' \<Longrightarrow> kmem_reach s' (K - {(p, k)}) P"
| get_pages: "kmem_reach s K P \<Longrightarrow> unat order + 12 \<le> pool_order (kmem_pool s) \<Longrightarrow>
    kmem_get_pages s order = Some (a, s') \<Longrightarrow>
    kmem_reach s' K (if a = 0 then P else insert (blk_off (kmem_pool s) a, unat order + 12) P)"
| free_pages: "kmem_reach s K P \<Longrightarrow> (p, unat order + 12) \<in> P \<Longrightarrow>
    kmem_free_pages s (blk_addr (kmem_pool s) p) order = Some s' \<Longrightarrow>
    kmem_reach s' K (P - {(p, unat order + 12)})"
| payload: "kmem_reach s K P \<Longrightarrow> (p, k) \<in> K \<Longrightarrow> x \<in> rng (p, k) \<Longrightarrow> x \<noteq> p \<Longrightarrow> x \<noteq> p + 8 \<Longrightarrow>
    kmem_reach (client_write s x v) K P"
| page_write: "kmem_reach s K P \<Longrightarrow> b \<in> P \<Longrightarrow> x \<in> rng b \<Longrightarrow> kmem_reach (client_write s x v) K P"

lemma client_write_words:
  assumes inv: "kmem_inv s K P" and b: "b \<in> K \<union> P" and x: "x \<in> rng b"
    and hdr: "\<And>p k. b = (p, k) \<Longrightarrow> b \<in> K \<Longrightarrow> x \<noteq> p \<and> x \<noteq> p + 8"
  shows "kmem_inv (client_write s x v) K P"
proof -
  note I = kmem_invD [OF inv]
  have pool: "kmem_pool (client_write s x v) = kmem_pool s" "kmem (client_write s x v) = kmem s"
    by (simp_all add: client_write_def kmem_pool_def)
  have xP: "x < 2 ^ pool_order (kmem_pool s)" by (rule held_in_pool [OF inv b x])
  have w: "kword (client_write s x v) y = (if y = x then v else kword s y)"
    if "y < 2 ^ pool_order (kmem_pool s)" for y
    using blk_addr_inj [OF I(6) that xP] by (simp add: kword_def pool) (simp add: client_write_def)
  have "kword (client_write s x v) p = of_nat k \<and> kword (client_write s x v) (p + 8) = KMEM_MAGIC"
    if pk: "(p, k) \<in> K" for p k
  proof -
    from pk have pk': "(p, k) \<in> K \<union> P" by simp
    note h = held_header [OF inv pk']
    have ne: "p \<noteq> x \<and> p + 8 \<noteq> x"
    proof (cases "b = (p, k)")
      case True
      with hdr pk show ?thesis by blast
    next
      case False
      with buddy.held_disjoint [OF I(2) b pk'] h x show ?thesis by auto
    qed
    then show ?thesis
      using w [OF held_in_pool [OF inv pk' h(1)]] w [OF held_in_pool [OF inv pk' h(2)]] I(7,8) [OF pk] by simp
  qed
  then show ?thesis using I(1-5) by (auto simp: kmem_inv_def pool)
qed


lemma kmem_reach_inv: "kmem_reach s K P \<Longrightarrow> kmem_inv s K P"
proof (induction rule: kmem_reach.induct)
  case (zone s base sz s')
  then show ?case by (rule kmem_create_zone_inv)
next
  case (add s K P p k s')
  from add.IH add(2) obtain t where "kmem_add_memory s (blk_addr (kmem_pool s) p) (2 ^ k) = Some t"
    "kmem_inv t K P" by (rule kmem_add_memory_inv) (use add(3) in blast)
  with add(4) show ?case by simp
next
  case (alloc s K P sz a s')
  from alloc.IH alloc(2) show ?case
  proof (cases rule: kmem_alloc_cases)
    case fail
    with alloc show ?thesis by simp
  next
    case (block p t)
    from block(1) alloc(3) have t: "t = s'" "a = blk_addr (kmem_pool s) p + 16" by auto
    have "(p, kmem_order sz) \<in> insert (p, kmem_order sz) K \<union> P" by simp
    note h = held_ptr [OF block(4) this, unfolded block(10)]
    from h(1) have "a \<noteq> 0" by (simp add: t(2) word64_eq_iff_unat [of _ 0])
    moreover have "blk_off (kmem_pool s) (a - 16) = p"
      using h(2) base_addr_eqI [OF block(10)] by (simp add: t(2) blk_off_def)
    ultimately show ?thesis using block(4) t(1) by simp
  qed
next
  case (free s K P p k s')
  from free.IH free(2) obtain t where "kmem_free s (blk_addr (kmem_pool s) p + 16) = Some t"
    "kmem_inv t (K - {(p, k)}) P" by (rule kmem_free_held) blast
  with free(3) show ?case by simp
next
  case (get_pages s K P order a s')
  from get_pages.IH get_pages(2) show ?case
  proof (cases rule: kmem_get_pages_cases)
    case fail
    with get_pages show ?thesis by simp
  next
    case (block p t)
    from block(1) get_pages(3) have t: "t = s'" "a = blk_addr (kmem_pool s) p" by auto
    have pk: "(p, unat order + 12) \<in> K \<union> insert (p, unat order + 12) P" by simp
    note h = held_ptr [OF block(4) this, unfolded block(9)]
    have "p < 2 ^ pool_order (kmem_pool t)"
      by (rule held_in_pool [OF block(4) pk]) simp
    from unat_blk_addr [OF kmem_invD(6) [OF block(4)] this] kmem_invD(4) [OF block(4)]
    have "a \<noteq> 0" by (auto simp: t(2) block(9) word64_eq_iff_unat [of _ 0])
    moreover have "blk_off (kmem_pool s) a = p"
      using h(2) base_addr_eqI [OF block(9)] by (simp add: t(2) blk_off_def)
    ultimately show ?thesis using block(4) t(1) by simp
  qed
next
  case (free_pages s K P p order s')
  from free_pages.IH free_pages(2)
  obtain t where "kmem_free_pages s (blk_addr (kmem_pool s) p) order = Some t"
    "kmem_inv t K (P - {(p, unat order + 12)})" by (rule kmem_free_pages_held) blast
  with free_pages(3) show ?case by simp
next
  case (payload s K P p k x v)
  then show ?case by (intro client_write_words [of s K P "(p, k)"]) auto
next
  case (page_write s K P b x v)
  then show ?case by (intro client_write_words [of s K P b]) (auto dest: kmem_invD(3))
qed

text \<open>C7: in every state the heap can reach, whatever the owners of blocks write past their
  headers, no call of the interface panics: any request that fits the pool returns, every pointer
  handed out can be freed, and the blocks in use are pairwise disjoint.\<close>

theorem kmem_reach_safe:
  assumes "kmem_reach s K P"
  shows "(unat sz + 16 \<le> 2 ^ pool_order (kmem_pool s) \<longrightarrow> kmem_alloc s sz \<noteq> None) \<and>
    (unat order + 12 \<le> pool_order (kmem_pool s) \<longrightarrow> kmem_get_pages s order \<noteq> None) \<and>
    ((p, k) \<in> K \<longrightarrow> kmem_free s (blk_addr (kmem_pool s) p + 16) \<noteq> None) \<and>
    ((p, unat order + 12) \<in> P \<longrightarrow> kmem_free_pages s (blk_addr (kmem_pool s) p) order \<noteq> None) \<and>
    (b \<in> K \<union> P \<and> c \<in> K \<union> P \<and> b \<noteq> c \<longrightarrow> rng b \<inter> rng c = {})"
proof (intro conjI impI)
  note inv = kmem_reach_inv [OF assms]
  show "kmem_alloc s sz \<noteq> None" if "unat sz + 16 \<le> 2 ^ pool_order (kmem_pool s)"
    using inv that by (rule kmem_alloc_cases) auto
  show "kmem_get_pages s order \<noteq> None" if "unat order + 12 \<le> pool_order (kmem_pool s)"
    using inv that by (rule kmem_get_pages_cases) auto
  show "kmem_free s (blk_addr (kmem_pool s) p + 16) \<noteq> None" if "(p, k) \<in> K"
    using inv that by (rule kmem_free_held) auto
  show "kmem_free_pages s (blk_addr (kmem_pool s) p) order \<noteq> None" if "(p, unat order + 12) \<in> P"
    using inv that by (rule kmem_free_pages_held) auto
  show "rng b \<inter> rng c = {}" if "b \<in> K \<union> P \<and> c \<in> K \<union> P \<and> b \<noteq> c"
    using buddy.held_disjoint [OF kmem_invD(2) [OF inv]] that by blast
qed

section \<open>Limits of the interface\<close>

text \<open>A request larger than the pool is not answered with \<^verbatim>\<open>NULL\<close>: the
  \<^verbatim>\<open>BUG_ON\<close> in \<^verbatim>\<open>buddy_alloc\<close> stops the kernel.\<close>

lemma kmem_alloc_oversize_panics:
  assumes "kmem_inv s K P" "2 ^ pool_order (kmem_pool s) < unat sz + 16" "unat sz + 16 \<le> 2 ^ 63"
  shows "kmem_alloc s sz = None"
proof -
  have "pool_order (kmem_pool s) < fls_nat (unat sz + 15)"
    using assms(2) fls_nat_le_iff [of "unat sz + 15" "pool_order (kmem_pool s)"] by linarith
  then have "pool_order (kmem_pool s) < kmem_order sz" by (simp add: kmem_order_eq [OF assms(3)])
  then show ?thesis
    using kmem_invD(1) [OF assms(1)] by (simp add: kmem_alloc_def buddy_alloc_def)
qed

text \<open>As long as the pool is smaller than 2 GiB, \<^verbatim>\<open>paddr_is_kmem\<close> recognises
  exactly the physical addresses whose kernel address lies in the pool.\<close>

lemma paddr_is_kmem_correct:
  assumes "kmem_inv s K P" "pool_order (kmem_pool s) < 31"
  shows "paddr_is_kmem s pa = Some (unat (pa + PAGE_OFFSET) \<in>
    {unat (base_addr (kmem_pool s)) ..< unat (base_addr (kmem_pool s)) + 2 ^ pool_order (kmem_pool s)})"
proof -
  let ?P = "pool_order (kmem_pool s)" and ?b = "base_addr (kmem_pool s)"
  have "signed_take_bit 31 (push_bit ?P 1 :: u64) = 2 ^ ?P"
    using assms(2) by (intro bit_word_eqI) (auto simp: bit_simps bit_signed_take_bit_iff bit_exp_iff min_def)
  then show ?thesis
    using kmem_invD(1) [OF assms(1)] assms(2)
    by (auto simp: paddr_is_kmem_def word64_le_unat word64_less_unat unat64_sub unat64_pow2 unat_sub)
qed

section \<open>A small heap\<close>

definition kmem_boot :: kmem_state where
  "kmem_boot = \<lparr>kmem = None, kmem_bytes_managed = 0, kmem_bytes_allocated = 0, kmem_mem = (\<lambda>_. 0)\<rparr>"

definition small_zone :: kmem_state where
  "small_zone = the (kmem_create_zone kmem_boot 65536 16384)"

definition small_heap :: kmem_state where
  "small_heap = the (kmem_add_memory small_zone 65536 16384)"

lemma small_zone_run: "kmem_create_zone kmem_boot 65536 16384 = Some small_zone"
proof -
  have "map_option (\<lambda>_. ()) (kmem_create_zone kmem_boot 65536 16384) = Some ()" by code_simp
  then show ?thesis by (auto simp: small_zone_def)
qed

lemma small_heap_run: "kmem_add_memory small_zone 65536 16384 = Some small_heap"
proof -
  have "map_option (\<lambda>_. ()) (kmem_add_memory small_zone 65536 16384) = Some ()" by code_simp
  then show ?thesis by (auto simp: small_heap_def)
qed

lemma small_heap_reach: "kmem_reach small_heap {} {}"
proof -
  have f: "fls_nat 16383 = 14" by (simp add: fls_nat_pos)
  note z = kmem_create_zone_inv [OF small_zone_run]
  have r: "kmem_reach small_zone {} {}"
    by (rule kmem_reach.zone [OF small_zone_run]) (simp_all add: f)
  have g: "pool_order (kmem_pool small_zone) = 14" "base_addr (kmem_pool small_zone) = 65536"
    "free_blocks (kmem_pool small_zone) = {}"
    using z by (simp_all add: f)
  have a: "blk_addr (kmem_pool small_zone) 0 = 65536" by (simp add: blk_addr_def g)
  show ?thesis
    by (rule kmem_reach.add [OF r, of 0 14]) (simp_all add: g a small_heap_run blk_ok_def)
qed

lemmas small_heap_inv = kmem_reach_inv [OF small_heap_reach]

lemma small_heap_geometry: "pool_order (kmem_pool small_heap) = 14"
  "base_addr (kmem_pool small_heap) = 65536"
  by code_simp+

lemma small_heap_addr: "blk_addr (kmem_pool small_heap) p = 65536 + of_nat p"
  by (simp add: blk_addr_def small_heap_geometry)

lemma small_heap_alloc: "map_option fst (kmem_alloc small_heap 100) = Some 65552" "kmem_order 100 = 7"
  by code_simp+

theorem kmem_alloc_correct_witness:
  "\<exists>p s'. kmem_alloc small_heap 100 = Some (65552, s') \<and> 65552 = blk_addr (kmem_pool small_heap) p + 16 \<and>
    kmem_inv s' {(p, 7)} {} \<and> kmem_bytes_allocated s' = kmem_bytes_allocated small_heap + 128"
  using kmem_alloc_correct [OF small_heap_inv, of 100] small_heap_alloc
  by (auto simp: small_heap_geometry)

definition small_heap_used :: kmem_state where
  "small_heap_used = snd (the (kmem_alloc small_heap 100))"

lemma small_heap_used_reach: "kmem_reach small_heap_used {(0, 7)} {}"
proof -
  have run: "kmem_alloc small_heap 100 = Some (65552, small_heap_used)"
    using small_heap_alloc(1) by (auto simp: small_heap_used_def)
  from kmem_reach.alloc [OF small_heap_reach _ run] show ?thesis
    by (simp add: small_heap_geometry small_heap_alloc(2) blk_off_def)
qed

lemma small_heap_used_base: "base_addr (kmem_pool small_heap_used) = 65536"
  by code_simp

theorem kmem_free_correct_witness:
  "\<exists>s'. kmem_free small_heap_used 65552 = Some s' \<and> kmem_inv s' {} {}"
  using kmem_free_correct [OF kmem_reach_inv [OF small_heap_used_reach], of 0 7]
  by (auto simp: blk_addr_def small_heap_used_base)

theorem kmem_reach_safe_witness: "kmem_alloc small_heap 100 \<noteq> None"
  using kmem_reach_safe [OF small_heap_reach, of 100] by (simp add: small_heap_geometry)

lemma small_heap_pages: "map_option fst (kmem_get_pages small_heap 0) = Some 65536"
  by code_simp

theorem kmem_get_pages_correct_witness:
  "\<exists>p s'. kmem_get_pages small_heap 0 = Some (65536, s') \<and> 65536 = blk_addr (kmem_pool small_heap) p \<and>
    2 ^ 12 dvd p \<and> kmem_inv s' {} {(p, 12)}"
  using kmem_get_pages_correct [OF small_heap_inv, of 0] small_heap_pages
  by (auto simp: small_heap_geometry)

lemma kmem_alloc_oversize_panics_witness: "kmem_alloc small_heap 16384 = None"
  by (rule kmem_alloc_oversize_panics [OF small_heap_inv]) (simp_all add: small_heap_geometry)

end
