(* ===== verification/Kitten_Bitops.thy ===== *)
theory Kitten_Bitops
  imports Kitten_Log2
begin

text \<open>
  Bit arrays: the single-bit operations of \<^verbatim>\<open>include/arch-x86_64/bitops.h\<close>, the
  word-at-a-time searches of \<^verbatim>\<open>lib/find_next_bit.c\<close> and \<^verbatim>\<open>lib/find_last_bit.c\<close>. A
  bit array is the sequence of \<^verbatim>\<open>unsigned long\<close>s it is stored in; each search is shown
  to be a linear scan over its bits.

  Sizes and offsets are \<^verbatim>\<open>unsigned long\<close> in the code and \<^typ>\<open>nat\<close> here: the
  searches return early unless \<open>offset < size\<close>, so that no subtraction wraps and no sum
  exceeds \<open>size\<close>.
\<close>

section \<open>Bit arrays\<close>

type_synonym bitmap = "nat \<Rightarrow> u64"

definition BITS_PER_LONG :: nat where
  [simp]: "BITS_PER_LONG = 64"

definition BITS_TO_LONGS :: "nat \<Rightarrow> nat" where
  "BITS_TO_LONGS bits = (bits + BITS_PER_LONG - 1) div BITS_PER_LONG"

definition test_bit :: "nat \<Rightarrow> bitmap \<Rightarrow> bool" where
  "test_bit nr addr = bit (addr (nr div BITS_PER_LONG)) (nr mod BITS_PER_LONG)"

definition set_bit_at :: "nat \<Rightarrow> bitmap \<Rightarrow> bitmap" where
  "set_bit_at nr addr =
     addr(nr div BITS_PER_LONG := addr (nr div BITS_PER_LONG) OR push_bit (nr mod BITS_PER_LONG) 1)"

definition clear_bit :: "nat \<Rightarrow> bitmap \<Rightarrow> bitmap" where
  "clear_bit nr addr =
     addr(nr div BITS_PER_LONG :=
       addr (nr div BITS_PER_LONG) AND NOT (push_bit (nr mod BITS_PER_LONG) 1))"

definition change_bit :: "nat \<Rightarrow> bitmap \<Rightarrow> bitmap" where
  "change_bit nr addr =
     addr(nr div BITS_PER_LONG := addr (nr div BITS_PER_LONG) XOR push_bit (nr mod BITS_PER_LONG) 1)"

definition test_and_set_bit :: "nat \<Rightarrow> bitmap \<Rightarrow> bool \<times> bitmap" where
  "test_and_set_bit nr addr = (test_bit nr addr, set_bit_at nr addr)"

definition test_and_clear_bit :: "nat \<Rightarrow> bitmap \<Rightarrow> bool \<times> bitmap" where
  "test_and_clear_bit nr addr = (test_bit nr addr, clear_bit nr addr)"

definition test_and_change_bit :: "nat \<Rightarrow> bitmap \<Rightarrow> bool \<times> bitmap" where
  "test_and_change_bit nr addr = (test_bit nr addr, change_bit nr addr)"

text \<open>The loops over a run of \<^verbatim>\<open>len\<close> bits from bit \<^verbatim>\<open>i\<close>.\<close>

fun set_bit_string :: "bitmap \<Rightarrow> nat \<Rightarrow> nat \<Rightarrow> bitmap" where
  "set_bit_string m i 0 = m"
| "set_bit_string m i (Suc len) = set_bit_string (set_bit_at i m) (Suc i) len"

fun clear_bit_string :: "bitmap \<Rightarrow> nat \<Rightarrow> nat \<Rightarrow> bitmap" where
  "clear_bit_string m i 0 = m"
| "clear_bit_string m i (Suc len) = clear_bit_string (clear_bit i m) (Suc i) len"

section \<open>Linear scan\<close>

text \<open>The first position from \<^verbatim>\<open>lo\<close> on that satisfies a predicate, or the bound.\<close>

definition scan :: "(nat \<Rightarrow> bool) \<Rightarrow> nat \<Rightarrow> nat \<Rightarrow> nat" where
  "scan P lo n = (case find P [lo..<n] of None \<Rightarrow> n | Some i \<Rightarrow> i)"

lemma scan_skip:
  assumes "lo \<le> mid" "mid \<le> n" "\<And>i. lo \<le> i \<Longrightarrow> i < mid \<Longrightarrow> \<not> P i"
  shows "scan P lo n = scan P mid n"
proof -
  have "[lo..<n] = [lo..<mid] @ [mid..<n]"
    using assms by (metis le_iff_add upt_add_eq_append)
  moreover have "find P [lo..<mid] = None" using assms(3) by (auto simp: find_None_iff)
  moreover have "find P (xs @ ys) = find P ys" if "find P xs = None" for xs ys
    using that by (induction xs) (auto split: if_splits)
  ultimately show ?thesis by (simp add: scan_def)
qed

lemma scan_hit:
  assumes "lo \<le> r" "r < n" "P r" "\<And>i. lo \<le> i \<Longrightarrow> i < r \<Longrightarrow> \<not> P i"
  shows "scan P lo n = r"
proof -
  have "scan P lo n = scan P r n" by (rule scan_skip) (use assms in auto)
  also have "\<dots> = r" using assms by (simp add: scan_def upt_conv_Cons)
  finally show ?thesis .
qed

lemma scan_none: "(\<And>i. lo \<le> i \<Longrightarrow> i < n \<Longrightarrow> \<not> P i) \<Longrightarrow> scan P lo n = n"
proof -
  assume "\<And>i. lo \<le> i \<Longrightarrow> i < n \<Longrightarrow> \<not> P i"
  then have "find P [lo..<n] = None" by (auto simp: find_None_iff)
  then show ?thesis by (simp add: scan_def)
qed

lemma scan_cases:
  obtains "scan P lo n = n" "\<And>i. lo \<le> i \<Longrightarrow> i < n \<Longrightarrow> \<not> P i"
  | "lo \<le> scan P lo n" "scan P lo n < n" "P (scan P lo n)"
    "\<And>i. lo \<le> i \<Longrightarrow> i < scan P lo n \<Longrightarrow> \<not> P i"
proof (cases "\<exists>i. lo \<le> i \<and> i < n \<and> P i")
  case True
  define r where "r = (LEAST i. lo \<le> i \<and> i < n \<and> P i)"
  have r: "lo \<le> r \<and> r < n \<and> P r" unfolding r_def by (rule LeastI_ex [OF True])
  have least: "\<not> P i" if "lo \<le> i" "i < r" for i
    using not_less_Least [OF that(2) [unfolded r_def]] that r by auto
  have eq: "scan P lo n = r" by (rule scan_hit) (use r least in auto)
  show thesis by (rule that(2)) (use r least eq in auto)
next
  case False
  then show thesis by (intro that(1) scan_none) auto
qed

lemma scan_le: "scan P lo n \<le> n"
  by (rule scan_cases [of P lo n]) auto

lemma scan_cong:
  "(\<And>i. lo \<le> i \<Longrightarrow> i < n \<Longrightarrow> P i = Q i) \<Longrightarrow> scan P lo n = scan Q lo n"
proof -
  assume "\<And>i. lo \<le> i \<Longrightarrow> i < n \<Longrightarrow> P i = Q i"
  then have "find P [lo..<n] = find Q [lo..<n]" by (intro find_cong) auto
  then show ?thesis by (simp add: scan_def)
qed

lemma scan_less_iff: "scan P lo n < n \<longleftrightarrow> (\<exists>i. lo \<le> i \<and> i < n \<and> P i)"
  by (rule scan_cases [of P lo n]) auto

section \<open>Bit searches\<close>

text \<open>\<^verbatim>\<open>__ffs\<close> and \<^verbatim>\<open>ffz\<close> are one \<^verbatim>\<open>bsfq\<close> instruction, whose result is
  undefined on a word without a set bit; every caller tests for that first. \<^verbatim>\<open>__fls\<close> is
  \<^verbatim>\<open>bsrq\<close>.\<close>

definition ffs_word :: "u64 \<Rightarrow> nat" where
  "ffs_word word = scan (bit word) 0 BITS_PER_LONG"

definition ffz :: "u64 \<Rightarrow> nat" where
  "ffz word = ffs_word (NOT word)"

definition fls_word :: "u64 \<Rightarrow> nat" where
  "fls_word word = fls64 word - 1"

text \<open>The labels \<^verbatim>\<open>found_middle\<close> and \<^verbatim>\<open>found_first\<close> of \<^verbatim>\<open>find_next_bit\<close>, its
  loop over whole words, and the function.\<close>

definition found_first :: "u64 \<Rightarrow> nat \<Rightarrow> nat \<Rightarrow> nat" where
  "found_first tmp sz result =
     (let tmp = tmp AND drop_bit (BITS_PER_LONG - sz) (NOT 0) in
      if tmp = 0 then result + sz else result + ffs_word tmp)"

fun find_words :: "bitmap \<Rightarrow> nat \<Rightarrow> nat \<Rightarrow> nat \<Rightarrow> nat" where
  "find_words addr p result sz =
     (if BITS_PER_LONG \<le> sz
      then if addr p \<noteq> 0 then result + ffs_word (addr p)
           else find_words addr (p + 1) (result + BITS_PER_LONG) (sz - BITS_PER_LONG)
      else if sz = 0 then result
      else found_first (addr p) sz result)"

declare find_words.simps [simp del]

definition find_next_bit :: "bitmap \<Rightarrow> nat \<Rightarrow> nat \<Rightarrow> nat" where
  "find_next_bit addr sz offset =
     (let p = offset div BITS_PER_LONG;
          result = offset - offset mod BITS_PER_LONG in
      if sz \<le> offset then sz
      else
        let sz = sz - result;
            offset = offset mod BITS_PER_LONG in
        if offset \<noteq> 0 then
          let tmp = addr p AND push_bit offset (NOT 0) in
          if sz < BITS_PER_LONG then found_first tmp sz result
          else if tmp \<noteq> 0 then result + ffs_word tmp
          else find_words addr (p + 1) (result + BITS_PER_LONG) (sz - BITS_PER_LONG)
        else find_words addr p result sz)"

text \<open>\<^verbatim>\<open>find_next_zero_bit\<close> has the same shape on clear bits.\<close>

definition found_first_zero :: "u64 \<Rightarrow> nat \<Rightarrow> nat \<Rightarrow> nat" where
  "found_first_zero tmp sz result =
     (let tmp = tmp OR push_bit sz (NOT 0) in
      if tmp = NOT 0 then result + sz else result + ffz tmp)"

fun find_zero_words :: "bitmap \<Rightarrow> nat \<Rightarrow> nat \<Rightarrow> nat \<Rightarrow> nat" where
  "find_zero_words addr p result sz =
     (if BITS_PER_LONG \<le> sz
      then if NOT (addr p) \<noteq> 0 then result + ffz (addr p)
           else find_zero_words addr (p + 1) (result + BITS_PER_LONG) (sz - BITS_PER_LONG)
      else if sz = 0 then result
      else found_first_zero (addr p) sz result)"

declare find_zero_words.simps [simp del]

definition find_next_zero_bit :: "bitmap \<Rightarrow> nat \<Rightarrow> nat \<Rightarrow> nat" where
  "find_next_zero_bit addr sz offset =
     (let p = offset div BITS_PER_LONG;
          result = offset - offset mod BITS_PER_LONG in
      if sz \<le> offset then sz
      else
        let sz = sz - result;
            offset = offset mod BITS_PER_LONG in
        if offset \<noteq> 0 then
          let tmp = addr p OR drop_bit (BITS_PER_LONG - offset) (NOT 0) in
          if sz < BITS_PER_LONG then found_first_zero tmp sz result
          else if NOT tmp \<noteq> 0 then result + ffz tmp
          else find_zero_words addr (p + 1) (result + BITS_PER_LONG) (sz - BITS_PER_LONG)
        else find_zero_words addr p result sz)"

text \<open>The searches from bit 0 are the loop over whole words and the same last step.\<close>

definition find_first_bit :: "bitmap \<Rightarrow> nat \<Rightarrow> nat" where
  "find_first_bit addr sz = find_words addr 0 0 sz"

definition find_first_zero_bit :: "bitmap \<Rightarrow> nat \<Rightarrow> nat" where
  "find_first_zero_bit addr sz = find_zero_words addr 0 0 sz"

fun find_last_words :: "bitmap \<Rightarrow> nat \<Rightarrow> nat option" where
  "find_last_words addr 0 = None"
| "find_last_words addr (Suc words) =
     (if addr words \<noteq> 0 then Some (words * BITS_PER_LONG + fls_word (addr words))
      else find_last_words addr words)"

definition find_last_bit :: "bitmap \<Rightarrow> nat \<Rightarrow> nat" where
  "find_last_bit addr sz =
     (let words = sz div BITS_PER_LONG;
          rest = sz mod BITS_PER_LONG;
          tmp = addr words AND drop_bit (BITS_PER_LONG - rest) (NOT 0) in
      if rest \<noteq> 0 \<and> tmp \<noteq> 0 then words * BITS_PER_LONG + fls_word tmp
      else (case find_last_words addr words of None \<Rightarrow> sz | Some r \<Rightarrow> r))"

section \<open>Single-bit operations\<close>

lemma test_set_bit [simp]: "test_bit i (set_bit_at j m) = (i = j \<or> test_bit i m)"
proof (cases "i div 64 = j div 64")
  case True
  then have "i = j \<longleftrightarrow> i mod 64 = j mod 64" by (metis div_mult_mod_eq)
  with True show ?thesis by (auto simp: test_bit_def set_bit_at_def bit_simps)
qed (auto simp: test_bit_def set_bit_at_def)

lemma test_clear_bit [simp]: "test_bit i (clear_bit j m) = (i \<noteq> j \<and> test_bit i m)"
proof (cases "i div 64 = j div 64")
  case True
  then have "i = j \<longleftrightarrow> i mod 64 = j mod 64" by (metis div_mult_mod_eq)
  with True show ?thesis by (auto simp: test_bit_def clear_bit_def bit_simps)
qed (auto simp: test_bit_def clear_bit_def)

lemma test_change_bit [simp]: "test_bit i (change_bit j m) = ((i = j) \<noteq> test_bit i m)"
proof (cases "i div 64 = j div 64")
  case True
  then have "i = j \<longleftrightarrow> i mod 64 = j mod 64" by (metis div_mult_mod_eq)
  with True show ?thesis by (auto simp: test_bit_def change_bit_def bit_simps)
qed (auto simp: test_bit_def change_bit_def)

lemma test_set_bit_string [simp]:
  "test_bit i (set_bit_string m j len) = (j \<le> i \<and> i < j + len \<or> test_bit i m)"
  by (induction m j len rule: set_bit_string.induct) auto

lemma test_clear_bit_string [simp]:
  "test_bit i (clear_bit_string m j len) = (\<not> (j \<le> i \<and> i < j + len) \<and> test_bit i m)"
  by (induction m j len rule: clear_bit_string.induct) auto

section \<open>The searches are linear scans\<close>

lemma word64_nonzero_iff: "(w :: u64) \<noteq> 0 \<longleftrightarrow> (\<exists>i < 64. bit w i)"
  by (auto simp: bit_eq_iff)

lemma ffs_word_props:
  assumes "w \<noteq> 0"
  shows "ffs_word w < 64" "bit w (ffs_word w)" "\<And>i. i < ffs_word w \<Longrightarrow> \<not> bit w i"
  using assms unfolding ffs_word_def BITS_PER_LONG_def word64_nonzero_iff
  by (rule_tac scan_cases [of "bit w" 0 64]; auto)+

lemma test_bit_word: "i < 64 \<Longrightarrow> test_bit (p * 64 + i) addr = bit (addr p) i"
  by (simp add: test_bit_def)

text \<open>A search of one word \<^verbatim>\<open>tmp\<close> whose bits are those of the array from \<^verbatim>\<open>lo\<close> on.\<close>

lemma ffs_word_scan:
  assumes tmp: "\<And>i. i < 64 \<Longrightarrow> bit tmp i \<longleftrightarrow> lo \<le> p * 64 + i \<and> p * 64 + i < n \<and> P (p * 64 + i)"
    and nz: "tmp \<noteq> 0" and lo: "p * 64 \<le> lo"
  shows "scan P lo n = p * 64 + ffs_word tmp"
proof (rule scan_hit)
  note f = ffs_word_props [OF nz]
  show "lo \<le> p * 64 + ffs_word tmp" "p * 64 + ffs_word tmp < n" "P (p * 64 + ffs_word tmp)"
    using f tmp by auto
  show "\<not> P i" if i: "lo \<le> i" "i < p * 64 + ffs_word tmp" for i
  proof -
    have "i = p * 64 + (i - p * 64)" "i - p * 64 < ffs_word tmp" using i lo by auto
    then show ?thesis using f tmp [of "i - p * 64"] i \<open>p * 64 + ffs_word tmp < n\<close> by auto
  qed
qed

lemma zero_word_bits:
  "(w :: u64) = 0 \<Longrightarrow> (\<And>i. i < 64 \<Longrightarrow> bit w i = B i) \<Longrightarrow> i < 64 \<Longrightarrow> \<not> B i"
  by auto

lemma found_first_scan:
  assumes tmp: "\<And>i. i < 64 \<Longrightarrow> bit tmp i \<longleftrightarrow> lo \<le> p * 64 + i \<and> P (p * 64 + i)"
    and sz: "0 < sz" "sz < 64" and lo: "p * 64 \<le> lo"
  shows "found_first tmp sz (p * 64) = scan P lo (p * 64 + sz)"
proof -
  let ?t = "tmp AND drop_bit (BITS_PER_LONG - sz) (NOT 0)"
  have t: "bit ?t i \<longleftrightarrow> lo \<le> p * 64 + i \<and> p * 64 + i < p * 64 + sz \<and> P (p * 64 + i)" if "i < 64" for i
    using tmp [OF that] that sz by (auto simp: bit_simps)
  show ?thesis
  proof (cases "?t = 0")
    case True
    have "\<not> P i" if "lo \<le> i" "i < p * 64 + sz" for i
      using zero_word_bits [OF True t, of "i - p * 64"] that lo sz by auto
    then have "scan P lo (p * 64 + sz) = p * 64 + sz" by (intro scan_none) auto
    with True show ?thesis by (simp add: found_first_def)
  next
    case False
    with ffs_word_scan [OF t False lo] show ?thesis by (simp add: found_first_def Let_def)
  qed
qed

lemma find_words_scan:
  "find_words addr p (p * 64) sz = scan (\<lambda>i. test_bit i addr) (p * 64) (p * 64 + sz)"
proof (induction sz arbitrary: p rule: less_induct)
  case (less sz)
  let ?P = "\<lambda>i. test_bit i addr"
  consider "64 \<le> sz" "addr p \<noteq> 0" | "64 \<le> sz" "addr p = 0" | "sz = 0" | "0 < sz" "sz < 64"
    by linarith
  then show ?case
  proof cases
    case 1
    have "scan ?P (p * 64) (p * 64 + sz) = p * 64 + ffs_word (addr p)"
      by (rule ffs_word_scan) (use 1 in \<open>auto simp: test_bit_word\<close>)
    with 1 show ?thesis by (simp add: find_words.simps)
  next
    case 2
    have "\<not> ?P i" if "p * 64 \<le> i" "i < (p + 1) * 64" for i
      using 2 that test_bit_word [of "i - p * 64" p addr] by auto
    then have "scan ?P (p * 64) (p * 64 + sz) = scan ?P ((p + 1) * 64) (p * 64 + sz)"
      by (intro scan_skip) (use 2 in auto)
    moreover have "p * 64 + sz = (p + 1) * 64 + (sz - 64)" using 2 by simp
    ultimately show ?thesis using 2 less.IH [of "sz - 64" "p + 1"]
      by (simp add: find_words.simps [of addr p] add.commute)
  next
    case 3
    then show ?thesis by (simp add: find_words.simps scan_def)
  next
    case 4
    then show ?thesis
      by (simp add: find_words.simps found_first_scan test_bit_word)
  qed
qed

lemma find_next_bit_scan: "find_next_bit addr sz offset = scan (\<lambda>i. test_bit i addr) offset sz"
proof -
  let ?P = "\<lambda>i. test_bit i addr"
  let ?p = "offset div 64" and ?o = "offset mod 64"
  let ?t = "addr ?p AND push_bit ?o (NOT 0)"
  have off: "offset = ?p * 64 + ?o" by simp
  then have res: "offset - ?o = ?p * 64" by linarith
  have t: "bit ?t i \<longleftrightarrow> offset \<le> ?p * 64 + i \<and> ?P (?p * 64 + i)" if "i < 64" for i
  proof -
    have "offset \<le> ?p * 64 + i \<longleftrightarrow> ?o \<le> i" using off by linarith
    with that show ?thesis by (auto simp: bit_simps test_bit_word)
  qed
  consider "sz \<le> offset" | "offset < sz" "?o = 0" | "offset < sz" "0 < ?o" "sz - ?p * 64 < 64"
    | "offset < sz" "0 < ?o" "64 \<le> sz - ?p * 64" "?t \<noteq> 0"
    | "offset < sz" "0 < ?o" "64 \<le> sz - ?p * 64" "?t = 0" by linarith
  then show ?thesis
  proof cases
    case 1
    then show ?thesis by (simp add: find_next_bit_def scan_def)
  next
    case 2
    with off have "?p * 64 = offset" by simp
    with 2 find_words_scan [of addr ?p "sz - offset"] show ?thesis
      by (simp add: find_next_bit_def)
  next
    case 3
    have "found_first ?t (sz - ?p * 64) (?p * 64) = scan ?P offset (?p * 64 + (sz - ?p * 64))"
      by (rule found_first_scan [OF t]) (use 3 off in auto)
    with 3 res show ?thesis by (simp add: find_next_bit_def Let_def)
  next
    case 4
    have "scan ?P offset sz = ?p * 64 + ffs_word ?t"
      by (rule ffs_word_scan) (use 4 t in auto)
    with 4 res show ?thesis by (simp add: find_next_bit_def Let_def)
  next
    case 5
    have "\<not> ?P i" if "offset \<le> i" "i < (?p + 1) * 64" for i
      using zero_word_bits [OF 5(4) t, of "i - ?p * 64"] that by auto
    then have "scan ?P offset sz = scan ?P ((?p + 1) * 64) sz"
      by (intro scan_skip) (use 5 in auto)
    moreover have "(?p + 1) * 64 + (sz - ?p * 64 - 64) = sz" using 5 by simp
    ultimately show ?thesis using 5 res find_words_scan [of addr "?p + 1" "sz - ?p * 64 - 64"]
      by (simp add: find_next_bit_def Let_def add.commute)
  qed
qed

text \<open>A search for a clear bit is a search for a set bit of the complement.\<close>

lemma low_mask: "k \<le> 64 \<Longrightarrow> drop_bit (64 - k) (NOT 0 :: u64) = mask k"
  by (rule bit_word_eqI) (simp add: bit_not_iff bit_drop_bit_eq bit_mask_iff)

lemma high_mask: "k \<le> 64 \<Longrightarrow> push_bit k (NOT 0 :: u64) = NOT (mask k)"
  by (rule bit_word_eqI) (simp add: bit_not_iff bit_push_bit_iff bit_mask_iff)

lemma not_mask_high: "k \<le> 64 \<Longrightarrow> NOT (drop_bit (64 - k) (NOT 0 :: u64)) = push_bit k (NOT 0)"
  by (simp only: low_mask high_mask)

lemma not_mask_low: "k \<le> 64 \<Longrightarrow> NOT (push_bit k (NOT 0 :: u64)) = drop_bit (64 - k) (NOT 0)"
  by (simp only: low_mask high_mask bit.double_compl)

lemma found_first_zero_complement:
  "sz < 64 \<Longrightarrow> found_first_zero tmp sz result = found_first (NOT tmp) sz result"
proof -
  assume "sz < 64"
  then have n: "NOT (tmp OR push_bit sz (NOT 0)) = NOT tmp AND drop_bit (64 - sz) (NOT 0)"
    by (simp only: bit.de_Morgan_disj not_mask_low less_imp_le)
  have "tmp OR push_bit sz (NOT 0) = NOT 0 \<longleftrightarrow> NOT (tmp OR push_bit sz (NOT 0)) = 0"
    by (metis bit.double_compl)
  then show ?thesis
    unfolding found_first_zero_def found_first_def ffz_def Let_def n BITS_PER_LONG_def by simp
qed

lemma find_zero_words_complement:
  "find_zero_words addr p result sz = find_words (\<lambda>i. NOT (addr i)) p result sz"
proof (induction addr p result sz rule: find_zero_words.induct)
  case (1 addr p result sz)
  note unfold = find_zero_words.simps [of addr p result sz] find_words.simps [of _ p result sz]
    ffz_def BITS_PER_LONG_def
  show ?case
  proof (cases "64 \<le> sz")
    case True
    then show ?thesis
      using 1 unfolding unfold by (cases "NOT (addr p) = 0") (simp_all only: if_True if_False simp_thms)
  next
    case False
    then have "found_first_zero (addr p) sz result = found_first (NOT (addr p)) sz result"
      by (intro found_first_zero_complement) simp
    with False show ?thesis unfolding unfold by (simp only: if_False)
  qed
qed

lemma find_next_zero_complement:
  "find_next_zero_bit addr sz offset = find_next_bit (\<lambda>i. NOT (addr i)) sz offset"
proof -
  have m: "NOT (addr p OR drop_bit (64 - offset mod 64) (NOT 0)) =
      NOT (addr p) AND push_bit (offset mod 64) (NOT 0)" for p
    using not_mask_high [of "offset mod 64"] by (simp only: bit.de_Morgan_disj)
  show ?thesis
    unfolding find_next_zero_bit_def find_next_bit_def Let_def ffz_def BITS_PER_LONG_def
      find_zero_words_complement m
    by (intro if_cong refl) (simp_all only: found_first_zero_complement m)
qed

lemma test_bit_complement: "test_bit i (\<lambda>j. NOT (addr j)) = (\<not> test_bit i addr)"
  by (simp add: test_bit_def bit_not_iff)

lemma find_next_zero_bit_scan:
  "find_next_zero_bit addr sz offset = scan (\<lambda>i. \<not> test_bit i addr) offset sz"
  by (simp add: find_next_zero_complement find_next_bit_scan test_bit_complement)

lemma find_first_bit_scan: "find_first_bit addr sz = scan (\<lambda>i. test_bit i addr) 0 sz"
  using find_words_scan [of addr 0 sz] by (simp add: find_first_bit_def)

lemma find_first_zero_bit_scan:
  "find_first_zero_bit addr sz = scan (\<lambda>i. \<not> test_bit i addr) 0 sz"
  using find_words_scan [of "\<lambda>i. NOT (addr i)" 0 sz]
  by (simp add: find_first_zero_bit_def find_zero_words_complement test_bit_complement)

text \<open>The search for the last set bit.\<close>

lemma fls_word_props:
  assumes "w \<noteq> 0"
  shows "fls_word w < 64" "bit w (fls_word w)" "\<And>i. fls_word w < i \<Longrightarrow> \<not> bit w i"
proof -
  have pos: "0 < unat w" using assms by (simp add: unat_gt_0)
  let ?k = "fls_nat (unat w) - 1"
  have k: "fls_nat (unat w) = Suc ?k" using pos by (simp add: fls_nat_pos)
  have up: "unat w < 2 ^ Suc ?k" using fls_nat_upper [of "unat w"] k by simp
  have lo: "2 ^ ?k \<le> unat w" by (rule fls_nat_lower [OF pos])
  show "fls_word w < 64"
    using fls64_le_64 [of w] k by (simp add: fls_word_def fls64_def)
  have "unat w div 2 ^ ?k = 1"
    by (rule div_nat_eqI) (use up lo in auto)
  then have "bit (unat w) ?k" by (simp add: bit_iff_odd)
  then show "bit w (fls_word w)" by (simp add: fls_word_def fls64_def bit_unsigned_iff)
  show "\<not> bit w i" if "fls_word w < i" for i
  proof -
    have "Suc ?k \<le> i" using that k by (simp add: fls_word_def fls64_def)
    then have "(2::nat) ^ Suc ?k \<le> 2 ^ i" by (intro power_increasing) auto
    then have "unat w < 2 ^ i" using up by linarith
    then have "\<not> bit (unat w) i" by (simp add: bit_iff_odd)
    then show ?thesis by (auto simp: bit_unsigned_iff dest: bit_imp_le_length)
  qed
qed

definition last_hit :: "(nat \<Rightarrow> bool) \<Rightarrow> nat \<Rightarrow> nat" where
  "last_hit P n = (case find P (rev [0..<n]) of None \<Rightarrow> n | Some i \<Rightarrow> i)"

lemma find_append: "find P (xs @ ys) = (case find P xs of None \<Rightarrow> find P ys | Some x \<Rightarrow> Some x)"
  by (induction xs) auto

lemma last_hit_eq:
  assumes "r < n" "P r" "\<And>i. r < i \<Longrightarrow> i < n \<Longrightarrow> \<not> P i"
  shows "last_hit P n = r"
proof -
  have "[0..<n] = [0..<r] @ r # [Suc r..<n]"
    using assms(1) by (metis le_add_same_cancel1 less_imp_add_positive upt_add_eq_append upt_conv_Cons
        zero_le less_add_same_cancel1)
  moreover have "find P (rev [Suc r..<n]) = None" using assms(3) by (auto simp: find_None_iff)
  ultimately show ?thesis using assms(2) by (simp add: last_hit_def find_append)
qed

lemma last_hit_none: "(\<And>i. i < n \<Longrightarrow> \<not> P i) \<Longrightarrow> last_hit P n = n"
proof -
  assume "\<And>i. i < n \<Longrightarrow> \<not> P i"
  then have "find P (rev [0..<n]) = None" by (auto simp: find_None_iff)
  then show ?thesis by (simp add: last_hit_def)
qed

lemma find_last_words_props:
  "(case find_last_words addr words of
      None \<Rightarrow> \<forall>i < words * 64. \<not> test_bit i addr
    | Some r \<Rightarrow> r < words * 64 \<and> test_bit r addr \<and> (\<forall>i. r < i \<and> i < words * 64 \<longrightarrow> \<not> test_bit i addr))"
proof (induction words)
  case (Suc words)
  note f = fls_word_props [of "addr words"]
  show ?case
  proof (cases "addr words = 0")
    case True
    have "\<not> test_bit i addr" if "words * 64 \<le> i" "i < Suc words * 64" for i
      using test_bit_word [of "i - words * 64" words addr] that True by auto
    with Suc True show ?thesis by (auto split: option.splits) (metis not_le add.commute)+
  next
    case False
    have "\<not> test_bit i addr" if "words * 64 + fls_word (addr words) < i" "i < Suc words * 64" for i
      using test_bit_word [of "i - words * 64" words addr] that f(3) [OF False, of "i - words * 64"] by auto
    with False f show ?thesis by (auto simp: test_bit_word)
  qed
qed simp

lemma find_last_bit_scan: "find_last_bit addr sz = last_hit (\<lambda>i. test_bit i addr) sz"
proof -
  let ?P = "\<lambda>i. test_bit i addr"
  let ?w = "sz div 64" and ?r = "sz mod 64"
  let ?t = "addr ?w AND drop_bit (64 - ?r) (NOT 0)"
  have sz: "sz = ?w * 64 + ?r" by simp
  have t: "bit ?t i \<longleftrightarrow> i < ?r \<and> ?P (?w * 64 + i)" if "i < 64" for i
    using that by (auto simp: bit_simps test_bit_word)
  show ?thesis
  proof (cases "?r \<noteq> 0 \<and> ?t \<noteq> 0")
    case True
    note f = fls_word_props [of ?t]
    have "last_hit ?P sz = ?w * 64 + fls_word ?t"
    proof (rule last_hit_eq)
      show "?w * 64 + fls_word ?t < sz" "?P (?w * 64 + fls_word ?t)"
        using f t True sz by (metis nat_add_left_cancel_less)+
      show "\<not> ?P i" if "?w * 64 + fls_word ?t < i" "i < sz" for i
      proof -
        have i: "i - ?w * 64 < ?r" "fls_word ?t < i - ?w * 64" "?w * 64 + (i - ?w * 64) = i"
          using that sz by linarith+
        then have "i - ?w * 64 < 64" by (meson less_trans mod_less_divisor zero_less_numeral)
        with i f(3) [of "i - ?w * 64"] t [of "i - ?w * 64"] True show ?thesis by simp
      qed
    qed
    with True show ?thesis by (simp add: find_last_bit_def Let_def)
  next
    case False
    have none: "\<not> ?P i" if "?w * 64 \<le> i" "i < sz" for i
    proof -
      have i: "i - ?w * 64 < ?r" "?w * 64 + (i - ?w * 64) = i" using that sz by linarith+
      then have "i - ?w * 64 < 64" by (meson less_trans mod_less_divisor zero_less_numeral)
      with i False t [of "i - ?w * 64"] show ?thesis by auto
    qed
    have "last_hit ?P sz = (case find_last_words addr ?w of None \<Rightarrow> sz | Some r \<Rightarrow> r)"
    proof (cases "find_last_words addr ?w")
      case None
      then show ?thesis using find_last_words_props [where addr = addr and words = ?w] none
        by (auto intro!: last_hit_none) (metis not_le)
    next
      case (Some r)
      then show ?thesis using find_last_words_props [where addr = addr and words = ?w] none sz
        by (auto intro!: last_hit_eq) (metis not_le)
    qed
    with False show ?thesis by (auto simp: find_last_bit_def Let_def)
  qed
qed

text \<open>C40: the word-at-a-time searches compute the same as a scan of the single bits: the first set or
  clear bit at or after the offset and below the size, and the last set bit, or the size when there is
  none. Bits beyond the size have no influence.\<close>

theorem find_bit_searches:
  "find_next_bit addr sz offset = scan (\<lambda>i. test_bit i addr) offset sz \<and>
   find_next_zero_bit addr sz offset = scan (\<lambda>i. \<not> test_bit i addr) offset sz \<and>
   find_first_bit addr sz = scan (\<lambda>i. test_bit i addr) 0 sz \<and>
   find_first_zero_bit addr sz = scan (\<lambda>i. \<not> test_bit i addr) 0 sz \<and>
   find_last_bit addr sz = last_hit (\<lambda>i. test_bit i addr) sz"
  by (simp only: find_next_bit_scan find_next_zero_bit_scan find_first_bit_scan find_first_zero_bit_scan
      find_last_bit_scan simp_thms)

end
