(* ===== verification/Kitten_Idspace.thy ===== *)
theory Kitten_Idspace
  imports Kitten_Kmem Kitten_Bitops
begin

text \<open>
  The id spaces of \<^verbatim>\<open>lib/idspace.c\<close>: a range of ids, a bit array with one bit per id and a
  cursor from which the next free id is searched. The record and its bit array are allocated from
  the kernel heap of \<^verbatim>\<open>Kitten_Kmem\<close>. An id space implements a finite set of ids in use: the
  locale \<^verbatim>\<open>id_allocator\<close> states that contract, derives what its clients rely on, and is
  interpreted on the functions of the file.

  The sizes are \<^verbatim>\<open>size_t\<close> in the code and \<^typ>\<open>nat\<close> here; they are at most
  \<open>2 ^ 32 - 1\<close> because \<^verbatim>\<open>max_id\<close> is not \<^verbatim>\<open>ANY_ID\<close>.
\<close>

section \<open>State and operations\<close>

type_synonym id_t = u32

definition ANY_ID :: id_t where "ANY_ID = - 1"
definition ERROR_ID :: id_t where "ERROR_ID = ANY_ID"

record idspace =
  min_id :: id_t
  max_id :: id_t
  spc_size :: nat
  ids_in_use :: nat
  spc_offset :: nat
  spc_bitmap :: bitmap
  spc_ptr :: u64
  bitmap_ptr :: u64

text \<open>\<^verbatim>\<open>sizeof(struct idspace)\<close>: the lock, two ids with padding, and four words.\<close>

definition sizeof_idspace :: u64 where "sizeof_idspace = 48"

definition calc_order :: "nat \<Rightarrow> u64" where
  "calc_order sz =
     (let pages = (sz + 2 ^ PAGE_ORDER * 8 - 1) div (2 ^ PAGE_ORDER * 8)
      in roundup_pow_of_two (of_nat pages))"

text \<open>The result is \<^term>\<open>None\<close> when the heap panics, and otherwise the new id space, if any,
  with the heap. The words of the bit array are what the allocated pages hold.\<close>

definition idspace_create :: "kmem_state \<Rightarrow> id_t \<Rightarrow> id_t \<Rightarrow> (idspace option \<times> kmem_state) option" where
  "idspace_create s lo hi =
     (if lo = ANY_ID \<or> hi = ANY_ID then Some (None, s)
      else if hi < lo then Some (None, s)
      else do {
        (spc, s) \<leftarrow> kmem_alloc s sizeof_idspace;
        if spc = 0 then Some (None, s)
        else do {
          let sz = unat (hi - lo + 1);
          (bm, s) \<leftarrow> kmem_get_pages s (calc_order sz);
          if bm = 0 then do {
            s \<leftarrow> kmem_free s spc;
            Some (None, s)
          } else
            Some (Some \<lparr>min_id = lo, max_id = hi, spc_size = sz, ids_in_use = 0, spc_offset = 0,
              spc_bitmap = (\<lambda>i. kmem_mem s (bm + of_nat (8 * i))), spc_ptr = spc, bitmap_ptr = bm\<rparr>, s)
        }
      })"

definition idspace_destroy :: "kmem_state \<Rightarrow> idspace \<Rightarrow> kmem_state option" where
  "idspace_destroy s spc = do {
     s \<leftarrow> kmem_free_pages s (bitmap_ptr spc) (calc_order (spc_size spc));
     kmem_free s (spc_ptr spc)
   }"

text \<open>The choice of a bit when any id will do: from the cursor to the end, then from the start to
  the cursor, and the cursor moves behind the bit.\<close>

definition pick_any :: "idspace \<Rightarrow> nat \<times> idspace" where
  "pick_any spc =
     (let n = find_next_zero_bit (spc_bitmap spc) (spc_size spc) (spc_offset spc);
          n = (if n = spc_size spc then find_next_zero_bit (spc_bitmap spc) (spc_offset spc) 0 else n)
      in (n, spc\<lparr>spc_offset := (if n + 1 = spc_size spc then 0 else n + 1)\<rparr>))"

definition idspace_alloc_id :: "idspace \<Rightarrow> id_t \<Rightarrow> id_t \<times> idspace" where
  "idspace_alloc_id spc request =
     (if spc_size spc = ids_in_use spc then (ERROR_ID, spc)
      else if request \<noteq> ANY_ID \<and> (request < min_id spc \<or> max_id spc < request) then (ERROR_ID, spc)
      else
        let (n, spc) = (if request \<noteq> ANY_ID then (unat (request - min_id spc), spc) else pick_any spc);
            (old, bm) = test_and_set_bit n (spc_bitmap spc);
            spc = spc\<lparr>spc_bitmap := bm\<rparr>
        in if old then (ERROR_ID, spc)
           else (of_nat n + min_id spc, spc\<lparr>ids_in_use := ids_in_use spc + 1\<rparr>))"

definition idspace_free_id :: "idspace \<Rightarrow> id_t \<Rightarrow> status \<times> idspace" where
  "idspace_free_id spc i =
     (if i = ANY_ID \<or> i < min_id spc \<or> max_id spc < i then (Err EINVAL, spc)
      else
        let (old, bm) = test_and_clear_bit (unat (i - min_id spc)) (spc_bitmap spc);
            spc = spc\<lparr>spc_bitmap := bm\<rparr>
        in if \<not> old then (Err EINVAL, spc)
           else (OK, spc\<lparr>ids_in_use := ids_in_use spc - 1\<rparr>))"

section \<open>The ids in use\<close>

definition id_range :: "idspace \<Rightarrow> id_t set" where
  "id_range spc = {min_id spc .. max_id spc}"

definition used_ids :: "idspace \<Rightarrow> id_t set" where
  "used_ids spc = {i \<in> id_range spc. test_bit (unat (i - min_id spc)) (spc_bitmap spc)}"

definition idspace_ok :: "idspace \<Rightarrow> bool" where
  "idspace_ok spc \<longleftrightarrow> min_id spc \<le> max_id spc \<and> max_id spc \<noteq> ANY_ID \<and>
     spc_size spc = unat (max_id spc) - unat (min_id spc) + 1 \<and>
     spc_offset spc < spc_size spc \<and> ids_in_use spc = card (used_ids spc)"

lemma unat32_sub: "b \<le> (a :: u32) \<Longrightarrow> unat (a - b) = unat a - unat b"
  by (simp add: unat_sub)

lemma idspace_okD:
  assumes "idspace_ok spc"
  shows "min_id spc \<le> max_id spc" "unat (max_id spc) < 2 ^ 32 - 1"
    "spc_size spc = unat (max_id spc) - unat (min_id spc) + 1" "spc_size spc < 2 ^ 32"
    "spc_offset spc < spc_size spc" "ids_in_use spc = card (used_ids spc)"
proof -
  have "unat (max_id spc) < 2 ^ 32" by (rule order_less_le_trans [OF unsigned_less]) simp
  moreover have "unat (max_id spc) \<noteq> 2 ^ 32 - 1"
  proof
    assume "unat (max_id spc) = 2 ^ 32 - 1"
    then have "max_id spc = ANY_ID"
      by (simp add: ANY_ID_def word_unat_eq_iff unsigned_minus_1_eq_mask mask_eq_exp_minus_1)
    with assms show False by (simp add: idspace_ok_def)
  qed
  ultimately show m: "unat (max_id spc) < 2 ^ 32 - 1" by linarith
  show "min_id spc \<le> max_id spc" "spc_offset spc < spc_size spc" "ids_in_use spc = card (used_ids spc)"
    and sz: "spc_size spc = unat (max_id spc) - unat (min_id spc) + 1"
    using assms by (auto simp: idspace_ok_def)
  show "spc_size spc < 2 ^ 32" using m unfolding sz by linarith
qed

text \<open>Ids and bits correspond.\<close>

definition bit_id :: "idspace \<Rightarrow> nat \<Rightarrow> id_t" where
  "bit_id spc n = of_nat n + min_id spc"

lemma bit_id_range:
  assumes "idspace_ok spc" "n < spc_size spc"
  shows "bit_id spc n \<in> id_range spc" "unat (bit_id spc n - min_id spc) = n" "bit_id spc n \<noteq> ANY_ID"
proof -
  note I = idspace_okD [OF assms(1)]
  have n: "unat (of_nat n :: u32) = n"
    using assms(2) I(4) by (simp add: unat_of_nat take_bit_nat_eq_self)
  have le: "unat (min_id spc) \<le> unat (max_id spc)" using I(1) by (simp add: word_le_nat_alt)
  have s: "unat (bit_id spc n) = n + unat (min_id spc)"
    using n assms(2) I(2,3) le by (simp add: bit_id_def unat_word_ariths)
  show "bit_id spc n \<in> id_range spc"
    using s assms(2) I(3) le by (simp add: id_range_def word_le_nat_alt)
  show "unat (bit_id spc n - min_id spc) = n"
    using s by (simp add: unat32_sub word_le_nat_alt)
  show "bit_id spc n \<noteq> ANY_ID"
    using s assms(2) I(2,3) le
    by (auto simp: ANY_ID_def word_unat_eq_iff unsigned_minus_1_eq_mask mask_eq_exp_minus_1)
qed

lemma id_bit_range:
  assumes "idspace_ok spc" "i \<in> id_range spc"
  shows "unat (i - min_id spc) < spc_size spc" "bit_id spc (unat (i - min_id spc)) = i" "i \<noteq> ANY_ID"
proof -
  note I = idspace_okD [OF assms(1)]
  have i: "unat (min_id spc) \<le> unat i" "unat i \<le> unat (max_id spc)" "min_id spc \<le> i"
    using assms(2) by (auto simp: id_range_def word_le_nat_alt)
  show "unat (i - min_id spc) < spc_size spc" using i I(3) by (simp add: unat32_sub)
  show "bit_id spc (unat (i - min_id spc)) = i" by (simp add: bit_id_def)
  show "i \<noteq> ANY_ID" using i I(2)
    by (auto simp: ANY_ID_def word_unat_eq_iff unsigned_minus_1_eq_mask mask_eq_exp_minus_1)
qed

lemma id_range_bits: "idspace_ok spc \<Longrightarrow> id_range spc = bit_id spc ` {..<spc_size spc}"
  using bit_id_range id_bit_range by (auto simp: image_iff) (metis lessThan_iff)

lemma bit_id_inj: "idspace_ok spc \<Longrightarrow> inj_on (bit_id spc) {..<spc_size spc}"
  by (rule inj_on_inverseI [where g = "\<lambda>i. unat (i - min_id spc)"]) (simp add: bit_id_range)

lemma card_id_range: "idspace_ok spc \<Longrightarrow> card (id_range spc) = spc_size spc"
  by (simp add: id_range_bits card_image bit_id_inj)

lemma used_subset: "used_ids spc \<subseteq> id_range spc"
  by (auto simp: used_ids_def)

lemma full_iff:
  assumes "idspace_ok spc"
  shows "spc_size spc = ids_in_use spc \<longleftrightarrow> used_ids spc = id_range spc"
proof -
  have "finite (id_range spc)" by simp
  then have "card (used_ids spc) = card (id_range spc) \<longleftrightarrow> used_ids spc = id_range spc"
    using card_subset_eq [OF _ used_subset] by metis
  then show ?thesis using idspace_okD(6) [OF assms] card_id_range [OF assms] by auto
qed

lemma bit_used: "idspace_ok spc \<Longrightarrow> n < spc_size spc \<Longrightarrow>
    bit_id spc n \<in> used_ids spc \<longleftrightarrow> test_bit n (spc_bitmap spc)"
  by (simp add: used_ids_def bit_id_range)

section \<open>Allocation\<close>

text \<open>The search finds the first free bit in the cyclic order that starts at the cursor.\<close>

definition cyclic_free :: "idspace \<Rightarrow> nat \<Rightarrow> bool" where
  "cyclic_free spc n \<longleftrightarrow> n < spc_size spc \<and> \<not> test_bit n (spc_bitmap spc) \<and>
     (if spc_offset spc \<le> n
      then \<forall>k. spc_offset spc \<le> k \<and> k < n \<longrightarrow> test_bit k (spc_bitmap spc)
      else \<forall>k < spc_size spc. k < n \<or> spc_offset spc \<le> k \<longrightarrow> test_bit k (spc_bitmap spc))"

lemma free_bit_ex:
  assumes "idspace_ok spc" "used_ids spc \<noteq> id_range spc"
  obtains n where "n < spc_size spc" "\<not> test_bit n (spc_bitmap spc)"
proof -
  obtain i where i: "i \<in> id_range spc" "i \<notin> used_ids spc"
    using assms(2) used_subset by blast
  with id_bit_range [OF assms(1) i(1)] bit_used [OF assms(1)] show thesis by (metis that)
qed

lemma pick_any_free:
  assumes ok: "idspace_ok spc" and nfull: "used_ids spc \<noteq> id_range spc"
  obtains n where "pick_any spc = (n, spc\<lparr>spc_offset := (if n + 1 = spc_size spc then 0 else n + 1)\<rparr>)"
    "cyclic_free spc n"
proof -
  let ?m = "spc_bitmap spc" and ?sz = "spc_size spc" and ?o = "spc_offset spc"
  let ?Z = "\<lambda>i. \<not> test_bit i ?m"
  note o = idspace_okD(5) [OF ok]
  show thesis
  proof (rule scan_cases [of ?Z ?o ?sz])
    assume none: "scan ?Z ?o ?sz = ?sz" "\<And>i. ?o \<le> i \<Longrightarrow> i < ?sz \<Longrightarrow> \<not> ?Z i"
    from ok nfull obtain f where f: "f < ?sz" "?Z f" by (rule free_bit_ex)
    then have fo: "f < ?o" using none(2) [of f] by (meson not_le)
    show thesis
    proof (rule scan_cases [of ?Z 0 ?o])
      assume "\<And>i. 0 \<le> i \<Longrightarrow> i < ?o \<Longrightarrow> \<not> ?Z i"
      with f fo show thesis by simp
    next
      let ?n = "scan ?Z 0 ?o"
      assume h: "?n < ?o" "?Z ?n" "\<And>i. 0 \<le> i \<Longrightarrow> i < ?n \<Longrightarrow> \<not> ?Z i"
      have "cyclic_free spc ?n" using h o none(2) by (auto simp: cyclic_free_def)
      moreover have "fst (pick_any spc) = ?n"
        using none(1) by (simp add: pick_any_def Let_def find_next_zero_bit_scan)
      ultimately show thesis by (intro that [of ?n]) (auto simp: pick_any_def Let_def)
    qed
  next
    let ?n = "scan ?Z ?o ?sz"
    assume h: "?o \<le> ?n" "?n < ?sz" "?Z ?n" "\<And>i. ?o \<le> i \<Longrightarrow> i < ?n \<Longrightarrow> \<not> ?Z i"
    have "cyclic_free spc ?n" using h by (auto simp: cyclic_free_def)
    moreover have "fst (pick_any spc) = ?n"
      using h(2) by (simp add: pick_any_def Let_def find_next_zero_bit_scan)
    ultimately show thesis by (intro that [of ?n]) (auto simp: pick_any_def Let_def)
  qed
qed

lemma used_set_bit:
  assumes "idspace_ok spc" "n < spc_size spc"
  shows "used_ids (spc\<lparr>spc_bitmap := set_bit_at n (spc_bitmap spc)\<rparr>) = insert (bit_id spc n) (used_ids spc)"
proof -
  have "unat (i - min_id spc) = n \<longleftrightarrow> i = bit_id spc n" if "i \<in> id_range spc" for i
    using bit_id_range(2) [OF assms] id_bit_range(2) [OF assms(1) that] by metis
  then show ?thesis
    using bit_id_range(1) [OF assms] by (auto simp: used_ids_def id_range_def)
qed

lemma used_clear_bit:
  assumes "idspace_ok spc" "n < spc_size spc"
  shows "used_ids (spc\<lparr>spc_bitmap := clear_bit n (spc_bitmap spc)\<rparr>) = used_ids spc - {bit_id spc n}"
proof -
  have "unat (i - min_id spc) = n \<longleftrightarrow> i = bit_id spc n" if "i \<in> id_range spc" for i
    using bit_id_range(2) [OF assms] id_bit_range(2) [OF assms(1) that] by metis
  then show ?thesis by (auto simp: used_ids_def id_range_def)
qed

lemma used_offset [simp]: "used_ids (spc\<lparr>spc_offset := k\<rparr>) = used_ids spc"
  "used_ids (spc\<lparr>ids_in_use := k\<rparr>) = used_ids spc"
  by (simp_all add: used_ids_def id_range_def)

lemma id_range_update [simp]: "id_range (spc\<lparr>spc_offset := k\<rparr>) = id_range spc"
  "id_range (spc\<lparr>ids_in_use := j\<rparr>) = id_range spc" "id_range (spc\<lparr>spc_bitmap := m\<rparr>) = id_range spc"
  by (simp_all add: id_range_def)

text \<open>Taking a free bit, whatever the cursor becomes.\<close>

lemma take_bit_step:
  assumes ok: "idspace_ok spc" and n: "n < spc_size spc" "\<not> test_bit n (spc_bitmap spc)"
    and k: "k < spc_size spc"
    and spc': "spc' = spc\<lparr>spc_offset := k, spc_bitmap := set_bit_at n (spc_bitmap spc),
      ids_in_use := ids_in_use spc + 1\<rparr>"
  shows "idspace_ok spc'" "used_ids spc' = insert (bit_id spc n) (used_ids spc)"
    "id_range spc' = id_range spc" "bit_id spc n \<notin> used_ids spc"
proof -
  show fresh: "bit_id spc n \<notin> used_ids spc" using bit_used [OF ok n(1)] n(2) by simp
  have "used_ids spc' = used_ids (spc\<lparr>spc_bitmap := set_bit_at n (spc_bitmap spc)\<rparr>)"
    by (simp add: spc' used_ids_def id_range_def)
  then show u: "used_ids spc' = insert (bit_id spc n) (used_ids spc)"
    by (simp add: used_set_bit [OF ok n(1)])
  have "finite (used_ids spc)" by (rule finite_subset [OF used_subset]) simp
  with u fresh have "card (used_ids spc') = ids_in_use spc + 1"
    using idspace_okD(6) [OF ok] by simp
  then show "idspace_ok spc'" using ok k by (simp add: idspace_ok_def spc')
  show "id_range spc' = id_range spc" by (simp add: spc' id_range_def)
qed

lemma alloc_any_free:
  assumes ok: "idspace_ok spc" and nfull: "used_ids spc \<noteq> id_range spc"
  obtains n spc' where "idspace_alloc_id spc ANY_ID = (bit_id spc n, spc')" "cyclic_free spc n"
    "idspace_ok spc'" "used_ids spc' = insert (bit_id spc n) (used_ids spc)" "id_range spc' = id_range spc"
    "bit_id spc n \<in> id_range spc - used_ids spc"
    "spc_offset spc' = (n + 1) mod spc_size spc"
proof -
  from ok nfull obtain n where
    p: "pick_any spc = (n, spc\<lparr>spc_offset := (if n + 1 = spc_size spc then 0 else n + 1)\<rparr>)"
    and c: "cyclic_free spc n" by (rule pick_any_free)
  let ?k = "if n + 1 = spc_size spc then 0 else n + 1"
  have n: "n < spc_size spc" "\<not> test_bit n (spc_bitmap spc)" using c by (auto simp: cyclic_free_def)
  then have k: "?k < spc_size spc" "?k = (n + 1) mod spc_size spc" by auto
  define spc' where "spc' = spc\<lparr>spc_offset := ?k, spc_bitmap := set_bit_at n (spc_bitmap spc),
      ids_in_use := ids_in_use spc + 1\<rparr>"
  note st = take_bit_step [OF ok n k(1) spc'_def]
  have "spc_size spc \<noteq> ids_in_use spc" using full_iff [OF ok] nfull by simp
  then have "idspace_alloc_id spc ANY_ID = (bit_id spc n, spc')"
    using n(2) by (simp add: idspace_alloc_id_def p test_and_set_bit_def bit_id_def spc'_def)
  then show thesis
    by (rule that) (use c st bit_id_range(1) [OF ok n(1)] k(2) in \<open>auto simp: spc'_def\<close>)
qed

lemma alloc_full: "idspace_ok spc \<Longrightarrow> used_ids spc = id_range spc \<Longrightarrow> idspace_alloc_id spc i = (ERROR_ID, spc)"
  using full_iff by (simp add: idspace_alloc_id_def)

lemma alloc_request_free:
  assumes ok: "idspace_ok spc" and i: "i \<in> id_range spc - used_ids spc"
  obtains spc' where "idspace_alloc_id spc i = (i, spc')" "idspace_ok spc'"
    "used_ids spc' = insert i (used_ids spc)" "id_range spc' = id_range spc"
proof -
  let ?n = "unat (i - min_id spc)"
  have r: "i \<in> id_range spc" using i by simp
  note b = id_bit_range [OF ok r]
  have nt: "\<not> test_bit ?n (spc_bitmap spc)" using i by (auto simp: used_ids_def)
  define spc' where "spc' = spc\<lparr>spc_offset := spc_offset spc,
    spc_bitmap := set_bit_at ?n (spc_bitmap spc), ids_in_use := ids_in_use spc + 1\<rparr>"
  note st = take_bit_step [OF ok b(1) nt idspace_okD(5) [OF ok] spc'_def]
  have "spc_size spc \<noteq> ids_in_use spc" using full_iff [OF ok] i by auto
  moreover have "\<not> i < min_id spc" "\<not> max_id spc < i" using r by (auto simp: id_range_def)
  ultimately have "idspace_alloc_id spc i = (i, spc')"
    using nt b by (simp add: idspace_alloc_id_def test_and_set_bit_def spc'_def)
  then show thesis by (rule that) (use st b(2) in auto)
qed

lemma set_bit_idem: "test_bit n m \<Longrightarrow> set_bit_at n m = m"
proof (rule ext, rule bit_word_eqI)
  fix a b
  assume "test_bit n m"
  then show "bit (set_bit_at n m a) b = bit (m a) b"
    by (auto simp: set_bit_at_def test_bit_def bit_simps)
qed

lemma clear_bit_idem: "\<not> test_bit n m \<Longrightarrow> clear_bit n m = m"
proof (rule ext, rule bit_word_eqI)
  fix a b
  assume "\<not> test_bit n m"
  then show "bit (clear_bit n m a) b = bit (m a) b"
    by (auto simp: clear_bit_def test_bit_def bit_simps dest: bit_imp_le_length)
qed

lemma alloc_request_refused:
  assumes "idspace_ok spc" "i \<noteq> ANY_ID" "i \<notin> id_range spc - used_ids spc"
  shows "idspace_alloc_id spc i = (ERROR_ID, spc)"
proof (cases "i \<in> id_range spc")
  case True
  then have "test_bit (unat (i - min_id spc)) (spc_bitmap spc)"
    using assms(3) by (simp add: used_ids_def)
  then show ?thesis
    using assms(2) True by (simp add: idspace_alloc_id_def test_and_set_bit_def set_bit_idem id_range_def)
next
  case False
  then have "i < min_id spc \<or> max_id spc < i" by (auto simp: id_range_def not_le)
  with assms(2) show ?thesis by (simp add: idspace_alloc_id_def)
qed

lemma free_used_id:
  assumes ok: "idspace_ok spc" and i: "i \<in> used_ids spc"
  obtains spc' where "idspace_free_id spc i = (OK, spc')" "idspace_ok spc'"
    "used_ids spc' = used_ids spc - {i}" "id_range spc' = id_range spc"
proof -
  let ?n = "unat (i - min_id spc)"
  have r: "i \<in> id_range spc" and t: "test_bit ?n (spc_bitmap spc)" using i by (auto simp: used_ids_def)
  note b = id_bit_range [OF ok r]
  define spc' where "spc' = spc\<lparr>spc_bitmap := clear_bit ?n (spc_bitmap spc),
    ids_in_use := ids_in_use spc - 1\<rparr>"
  have u: "used_ids spc' = used_ids spc - {i}"
    using used_clear_bit [OF ok b(1)] b(2) by (simp add: spc'_def)
  have "finite (used_ids spc)" by (rule finite_subset [OF used_subset]) simp
  with u i have "card (used_ids spc') = ids_in_use spc - 1"
    using idspace_okD(6) [OF ok] by simp
  then have "idspace_ok spc'" using ok by (simp add: idspace_ok_def spc'_def)
  moreover have "\<not> i < min_id spc" "\<not> max_id spc < i" using r by (auto simp: id_range_def)
  then have "idspace_free_id spc i = (OK, spc')"
    using t b(3) by (simp add: idspace_free_id_def test_and_clear_bit_def spc'_def)
  ultimately show thesis using u by (intro that [of spc']) (auto simp: spc'_def)
qed

lemma free_unused_id:
  assumes "idspace_ok spc" "i \<notin> used_ids spc"
  shows "idspace_free_id spc i = (Err EINVAL, spc)"
proof (cases "i \<in> id_range spc")
  case True
  then have "\<not> test_bit (unat (i - min_id spc)) (spc_bitmap spc)"
    using assms(2) by (simp add: used_ids_def)
  then show ?thesis
    using True by (simp add: idspace_free_id_def test_and_clear_bit_def clear_bit_idem id_range_def)
next
  case False
  then show ?thesis by (auto simp: idspace_free_id_def id_range_def not_le)
qed

section \<open>The contract of an id allocator\<close>

text \<open>What the clients of an id space rely on: the tables of address spaces, tasks and resources
  take ids from one and give them back.\<close>

locale id_allocator =
  fixes inv :: "'s \<Rightarrow> bool" and ids used :: "'s \<Rightarrow> 'i set" and any err :: 'i
    and alloc :: "'s \<Rightarrow> 'i \<Rightarrow> 'i \<times> 's" and release :: "'s \<Rightarrow> 'i \<Rightarrow> status \<times> 's"
  assumes finite_ids: "inv s \<Longrightarrow> finite (ids s)"
    and used_ids: "inv s \<Longrightarrow> used s \<subseteq> ids s"
    and err_not_id: "inv s \<Longrightarrow> err \<notin> ids s"
    and take_any: "inv s \<Longrightarrow> used s \<noteq> ids s \<Longrightarrow>
      \<exists>i s'. alloc s any = (i, s') \<and> inv s' \<and> i \<in> ids s - used s \<and>
        used s' = insert i (used s) \<and> ids s' = ids s"
    and take_full: "inv s \<Longrightarrow> used s = ids s \<Longrightarrow> alloc s i = (err, s)"
    and take_one: "inv s \<Longrightarrow> i \<in> ids s - used s \<Longrightarrow>
      \<exists>s'. alloc s i = (i, s') \<and> inv s' \<and> used s' = insert i (used s) \<and> ids s' = ids s"
    and take_refused: "inv s \<Longrightarrow> i \<noteq> any \<Longrightarrow> i \<notin> ids s - used s \<Longrightarrow> alloc s i = (err, s)"
    and give_back: "inv s \<Longrightarrow> i \<in> used s \<Longrightarrow>
      \<exists>s'. release s i = (OK, s') \<and> inv s' \<and> used s' = used s - {i} \<and> ids s' = ids s"
    and give_refused: "inv s \<Longrightarrow> i \<notin> used s \<Longrightarrow> release s i = (Err EINVAL, s)"

text \<open>A run of \<^verbatim>\<open>n\<close> requests for any id, with the answers in order.\<close>

fun take_many :: "('s \<Rightarrow> 'i \<Rightarrow> 'i \<times> 's) \<Rightarrow> 'i \<Rightarrow> nat \<Rightarrow> 's \<Rightarrow> 'i list \<times> 's" where
  "take_many alloc any 0 s = ([], s)"
| "take_many alloc any (Suc n) s =
     (let (i, s) = alloc s any; (xs, s) = take_many alloc any n s in (i # xs, s))"

context id_allocator
begin

lemma take_many_distinct:
  assumes "inv s" "n \<le> card (ids s) - card (used s)"
  shows "\<exists>xs s'. take_many alloc any n s = (xs, s') \<and> inv s' \<and> length xs = n \<and> distinct xs \<and>
    set xs \<subseteq> ids s - used s \<and> used s' = used s \<union> set xs \<and> ids s' = ids s"
  using assms
proof (induction n arbitrary: s)
  case (Suc n)
  have fin: "finite (ids s)" "finite (used s)"
    using finite_ids used_ids Suc.prems(1) by (auto intro: finite_subset)
  have "used s \<noteq> ids s" using Suc.prems(2) by auto
  then obtain i s1 where s1: "alloc s any = (i, s1)" "inv s1" "i \<in> ids s - used s"
    "used s1 = insert i (used s)" "ids s1 = ids s" using take_any Suc.prems(1) by blast
  have "n \<le> card (ids s1) - card (used s1)" using Suc.prems(2) s1 fin by simp
  then obtain xs s2 where s2: "take_many alloc any n s1 = (xs, s2)" "inv s2" "length xs = n" "distinct xs"
    "set xs \<subseteq> ids s1 - used s1" "used s2 = used s1 \<union> set xs" "ids s2 = ids s1"
    using Suc.IH [OF s1(2)] by blast
  then show ?case using s1 by auto
qed simp

lemma exhausted:
  assumes "inv s" "n = card (ids s) - card (used s)" "take_many alloc any n s = (xs, s')"
  shows "used s' = ids s'" "alloc s' any = (err, s')"
proof -
  from take_many_distinct [of s n] assms have m: "inv s'" "length xs = n" "distinct xs"
    "set xs \<subseteq> ids s - used s" "used s' = used s \<union> set xs" "ids s' = ids s" by auto
  have fin: "finite (ids s)" "finite (used s)"
    using finite_ids used_ids assms(1) by (auto intro: finite_subset)
  have "used s \<inter> set xs = {}" using m(4) by blast
  then have "card (used s') = card (used s) + n"
    using m(2,3,5) fin by (simp add: card_Un_disjoint distinct_card)
  also have "\<dots> = card (ids s)" using assms(2) card_mono [OF fin(1) used_ids [OF assms(1)]] by simp
  finally show u: "used s' = ids s'"
    using card_subset_eq [OF _ used_ids [OF m(1)]] fin(1) m(6) by simp
  then show "alloc s' any = (err, s')" using take_full m(1) by blast
qed

text \<open>Liveness: whoever gives an id back makes the next request succeed.\<close>

lemma release_then_take:
  assumes "inv s" "i \<in> used s"
  shows "\<exists>s' j s''. release s i = (OK, s') \<and> alloc s' any = (j, s'') \<and> j \<noteq> err \<and> j \<notin> used s'"
proof -
  obtain s' where s': "release s i = (OK, s')" "inv s'" "used s' = used s - {i}" "ids s' = ids s"
    using give_back assms by blast
  then have "used s' \<noteq> ids s'" using assms used_ids by blast
  then obtain j s'' where "alloc s' any = (j, s'')" "j \<in> ids s' - used s'" using take_any s'(2) by blast
  with s' err_not_id [OF s'(2)] show ?thesis by (metis DiffE)
qed

end

interpretation idspace: id_allocator idspace_ok id_range used_ids ANY_ID ERROR_ID idspace_alloc_id idspace_free_id
proof
  fix spc i
  assume ok: "idspace_ok spc"
  show "finite (id_range spc)" "used_ids spc \<subseteq> id_range spc" by (simp_all add: used_subset)
  show "ERROR_ID \<notin> id_range spc" using id_bit_range(3) [OF ok] by (auto simp: ERROR_ID_def)
  show "\<exists>i s'. idspace_alloc_id spc ANY_ID = (i, s') \<and> idspace_ok s' \<and> i \<in> id_range spc - used_ids spc \<and>
      used_ids s' = insert i (used_ids spc) \<and> id_range s' = id_range spc" if "used_ids spc \<noteq> id_range spc"
    using alloc_any_free [OF ok that] by metis
  show "idspace_alloc_id spc i = (ERROR_ID, spc)" if "used_ids spc = id_range spc"
    by (rule alloc_full [OF ok that])
  show "\<exists>s'. idspace_alloc_id spc i = (i, s') \<and> idspace_ok s' \<and>
      used_ids s' = insert i (used_ids spc) \<and> id_range s' = id_range spc" if "i \<in> id_range spc - used_ids spc"
    using alloc_request_free [OF ok that] by metis
  show "idspace_alloc_id spc i = (ERROR_ID, spc)" if "i \<noteq> ANY_ID" "i \<notin> id_range spc - used_ids spc"
    by (rule alloc_request_refused [OF ok that])
  show "\<exists>s'. idspace_free_id spc i = (OK, s') \<and> idspace_ok s' \<and> used_ids s' = used_ids spc - {i} \<and>
      id_range s' = id_range spc" if "i \<in> used_ids spc"
    using free_used_id [OF ok that] by metis
  show "idspace_free_id spc i = (Err EINVAL, spc)" if "i \<notin> used_ids spc"
    by (rule free_unused_id [OF ok that])
qed

text \<open>C35: an id space implements a set of ids in use. A request for any id takes the first id that
  is free in the cyclic order starting at the cursor, moves the cursor behind it and fails only if
  every id is in use; a request for a particular id takes exactly that id if it lies in the range
  and is free, and otherwise changes nothing; freeing succeeds exactly on an id in use and removes
  it. The invariant, including the count of ids in use, is kept on every path.\<close>

theorem idspace_refines_set:
  assumes "idspace_ok spc"
  shows "(case idspace_alloc_id spc request of (i, spc') \<Rightarrow>
      idspace_ok spc' \<and> id_range spc' = id_range spc \<and>
      (if request = ANY_ID \<and> used_ids spc \<noteq> id_range spc then
         i \<in> id_range spc - used_ids spc \<and> used_ids spc' = insert i (used_ids spc) \<and>
         cyclic_free spc (unat (i - min_id spc)) \<and>
         spc_offset spc' = (unat (i - min_id spc) + 1) mod spc_size spc
       else if request \<in> id_range spc - used_ids spc then
         i = request \<and> used_ids spc' = insert request (used_ids spc)
       else i = ERROR_ID \<and> spc' = spc)) \<and>
    (case idspace_free_id spc j of (st, spc') \<Rightarrow>
      idspace_ok spc' \<and> id_range spc' = id_range spc \<and> used_ids spc' = used_ids spc - {j} \<and>
      (st = OK) = (j \<in> used_ids spc) \<and> (st \<noteq> OK \<longrightarrow> spc' = spc))"
proof
  note R = id_bit_range(3) [OF assms]
  show "case idspace_alloc_id spc request of (i, spc') \<Rightarrow>
      idspace_ok spc' \<and> id_range spc' = id_range spc \<and>
      (if request = ANY_ID \<and> used_ids spc \<noteq> id_range spc then
         i \<in> id_range spc - used_ids spc \<and> used_ids spc' = insert i (used_ids spc) \<and>
         cyclic_free spc (unat (i - min_id spc)) \<and>
         spc_offset spc' = (unat (i - min_id spc) + 1) mod spc_size spc
       else if request \<in> id_range spc - used_ids spc then
         i = request \<and> used_ids spc' = insert request (used_ids spc)
       else i = ERROR_ID \<and> spc' = spc)"
  proof (cases "request = ANY_ID \<and> used_ids spc \<noteq> id_range spc")
    case True
    then obtain n spc' where "idspace_alloc_id spc ANY_ID = (bit_id spc n, spc')" "cyclic_free spc n"
      "idspace_ok spc'" "used_ids spc' = insert (bit_id spc n) (used_ids spc)" "id_range spc' = id_range spc"
      "bit_id spc n \<in> id_range spc - used_ids spc" "spc_offset spc' = (n + 1) mod spc_size spc"
      using alloc_any_free [OF assms] by metis
    with True bit_id_range(2) [OF assms, of n] show ?thesis by (simp add: cyclic_free_def)
  next
    case False
    show ?thesis
    proof (cases "request \<in> id_range spc - used_ids spc")
      case True
      then obtain spc' where "idspace_alloc_id spc request = (request, spc')" "idspace_ok spc'"
        "used_ids spc' = insert request (used_ids spc)" "id_range spc' = id_range spc"
        by (rule alloc_request_free [OF assms])
      with True R [of request] show ?thesis by simp
    next
      case no: False
      have "idspace_alloc_id spc request = (ERROR_ID, spc)"
        using alloc_full [OF assms] alloc_request_refused [OF assms _ no] False by blast
      with False no assms show ?thesis by auto
    qed
  qed
  show "case idspace_free_id spc j of (st, spc') \<Rightarrow>
      idspace_ok spc' \<and> id_range spc' = id_range spc \<and> used_ids spc' = used_ids spc - {j} \<and>
      (st = OK) = (j \<in> used_ids spc) \<and> (st \<noteq> OK \<longrightarrow> spc' = spc)"
  proof (cases "j \<in> used_ids spc")
    case True
    then obtain spc' where "idspace_free_id spc j = (OK, spc')" "idspace_ok spc'"
      "used_ids spc' = used_ids spc - {j}" "id_range spc' = id_range spc"
      by (rule free_used_id [OF assms])
    with True show ?thesis by simp
  next
    case False
    with free_unused_id [OF assms False] assms show ?thesis by simp
  qed
qed

text \<open>C36: an id space hands out every id once. As many requests as there are free ids return
  distinct free ids and leave none; the next request fails, and giving any id in use back makes a
  request succeed again.\<close>

theorem idspace_exhaustion:
  assumes "idspace_ok spc" "n = card (id_range spc) - card (used_ids spc)"
    and "take_many idspace_alloc_id ANY_ID n spc = (xs, spc')"
  shows "distinct xs \<and> set xs = id_range spc - used_ids spc \<and> ERROR_ID \<notin> set xs \<and>
    idspace_alloc_id spc' ANY_ID = (ERROR_ID, spc') \<and>
    (\<forall>i \<in> id_range spc. \<exists>spc1 spc2. idspace_free_id spc' i = (OK, spc1) \<and>
       idspace_alloc_id spc1 ANY_ID = (i, spc2))"
proof -
  obtain "idspace_ok spc'" "distinct xs" and sub: "set xs \<subseteq> id_range spc - used_ids spc"
    and u: "used_ids spc' = used_ids spc \<union> set xs" "id_range spc' = id_range spc"
    using idspace.take_many_distinct [OF assms(1), of n] assms(2,3) by auto
  note ok' = \<open>idspace_ok spc'\<close>
  note ex = idspace.exhausted [OF assms]
  have all: "set xs = id_range spc - used_ids spc" using ex(1) u sub by blast
  have "\<exists>spc1 spc2. idspace_free_id spc' i = (OK, spc1) \<and> idspace_alloc_id spc1 ANY_ID = (i, spc2)"
    if i: "i \<in> id_range spc" for i
  proof -
    have "i \<in> used_ids spc'" using i ex(1) u(2) by simp
    then obtain spc1 where s1: "idspace_free_id spc' i = (OK, spc1)" "idspace_ok spc1"
      "used_ids spc1 = used_ids spc' - {i}" "id_range spc1 = id_range spc'"
      using idspace.give_back [OF ok'] by blast
    have "used_ids spc1 \<noteq> id_range spc1" using s1 i u(2) by auto
    then obtain j spc2 where "idspace_alloc_id spc1 ANY_ID = (j, spc2)" "j \<in> id_range spc1 - used_ids spc1"
      using idspace.take_any [OF s1(2)] by blast
    moreover from this have "j = i" using s1 ex(1) by auto
    ultimately show ?thesis using s1(1) by blast
  qed
  with all ex(2) \<open>distinct xs\<close> idspace.err_not_id [OF assms(1)] show ?thesis by auto
qed

section \<open>Creation\<close>

lemma calc_order_bounds:
  assumes "0 < sz" "sz < 2 ^ 32"
  shows "sz \<le> 8 * 2 ^ (unat (calc_order sz) + 12)" "0 < unat (calc_order sz)"
    "(sz + 32767) div 32768 \<le> unat (calc_order sz)"
    "unat (calc_order sz) = 2 ^ fls_nat ((sz + 32767) div 32768 - 1)"
proof -
  define q where "q = (sz + 32767) div 32768"
  have p: "1 \<le> q" "q \<le> 131072" using assms by (auto simp: q_def)
  have u: "unat (of_nat q :: u64) = q" using p(2) by (intro unat64_of_nat) simp
  have c: "calc_order sz = roundup_pow_of_two (of_nat q)"
    by (simp add: calc_order_def PAGE_ORDER_def q_def add.commute)
  have r: "unat (calc_order sz) = 2 ^ fls_nat (q - 1)" "q \<le> unat (calc_order sz)"
    using unat_roundup_pow_of_two [of "of_nat q"] p unfolding c u by simp_all
  show "(sz + 32767) div 32768 \<le> unat (calc_order sz)" "0 < unat (calc_order sz)"
    "unat (calc_order sz) = 2 ^ fls_nat ((sz + 32767) div 32768 - 1)"
    unfolding q_def [symmetric] using r p by simp_all
  have "sz \<le> q * 32768" unfolding q_def by linarith
  also have "\<dots> \<le> 2 ^ q * 32768" using less_exp [of q] by (intro mult_right_mono) auto
  also have "\<dots> \<le> 2 ^ unat (calc_order sz) * 32768" using r(2) by (intro mult_right_mono power_increasing) auto
  finally show "sz \<le> 8 * 2 ^ (unat (calc_order sz) + 12)" by (simp add: power_add)
qed

lemma no_bits_set: "(\<And>i. i \<le> n div 64 \<Longrightarrow> m i = 0) \<Longrightarrow> j \<le> n \<Longrightarrow> \<not> test_bit j m"
  by (simp add: test_bit_def div_le_mono)

text \<open>A fresh page block read as a bit array of at most as many bits as it holds is empty.\<close>

lemma fresh_bitmap:
  assumes inv: "kmem_inv s K P" and b: "(p, k) \<in> P" "12 \<le> k"
    and zero: "\<And>x. x \<in> rng (p, k) \<Longrightarrow> kword s x = 0"
    and sz: "sz \<le> 8 * 2 ^ k" and j: "j < sz"
  shows "\<not> test_bit j (\<lambda>i. kmem_mem s (blk_addr (kmem_pool s) p + of_nat (8 * i)))"
proof -
  let ?i = "j div 64"
  have k: "(2::nat) ^ k = 8 * 2 ^ (k - 3)" using b(2) power_add [of "2::nat" 3 "k - 3"] by simp
  with sz j have "?i < 2 ^ (k - 3)" by (simp add: less_mult_imp_div_less)
  then have "8 * ?i < 2 ^ k" using k by simp
  then have "p + 8 * ?i \<in> rng (p, k)" by (simp add: rng_def)
  moreover have "blk_addr (kmem_pool s) p + of_nat (8 * ?i) = blk_addr (kmem_pool s) (p + 8 * ?i)"
    by (simp add: blk_addr_def)
  ultimately show ?thesis using zero by (simp add: test_bit_def kword_def)
qed

lemma id_count:
  assumes "lo \<le> hi" "hi \<noteq> ANY_ID"
  shows "unat (hi - lo + 1) = unat hi - unat lo + 1" "unat hi - unat lo + 1 < 2 ^ 32"
proof -
  have "unat hi \<noteq> 2 ^ 32 - 1"
    using assms(2) by (auto simp: ANY_ID_def word_unat_eq_iff unsigned_minus_1_eq_mask mask_eq_exp_minus_1)
  moreover have "unat hi < 2 ^ 32" by (rule order_less_le_trans [OF unsigned_less]) simp
  ultimately have hi: "unat hi + 1 < 2 ^ 32" by linarith
  with unat32_sub [OF assms(1)] show "unat (hi - lo + 1) = unat hi - unat lo + 1"
    by (simp add: unat_word_ariths)
  show "unat hi - unat lo + 1 < 2 ^ 32" using hi by linarith
qed

lemma new_idspace_ok:
  assumes "lo \<le> hi" "hi \<noteq> ANY_ID" "\<And>j. j < unat hi - unat lo + 1 \<Longrightarrow> \<not> test_bit j m"
    and spc_def: "spc = \<lparr>min_id = lo, max_id = hi, spc_size = unat (hi - lo + 1), ids_in_use = 0, spc_offset = 0,
      spc_bitmap = m, spc_ptr = a, bitmap_ptr = b\<rparr>"
  shows "idspace_ok spc" "used_ids spc = {}" "id_range spc = {lo .. hi}"
    "spc_size spc = unat hi - unat lo + 1"
proof -
  note n = id_count(1) [OF assms(1,2)]
  show e: "used_ids spc = {}"
  proof -
    have "unat (i - lo) < unat hi - unat lo + 1" if "lo \<le> i" "i \<le> hi" for i
      using that by (simp add: unat32_sub word_le_nat_alt)
    then show ?thesis using assms(3) by (auto simp: used_ids_def id_range_def spc_def)
  qed
  show "spc_size spc = unat hi - unat lo + 1" "id_range spc = {lo .. hi}"
    by (simp_all add: spc_def n id_range_def)
  show "idspace_ok spc" using assms(1,2) e n by (simp add: idspace_ok_def spc_def)
qed

text \<open>The two heap blocks an id space lives in, next to the blocks of everybody else.\<close>

definition owns_blocks :: "kmem_state \<Rightarrow> idspace \<Rightarrow> block set \<Rightarrow> block set \<Rightarrow> bool" where
  "owns_blocks s spc K P \<longleftrightarrow> (\<exists>p k q. (p, k) \<notin> K \<union> P \<and>
     (q, unat (calc_order (spc_size spc)) + 12) \<notin> K \<union> P \<and>
     kmem_inv s (insert (p, k) K) (insert (q, unat (calc_order (spc_size spc)) + 12) P) \<and>
     spc_ptr spc = blk_addr (kmem_pool s) p + 16 \<and> unat sizeof_idspace + 16 \<le> 2 ^ k \<and>
     bitmap_ptr spc = blk_addr (kmem_pool s) q \<and>
     spc_size spc \<le> 8 * 2 ^ (unat (calc_order (spc_size spc)) + 12))"

lemma idspace_destroy_owned:
  assumes "owns_blocks s spc K P"
  obtains s' where "idspace_destroy s spc = Some s'" "kmem_inv s' K P"
proof -
  let ?l = "unat (calc_order (spc_size spc)) + 12"
  from assms obtain p k q where inv: "kmem_inv s (insert (p, k) K) (insert (q, ?l) P)"
    and ptr: "spc_ptr spc = blk_addr (kmem_pool s) p + 16" "bitmap_ptr spc = blk_addr (kmem_pool s) q"
    and new: "insert (q, ?l) P - {(q, ?l)} = P" "insert (p, k) K - {(p, k)} = K"
    by (auto simp: owns_blocks_def)
  from inv obtain s1 where s1: "kmem_free_pages s (bitmap_ptr spc) (calc_order (spc_size spc)) = Some s1"
    "kmem_inv s1 (insert (p, k) K) (insert (q, ?l) P - {(q, ?l)})"
    "blk_addr (kmem_pool s1) = blk_addr (kmem_pool s)"
    unfolding ptr by (rule kmem_free_pages_held [where p = q]) auto
  then have "kmem_inv s1 (insert (p, k) K) P" by (simp only: new)
  then obtain s2 where "kmem_free s1 (spc_ptr spc) = Some s2" "kmem_inv s2 (insert (p, k) K - {(p, k)}) P"
    unfolding ptr s1(3) [symmetric] by (rule kmem_free_held [where p = p and k = k]) auto
  with s1(1) show thesis by (intro that [of s2]) (simp_all only: new idspace_destroy_def bind.bind_lunit)
qed

lemma idspace_create_built:
  assumes lohi: "lo \<le> hi" "hi \<noteq> ANY_ID" and o: "oo = unat (calc_order (unat hi - unat lo + 1)) + 12"
    and blocks: "(p, k) \<notin> K \<union> P" "(q, oo) \<notin> K \<union> P" "kmem_inv s (insert (p, k) K) (insert (q, oo) P)"
    and zero: "\<And>x. x \<in> rng (q, oo) \<Longrightarrow> kword s x = 0" and k: "unat sizeof_idspace + 16 \<le> 2 ^ k"
    and spc: "spc = \<lparr>min_id = lo, max_id = hi, spc_size = unat (hi - lo + 1), ids_in_use = 0, spc_offset = 0,
      spc_bitmap = (\<lambda>i. kmem_mem s (blk_addr (kmem_pool s) q + of_nat (8 * i))),
      spc_ptr = blk_addr (kmem_pool s) p + 16, bitmap_ptr = blk_addr (kmem_pool s) q\<rparr>"
  shows "idspace_ok spc" "used_ids spc = {}" "id_range spc = {lo .. hi}" "owns_blocks s spc K P"
proof -
  have cap: "unat hi - unat lo + 1 \<le> 8 * 2 ^ oo"
    unfolding o by (rule calc_order_bounds(1) [OF _ id_count(2) [OF lohi]]) simp
  have clear: "\<not> test_bit j (\<lambda>i. kmem_mem s (blk_addr (kmem_pool s) q + of_nat (8 * i)))"
    if "j < unat hi - unat lo + 1" for j
    using fresh_bitmap [OF blocks(3) _ _ _ cap that, of q] zero o by simp
  show "idspace_ok spc" "used_ids spc = {}" "id_range spc = {lo .. hi}"
    using new_idspace_ok [OF lohi _ spc] clear by blast+
  have "spc_size spc = unat hi - unat lo + 1" using id_count(1) [OF lohi] by (simp add: spc)
  with blocks cap k o show "owns_blocks s spc K P" unfolding owns_blocks_def
    by (intro exI [of _ p] exI [of _ k] exI [of _ q]) (simp add: spc)
qed

text \<open>C37: \<^verbatim>\<open>idspace_create\<close> on a heap whose pool holds the two blocks it asks for returns an
  id space of exactly the requested range with no id in use, in two live heap blocks of its own, the
  second one large enough for a bit per id; or it returns \<^verbatim>\<open>NULL\<close>, for a bad range or for lack
  of memory, and holds no memory. It never panics, and \<^verbatim>\<open>idspace_destroy\<close> returns both
  blocks.\<close>

theorem idspace_create_correct:
  assumes inv: "kmem_inv s K P" and fits: "6 \<le> pool_order (kmem_pool s)"
    and ord: "unat (calc_order (unat hi - unat lo + 1)) + 12 \<le> pool_order (kmem_pool s)"
  shows "\<exists>r s'. idspace_create s lo hi = Some (r, s') \<and>
    (case r of
       None \<Rightarrow> kmem_inv s' K P
     | Some spc \<Rightarrow> lo \<le> hi \<and> hi \<noteq> ANY_ID \<and> idspace_ok spc \<and> used_ids spc = {} \<and>
         id_range spc = {lo .. hi} \<and> owns_blocks s' spc K P \<and>
         (\<exists>s''. idspace_destroy s' spc = Some s'' \<and> kmem_inv s'' K P))"
proof (cases "lo = ANY_ID \<or> hi = ANY_ID \<or> hi < lo")
  case True
  then have "idspace_create s lo hi = Some (None, s)" by (auto simp: idspace_create_def)
  with inv show ?thesis by simp
next
  case False
  then have lohi: "lo \<le> hi" "hi \<noteq> ANY_ID" "lo \<noteq> ANY_ID" by auto
  note sz = id_count(1) [OF lohi(1,2)]
  let ?o = "calc_order (unat hi - unat lo + 1)" and ?k = "kmem_order sizeof_idspace"
  have "unat sizeof_idspace + 16 \<le> 2 ^ pool_order (kmem_pool s)"
    using power_increasing [OF fits, of "2::nat"] by (simp add: sizeof_idspace_def)
  with inv show ?thesis
  proof (cases rule: kmem_alloc_cases)
    case fail
    then have "idspace_create s lo hi = Some (None, s)" using lohi by (simp add: idspace_create_def)
    with inv show ?thesis by simp
  next
    case (block p s1)
    have nz1: "blk_addr (kmem_pool s) p + 16 \<noteq> 0"
      using held_nonnull(2) [OF block(4), of p ?k] unfolding block(10) by simp
    have "unat ?o + 12 \<le> pool_order (kmem_pool s1)" using ord block(9) by simp
    with block(4) show ?thesis
    proof (cases rule: kmem_get_pages_cases)
      case fail
      from block(4) obtain s2 where s2: "kmem_free s1 (blk_addr (kmem_pool s) p + 16) = Some s2"
        "kmem_inv s2 (insert (p, ?k) K - {(p, ?k)}) P"
        unfolding block(10) [symmetric] by (rule kmem_free_held [where p = p and k = ?k]) auto
      then have "idspace_create s lo hi = Some (None, s2)"
        using fail block(1) nz1 lohi sz by (simp add: idspace_create_def)
      with s2(2) block(3) show ?thesis by simp
    next
      case pages: (block q s2)
      have nz2: "blk_addr (kmem_pool s2) q \<noteq> 0" using held_nonnull(1) [OF pages(4), of q "unat ?o + 12"] by simp
      obtain spc where spc: "idspace_create s lo hi = Some (Some spc, s2)" "spc = \<lparr>min_id = lo, max_id = hi,
          spc_size = unat (hi - lo + 1), ids_in_use = 0, spc_offset = 0,
          spc_bitmap = (\<lambda>i. kmem_mem s2 (blk_addr (kmem_pool s2) q + of_nat (8 * i))),
          spc_ptr = blk_addr (kmem_pool s2) p + 16, bitmap_ptr = blk_addr (kmem_pool s2) q\<rparr>"
        using pages(1) block(1) nz1 nz2 lohi sz by (simp add: idspace_create_def pages(9) block(10))
      have "(q, unat ?o + 12) \<notin> K \<union> P" using pages(3) by simp
      note built = idspace_create_built [OF lohi(1,2) refl block(3) this pages(4) _ block(2) spc(2)]
      then have "owns_blocks s2 spc K P" using pages(7) by blast
      moreover from this obtain s3 where "idspace_destroy s2 spc = Some s3" "kmem_inv s3 K P"
        by (rule idspace_destroy_owned)
      ultimately show ?thesis using built(1-3) pages(7) spc(1) lohi(1,2) by auto
    qed
  qed
qed

text \<open>\<^verbatim>\<open>calc_order\<close> returns a number of pages where an order is wanted: an id space of more
  than \<open>2 ^ 20\<close> ids asks for \<open>2 ^ 44\<close> bytes or more.\<close>

lemma calc_order_is_pages:
  assumes "2 ^ 20 < sz" "sz < 2 ^ 32"
  shows "32 \<le> unat (calc_order sz)"
proof -
  have "32 \<le> (sz + 32767) div 32768" using assms(1) by (simp add: less_eq_div_iff_mult_less_eq)
  also have "\<dots> \<le> unat (calc_order sz)" by (rule calc_order_bounds(3)) (use assms in auto)
  finally show ?thesis .
qed

section \<open>Examples\<close>

definition three_ids :: idspace where
  "three_ids = \<lparr>min_id = 7, max_id = 9, spc_size = 3, ids_in_use = 1, spc_offset = 2,
     spc_bitmap = (\<lambda>i. if i = 0 then 4 else 0), spc_ptr = 65552, bitmap_ptr = 131072\<rparr>"

lemma three_ids_used: "used_ids three_ids = {9}" "id_range three_ids = {7, 8, 9}"
proof -
  show r: "id_range three_ids = {7, 8, 9}"
  proof -
    have "i = 7 \<or> i = 8 \<or> i = 9" if "7 \<le> i" "i \<le> 9" for i :: u32
    proof -
      have "unat i = 7 \<or> unat i = 8 \<or> unat i = 9" using that by (auto simp: word_le_nat_alt)
      then show ?thesis by (simp add: word_unat_eq_iff)
    qed
    then show ?thesis by (auto simp: id_range_def three_ids_def) metis
  qed
  have "{i \<in> {7, 8, 9 :: u32}. B i} = {9}" if "\<not> B 7" "\<not> B 8" "B 9" for B using that by auto
  then show "used_ids three_ids = {9}" unfolding used_ids_def r
    by (simp add: three_ids_def test_bit_def)
qed

lemma three_ids_ok: "idspace_ok three_ids"
proof -
  have "ids_in_use three_ids = card (used_ids three_ids)"
    unfolding three_ids_used by (simp add: three_ids_def)
  moreover have "min_id three_ids \<le> max_id three_ids" "max_id three_ids \<noteq> ANY_ID"
    by (simp_all add: three_ids_def ANY_ID_def)
  moreover have 
    "spc_size three_ids = unat (max_id three_ids) - unat (min_id three_ids) + 1" "spc_offset three_ids < spc_size three_ids"
    by (simp_all add: three_ids_def)
  ultimately show ?thesis unfolding idspace_ok_def by blast
qed

theorem idspace_refines_set_witness:
  "fst (idspace_alloc_id three_ids ANY_ID) \<in> {7, 8} \<and> idspace_ok (snd (idspace_alloc_id three_ids ANY_ID)) \<and>
   fst (idspace_free_id three_ids 9) = OK"
  using idspace_refines_set [OF three_ids_ok, of ANY_ID 9] three_ids_used
  by (auto split: prod.splits)

theorem idspace_exhaustion_witness:
  "distinct (fst (take_many idspace_alloc_id ANY_ID 2 three_ids)) \<and>
   set (fst (take_many idspace_alloc_id ANY_ID 2 three_ids)) = {7, 8} \<and>
   fst (idspace_alloc_id (snd (take_many idspace_alloc_id ANY_ID 2 three_ids)) ANY_ID) = ERROR_ID"
proof -
  have "2 = card (id_range three_ids) - card (used_ids three_ids)" by (simp add: three_ids_used)
  note ex = idspace_exhaustion [OF three_ids_ok this prod.collapse [symmetric]]
  have "{7, 8, 9} - {9} = {7, 8 :: u32}" by auto
  then show ?thesis using ex unfolding three_ids_used by (metis fst_conv)
qed

lemma calc_order_small: "calc_order 100 = 1"
  by (simp add: calc_order_def PAGE_ORDER_def) (simp add: roundup_pow_of_two_def fls_long_def fls64_def)

lemma small_idspace_steps:
  "map_option fst (kmem_alloc small_heap sizeof_idspace) = Some 65552"
  "map_option fst (Option.bind (kmem_alloc small_heap sizeof_idspace) (\<lambda>(a, s). kmem_get_pages s 1)) = Some 73728"
  by code_simp+
theorem idspace_create_correct_witness:
  "\<exists>spc s'. idspace_create small_heap 1 100 = Some (Some spc, s') \<and> idspace_ok spc \<and> id_range spc = {1..100}"
proof -
  have "\<exists>r s'. idspace_create small_heap 1 100 = Some (Some r, s')"
    using small_idspace_steps by (auto simp: idspace_create_def ANY_ID_def calc_order_small)
  then show ?thesis
    using idspace_create_correct [OF small_heap_inv, of 100 1]
    by (auto simp: small_heap_geometry calc_order_small)
qed

end
