(* ===== verification/Kitten_Htable.thy ===== *)
theory Kitten_Htable
  imports Kitten_Idspace
begin

text \<open>
  The chained hash tables of \<^verbatim>\<open>lib/htable.c\<close> with the multiplicative hash of
  \<^verbatim>\<open>include/lwk/hash.h\<close>. An object is known by its address; \<^verbatim>\<open>obj2key\<close> reads the key
  stored in it at \<^verbatim>\<open>obj_key_offset\<close>, and the chain of a bucket is the list of the objects whose
  \<^verbatim>\<open>hlist_node\<close>s are linked there. The conversions \<^verbatim>\<open>obj2node\<close> and \<^verbatim>\<open>node2obj\<close>
  add and subtract the same offset, so that an object stands for its node.

  A table implements a finite map from keys to objects. The locale \<^verbatim>\<open>keyed_table\<close> states
  that contract and is interpreted on the functions of the file.
\<close>

section \<open>Hashing\<close>

definition GOLDEN_RATIO_PRIME_32 :: u32 where "GOLDEN_RATIO_PRIME_32 = 0x9e370001"
definition GOLDEN_RATIO_PRIME_64 :: u64 where "GOLDEN_RATIO_PRIME_64 = 0x9e37fffffffc0001"

text \<open>The shift \<^verbatim>\<open>hash >> (64 - bits)\<close> is defined for 1 to 64 bits; tables are created with
  orders in that range.\<close>

definition hash_64 :: "u64 \<Rightarrow> nat \<Rightarrow> u64" where
  "hash_64 val bits =
     (let hash = val; n = hash;
          n = push_bit 18 n; hash = hash - n;
          n = push_bit 33 n; hash = hash - n;
          n = push_bit 3 n; hash = hash + n;
          n = push_bit 3 n; hash = hash - n;
          n = push_bit 4 n; hash = hash + n;
          n = push_bit 2 n; hash = hash + n
      in drop_bit (64 - bits) hash)"

definition hash_32 :: "u32 \<Rightarrow> nat \<Rightarrow> u32" where
  "hash_32 val bits = drop_bit (32 - bits) (val * GOLDEN_RATIO_PRIME_32)"

definition hash_long :: "u64 \<Rightarrow> nat \<Rightarrow> u64" where
  "hash_long val bits = hash_64 val bits"

definition htable_id_hash :: "id_t \<Rightarrow> nat \<Rightarrow> u64" where
  "htable_id_hash i order = hash_long (ucast i) order"

definition htable_id_key_compare :: "id_t \<Rightarrow> id_t \<Rightarrow> int" where
  "htable_id_key_compare id1 id2 = (if id1 < id2 then - 1 else if id1 > id2 then 1 else 0)"

section \<open>Tables\<close>

record ('k, 'o) htable =
  ht_hash :: "'k \<Rightarrow> nat \<Rightarrow> u64"
  key_compare :: "'k \<Rightarrow> 'k \<Rightarrow> int"
  obj2key :: "'o \<Rightarrow> 'k"
  num_entries :: nat
  ht_order :: nat
  tbl :: "nat \<Rightarrow> 'o list"
  ht_ptr :: u64

definition key2head :: "('k, 'o) htable \<Rightarrow> 'k \<Rightarrow> nat" where
  "key2head ht key = unat (ht_hash ht key (ht_order ht))"

definition obj2head :: "('k, 'o) htable \<Rightarrow> 'o \<Rightarrow> nat" where
  "obj2head ht obj = key2head ht (obj2key ht obj)"

text \<open>\<^verbatim>\<open>sizeof(struct htable)\<close>; \<^verbatim>\<open>1 << order\<close> is an \<^verbatim>\<open>int\<close>. The memory
  \<^verbatim>\<open>kmem_alloc\<close> returns is zero, which makes every chain empty. \<^verbatim>\<open>NULL\<close> function
  pointers are \<^term>\<open>None\<close>.\<close>

definition sizeof_htable :: u64 where "sizeof_htable = 48"

definition htable_create ::
    "kmem_state \<Rightarrow> nat \<Rightarrow> ('o \<Rightarrow> 'k) \<Rightarrow> ('k \<Rightarrow> nat \<Rightarrow> u64) option \<Rightarrow> ('k \<Rightarrow> 'k \<Rightarrow> int) option \<Rightarrow>
     (('k, 'o) htable option \<times> kmem_state) option" where
  "htable_create s order key hash compare =
     (case (hash, compare) of
        (Some h, Some c) \<Rightarrow> do {
          (ht, s) \<leftarrow> kmem_alloc s (sizeof_htable + signed_take_bit 31 (push_bit order 1) * 8);
          if ht = 0 then Some (None, s)
          else Some (Some \<lparr>ht_hash = h, key_compare = c, obj2key = key, num_entries = 0, ht_order = order,
                      tbl = (\<lambda>_. []), ht_ptr = ht\<rparr>, s)
        }
      | _ \<Rightarrow> Some (None, s))"

definition htable_destroy :: "kmem_state \<Rightarrow> ('k, 'o) htable \<Rightarrow> (status \<times> kmem_state) option" where
  "htable_destroy s ht =
     (if num_entries ht \<noteq> 0 then Some (Err EEXIST, s)
      else do { s \<leftarrow> kmem_free s (ht_ptr ht); Some (OK, s) })"

definition htable_add :: "('k, 'o) htable \<Rightarrow> 'o \<Rightarrow> ('k, 'o) htable" where
  "htable_add ht obj =
     (let i = obj2head ht obj
      in ht\<lparr>tbl := (tbl ht)(i := obj # tbl ht i), num_entries := num_entries ht + 1\<rparr>)"

fun chain_del :: "'o \<Rightarrow> 'o list \<Rightarrow> 'o list option" where
  "chain_del obj [] = None"
| "chain_del obj (node # nodes) =
     (if obj = node then Some nodes else map_option ((#) node) (chain_del obj nodes))"

definition htable_del :: "('k, 'o) htable \<Rightarrow> 'o \<Rightarrow> status \<times> ('k, 'o) htable" where
  "htable_del ht obj =
     (let i = obj2head ht obj
      in case chain_del obj (tbl ht i) of
           Some nodes \<Rightarrow> (OK, ht\<lparr>tbl := (tbl ht)(i := nodes), num_entries := num_entries ht - 1\<rparr>)
         | None \<Rightarrow> (Err ENOENT, ht))"

fun chain_lookup :: "('k, 'o) htable \<Rightarrow> 'k \<Rightarrow> 'o list \<Rightarrow> 'o option" where
  "chain_lookup ht key [] = None"
| "chain_lookup ht key (node # nodes) =
     (if key_compare ht key (obj2key ht node) = 0 then Some node else chain_lookup ht key nodes)"

definition htable_lookup :: "('k, 'o) htable \<Rightarrow> 'k \<Rightarrow> 'o option" where
  "htable_lookup ht key = chain_lookup ht key (tbl ht (key2head ht key))"

definition htable_empty :: "('k, 'o) htable \<Rightarrow> bool" where
  "htable_empty ht \<longleftrightarrow> num_entries ht = 0"

section \<open>Iteration\<close>

text \<open>The node of an iterator is the rest of its chain, from the node on; \<^term>\<open>[]\<close> is
  \<^verbatim>\<open>NULL\<close>.\<close>

record ('k, 'o) htable_iter =
  iter_ht :: "('k, 'o) htable"
  iter_node :: "'o list"
  iter_index :: nat

definition htable_iter_init :: "('k, 'o) htable \<Rightarrow> ('k, 'o) htable_iter" where
  "htable_iter_init ht = \<lparr>iter_ht = ht, iter_node = [], iter_index = 0\<rparr>"

function next_bucket :: "('k, 'o) htable_iter \<Rightarrow> 'o option \<times> ('k, 'o) htable_iter" where
  "next_bucket iter =
     (if iter_index iter < 2 ^ ht_order (iter_ht iter) then
        let iter = iter\<lparr>iter_node := tbl (iter_ht iter) (iter_index iter)\<rparr>
        in case iter_node iter of
             [] \<Rightarrow> next_bucket (iter\<lparr>iter_index := iter_index iter + 1\<rparr>)
           | obj # _ \<Rightarrow> (Some obj, iter)
      else (None, iter))"
  by auto
termination
  by (relation "measure (\<lambda>iter. 2 ^ ht_order (iter_ht iter) - iter_index iter)") auto

declare next_bucket.simps [simp del]

definition htable_next :: "('k, 'o) htable_iter \<Rightarrow> 'o option \<times> ('k, 'o) htable_iter" where
  "htable_next iter =
     (case iter_node iter of
        node # obj # rest \<Rightarrow> (Some obj, iter\<lparr>iter_node := obj # rest\<rparr>)
      | [node] \<Rightarrow> next_bucket (iter\<lparr>iter_index := iter_index iter + 1\<rparr>)
      | [] \<Rightarrow> next_bucket iter)"

text \<open>The loop \<^verbatim>\<open>while ((obj = htable_next(&iter))) ...\<close> of the documentation, which
  collects the objects it sees; \<^term>\<open>None\<close> if it has not ended within the fuel.\<close>

fun htable_walk :: "nat \<Rightarrow> ('k, 'o) htable_iter \<Rightarrow> 'o list option" where
  "htable_walk 0 iter = None"
| "htable_walk (Suc fuel) iter =
     (case htable_next iter of
        (None, _) \<Rightarrow> Some []
      | (Some obj, iter) \<Rightarrow> map_option ((#) obj) (htable_walk fuel iter))"

section \<open>Properties of the hash\<close>

lemma hash_64_prime: "hash_64 val bits = drop_bit (64 - bits) (val * GOLDEN_RATIO_PRIME_64)"
proof -
  have "val * GOLDEN_RATIO_PRIME_64 =
    val - val * 2 ^ 18 - val * 2 ^ 51 + val * 2 ^ 54 - val * 2 ^ 57 + val * 2 ^ 61 + val * 2 ^ 63"
    unfolding GOLDEN_RATIO_PRIME_64_def by (simp add: algebra_simps)
  then show ?thesis by (simp add: hash_64_def Let_def push_bit_eq_mult mult.assoc)
qed

lemma drop_bit_bound: "bits \<le> 64 \<Longrightarrow> unat (drop_bit (64 - bits) (w :: u64)) < 2 ^ bits"
proof -
  assume b: "bits \<le> 64"
  have "unat w < 2 ^ (64 - bits) * 2 ^ bits" using unat64_less [of w] b by (simp flip: power_add)
  then show ?thesis
    by (simp only: unat_drop_bit_eq) (simp add: drop_bit_eq_div less_mult_imp_div_less mult.commute)
qed

lemma htable_id_hash_bound: "order \<le> 64 \<Longrightarrow> unat (htable_id_hash i order) < 2 ^ order"
  by (simp add: htable_id_hash_def hash_long_def hash_64_prime drop_bit_bound)

lemma htable_id_key_compare_0 [simp]: "htable_id_key_compare a b = 0 \<longleftrightarrow> a = b"
  by (auto simp: htable_id_key_compare_def)

section \<open>Invariant and contents\<close>

definition ht_objs :: "('k, 'o) htable \<Rightarrow> 'o list" where
  "ht_objs ht = concat (map (tbl ht) [0..<2 ^ ht_order ht])"

definition ht_ok :: "('k, 'o) htable \<Rightarrow> bool" where
  "ht_ok ht \<longleftrightarrow> 0 < ht_order ht \<and> ht_order ht < 31 \<and>
     (\<forall>key. key2head ht key < 2 ^ ht_order ht) \<and>
     (\<forall>a b. key_compare ht a b = 0 \<longleftrightarrow> a = b) \<and>
     (\<forall>i. \<forall>obj \<in> set (tbl ht i). obj2head ht obj = i) \<and>
     (\<forall>i. distinct (tbl ht i)) \<and> num_entries ht = length (ht_objs ht)"

definition ht_unique :: "('k, 'o) htable \<Rightarrow> bool" where
  "ht_unique ht \<longleftrightarrow> inj_on (obj2key ht) (set (ht_objs ht))"

lemma ht_okD:
  assumes "ht_ok ht"
  shows "key2head ht key < 2 ^ ht_order ht" "key_compare ht a b = 0 \<longleftrightarrow> a = b"
    "obj \<in> set (tbl ht i) \<Longrightarrow> obj2head ht obj = i" "distinct (tbl ht i)"
    "num_entries ht = length (ht_objs ht)" "ht_order ht < 31"
  using assms by (auto simp: ht_ok_def)

lemma obj_in_bucket:
  assumes "ht_ok ht" shows "obj \<in> set (ht_objs ht) \<longleftrightarrow> obj \<in> set (tbl ht (obj2head ht obj))"
proof
  assume "obj \<in> set (ht_objs ht)"
  then obtain i where "obj \<in> set (tbl ht i)" by (auto simp: ht_objs_def)
  with ht_okD(3) [OF assms this] show "obj \<in> set (tbl ht (obj2head ht obj))" by simp
next
  assume "obj \<in> set (tbl ht (obj2head ht obj))"
  moreover have "obj2head ht obj < 2 ^ ht_order ht"
    using ht_okD(1) [OF assms] by (simp add: obj2head_def)
  ultimately show "obj \<in> set (ht_objs ht)" by (auto simp: ht_objs_def)
qed

lemma distinct_ht_objs:
  assumes "ht_ok ht" shows "distinct (ht_objs ht)"
proof -
  have "distinct (concat (map (tbl ht) [0..<n]))" for n
  proof (induction n)
    case (Suc n)
    have "set (concat (map (tbl ht) [0..<n])) \<inter> set (tbl ht n) = {}"
      by (auto dest!: ht_okD(3) [OF assms])
    with Suc ht_okD(4) [OF assms] show ?case by simp
  qed simp
  then show ?thesis by (simp add: ht_objs_def)
qed

text \<open>Replacing one bucket.\<close>

lemma concat_upd:
  "i < n \<Longrightarrow> length (concat (map (f(i := xs)) [0..<n])) + length (f i) =
     length (concat (map f [0..<n])) + length xs"
proof (induction n)
  case (Suc n)
  have "map (f(n := xs)) [0..<n] = map f [0..<n]" by simp
  with Suc show ?case by (cases "i = n") (auto simp del: fun_upd_apply simp: fun_upd_same fun_upd_other)
qed simp

lemma objs_set: "set (ht_objs ht) = (\<Union>i < 2 ^ ht_order ht. set (tbl ht i))"
  by (auto simp: ht_objs_def)

lemma chain_del_props:
  "distinct xs \<Longrightarrow> (case chain_del obj xs of
      None \<Rightarrow> obj \<notin> set xs
    | Some ys \<Rightarrow> obj \<in> set xs \<and> set ys = set xs - {obj} \<and> distinct ys \<and> Suc (length ys) = length xs)"
  by (induction xs) (auto split: option.splits)

lemma update_bucket:
  assumes ok: "ht_ok ht" and i: "i < 2 ^ ht_order ht"
    and xs: "distinct xs" "\<And>obj. obj \<in> set xs \<Longrightarrow> obj2head ht obj = i"
    and n: "n + length (tbl ht i) = num_entries ht + length xs"
    and ht': "ht' = ht\<lparr>tbl := (tbl ht)(i := xs), num_entries := n\<rparr>"
  shows "ht_ok ht'" "set (ht_objs ht') = (set (ht_objs ht) - set (tbl ht i)) \<union> set xs"
    "obj2key ht' = obj2key ht" "key2head ht' = key2head ht"
proof -
  show key: "obj2key ht' = obj2key ht" and head: "key2head ht' = key2head ht"
    by (auto simp: ht' key2head_def)
  have len: "length (ht_objs ht') + length (tbl ht i) = length (ht_objs ht) + length xs"
    using concat_upd [OF i, of "tbl ht" xs] by (simp add: ht_objs_def ht')
  have oh: "obj2head ht' = obj2head ht" by (simp add: fun_eq_iff obj2head_def key head)
  show "ht_ok ht'"
    unfolding ht_ok_def oh head
    using ok xs len n by (auto simp: ht_ok_def ht')
  have "set (tbl ht j) \<inter> set (tbl ht i) = {}" if "j \<noteq> i" for j
    using ht_okD(3) [OF ok] that by blast
  then show "set (ht_objs ht') = (set (ht_objs ht) - set (tbl ht i)) \<union> set xs"
    using i unfolding objs_set by (auto simp: ht' split: if_splits) blast+
qed

lemma htable_add_ok:
  assumes ok: "ht_ok ht" and new: "obj \<notin> set (ht_objs ht)"
  shows "ht_ok (htable_add ht obj)" "set (ht_objs (htable_add ht obj)) = insert obj (set (ht_objs ht))"
    "obj2key (htable_add ht obj) = obj2key ht" "key2head (htable_add ht obj) = key2head ht"
proof -
  let ?i = "obj2head ht obj"
  have i: "?i < 2 ^ ht_order ht" using ht_okD(1) [OF ok] by (simp add: obj2head_def)
  have "obj \<notin> set (tbl ht ?i)" using new obj_in_bucket [OF ok] by simp
  then have "distinct (obj # tbl ht ?i)" "\<And>x. x \<in> set (obj # tbl ht ?i) \<Longrightarrow> obj2head ht x = ?i"
    using ht_okD(3,4) [OF ok] by auto
  note u = update_bucket [OF ok i this, of "num_entries ht + 1" "htable_add ht obj"]
  have "set (tbl ht ?i) \<subseteq> set (ht_objs ht)" using i unfolding objs_set by auto
  with u show "ht_ok (htable_add ht obj)" "set (ht_objs (htable_add ht obj)) = insert obj (set (ht_objs ht))"
    "obj2key (htable_add ht obj) = obj2key ht" "key2head (htable_add ht obj) = key2head ht"
    by (auto simp: htable_add_def Let_def)
qed

lemma htable_del_present:
  assumes ok: "ht_ok ht" and obj: "obj \<in> set (ht_objs ht)"
  obtains ht' where "htable_del ht obj = (OK, ht')" "ht_ok ht'" "set (ht_objs ht') = set (ht_objs ht) - {obj}"
    "obj2key ht' = obj2key ht" "key2head ht' = key2head ht"
proof -
  let ?i = "obj2head ht obj"
  have i: "?i < 2 ^ ht_order ht" using ht_okD(1) [OF ok] by (simp add: obj2head_def)
  note d = ht_okD(4) [OF ok, of ?i]
  from chain_del_props [OF d, of obj] obj obtain ys where ys: "chain_del obj (tbl ht ?i) = Some ys"
    "obj \<in> set (tbl ht ?i)" "set ys = set (tbl ht ?i) - {obj}" "distinct ys" "Suc (length ys) = length (tbl ht ?i)"
    by (auto simp: obj_in_bucket [OF ok] split: option.splits)
  have "\<And>x. x \<in> set ys \<Longrightarrow> obj2head ht x = ?i" using ys(3) ht_okD(3) [OF ok] by auto
  note u = update_bucket [OF ok i ys(4) this, of "num_entries ht - 1" "snd (htable_del ht obj)"]
  have sub: "set (tbl ht ?i) \<subseteq> set (ht_objs ht)" using i unfolding objs_set by auto
  have "0 < num_entries ht" using ht_okD(5) [OF ok] obj by (auto simp: length_pos_if_in_set)
  then have n: "num_entries ht - 1 + length (tbl ht ?i) = num_entries ht + length ys" using ys(5) by simp
  have del: "htable_del ht obj = (OK, ht\<lparr>tbl := (tbl ht)(?i := ys), num_entries := num_entries ht - 1\<rparr>)"
    by (simp add: htable_del_def Let_def ys(1))
  show thesis
  proof (rule that)
    show "htable_del ht obj = (OK, snd (htable_del ht obj))" by (simp add: del)
    show "set (ht_objs (snd (htable_del ht obj))) = set (ht_objs ht) - {obj}"
      using u(2) n ys(2,3) sub by (auto simp: del)
  qed (use u n in \<open>simp_all add: del\<close>)
qed

lemma htable_del_absent:
  assumes "ht_ok ht" "obj \<notin> set (ht_objs ht)" shows "htable_del ht obj = (Err ENOENT, ht)"
  using chain_del_props [OF ht_okD(4) [OF assms(1)], of obj "obj2head ht obj"] assms(2)
  by (auto simp: htable_del_def Let_def obj_in_bucket [OF assms(1)] split: option.splits)

lemma chain_lookup_find:
  "ht_ok ht \<Longrightarrow> chain_lookup ht key xs = find (\<lambda>obj. obj2key ht obj = key) xs"
  by (induction xs) (auto simp: ht_okD(2))

lemma htable_lookup_Some:
  assumes "ht_ok ht" "htable_lookup ht key = Some obj"
  shows "obj \<in> set (ht_objs ht)" "obj2key ht obj = key"
proof -
  from assms(2) show k: "obj2key ht obj = key"
    by (auto simp: htable_lookup_def chain_lookup_find [OF assms(1)] find_Some_iff)
  have "obj \<in> set (tbl ht (key2head ht key))"
    using assms(2) by (auto simp: htable_lookup_def chain_lookup_find [OF assms(1)] find_Some_iff)
  with k show "obj \<in> set (ht_objs ht)" by (simp add: obj_in_bucket [OF assms(1)] obj2head_def)
qed

lemma htable_lookup_None:
  assumes "ht_ok ht"
  shows "htable_lookup ht key = None \<longleftrightarrow> key \<notin> obj2key ht ` set (ht_objs ht)"
proof
  assume none: "htable_lookup ht key = None"
  show "key \<notin> obj2key ht ` set (ht_objs ht)"
  proof
    assume "key \<in> obj2key ht ` set (ht_objs ht)"
    then obtain obj where obj: "obj \<in> set (tbl ht (obj2head ht obj))" "key = obj2key ht obj"
      using obj_in_bucket [OF assms] by auto
    with none show False
      by (auto simp: htable_lookup_def chain_lookup_find [OF assms] find_None_iff obj2head_def)
  qed
next
  assume "key \<notin> obj2key ht ` set (ht_objs ht)"
  then show "htable_lookup ht key = None"
    using htable_lookup_Some [OF assms] by (metis image_eqI not_None_eq)
qed

lemma htable_lookup_unique:
  assumes "ht_ok ht" "ht_unique ht" "obj \<in> set (ht_objs ht)"
  shows "htable_lookup ht (obj2key ht obj) = Some obj"
proof (cases "htable_lookup ht (obj2key ht obj)")
  case None
  then show ?thesis using assms by (auto simp: htable_lookup_None)
next
  case (Some x)
  with htable_lookup_Some [OF assms(1) Some] assms show ?thesis
    by (auto simp: ht_unique_def inj_on_def)
qed

lemma htable_lookup_add:
  assumes "ht_ok ht" "obj \<notin> set (ht_objs ht)"
  shows "htable_lookup (htable_add ht obj) key =
    (if key = obj2key ht obj then Some obj else htable_lookup ht key)"
proof -
  note a = htable_add_ok [OF assms]
  show ?thesis
    unfolding htable_lookup_def chain_lookup_find [OF a(1)] chain_lookup_find [OF assms(1)] a(3,4)
    by (auto simp: htable_add_def Let_def obj2head_def)
qed

section \<open>The contract of a table\<close>

locale keyed_table =
  fixes inv :: "'s \<Rightarrow> bool" and objs :: "'s \<Rightarrow> 'o set" and key :: "'s \<Rightarrow> 'o \<Rightarrow> 'k"
    and lookup :: "'s \<Rightarrow> 'k \<Rightarrow> 'o option" and add :: "'s \<Rightarrow> 'o \<Rightarrow> 's" and del :: "'s \<Rightarrow> 'o \<Rightarrow> status \<times> 's"
  assumes key_inj: "inv s \<Longrightarrow> inj_on (key s) (objs s)"
    and lookup_Some: "inv s \<Longrightarrow> lookup s k = Some x \<Longrightarrow> x \<in> objs s \<and> key s x = k"
    and lookup_None: "inv s \<Longrightarrow> lookup s k = None \<Longrightarrow> k \<notin> key s ` objs s"
    and add_new: "inv s \<Longrightarrow> key s x \<notin> key s ` objs s \<Longrightarrow>
      inv (add s x) \<and> objs (add s x) = insert x (objs s) \<and> key (add s x) = key s"
    and del_present: "inv s \<Longrightarrow> x \<in> objs s \<Longrightarrow>
      \<exists>s'. del s x = (OK, s') \<and> inv s' \<and> objs s' = objs s - {x} \<and> key s' = key s"
    and del_absent: "inv s \<Longrightarrow> x \<notin> objs s \<Longrightarrow> del s x = (Err ENOENT, s)"
begin

lemma lookup_eq: "inv s \<Longrightarrow> lookup s k = Some x \<longleftrightarrow> x \<in> objs s \<and> key s x = k"
  using lookup_Some lookup_None key_inj
  by (metis image_eqI inj_onD not_None_eq)

lemma lookup_add:
  assumes "inv s" "key s x \<notin> key s ` objs s"
  shows "lookup (add s x) = (lookup s)(key s x \<mapsto> x)"
proof (rule ext)
  fix k
  note a = add_new [OF assms, THEN conjunct1] add_new [OF assms, THEN conjunct2]
  have "lookup (add s x) k = Some y \<longleftrightarrow> ((lookup s)(key s x \<mapsto> x)) k = Some y" for y
    using a assms lookup_eq [OF a(1)] lookup_eq [OF assms(1)] by (auto intro: rev_image_eqI)
  then show "lookup (add s x) k = ((lookup s)(key s x \<mapsto> x)) k" by (metis not_None_eq)
qed

lemma lookup_del:
  assumes "inv s" "x \<in> objs s" "del s x = (st, s')"
  shows "lookup s' = (lookup s)(key s x := None)"
proof (rule ext)
  fix k
  obtain d: "st = OK" "inv s'" "objs s' = objs s - {x}" "key s' = key s"
    using del_present [OF assms(1,2)] assms(3) by auto
  have "lookup s' k = Some y \<longleftrightarrow> ((lookup s)(key s x := None)) k = Some y" for y
    using d assms lookup_eq [OF d(2)] lookup_eq [OF assms(1)] key_inj [OF assms(1)]
    by (auto dest: inj_onD)
  then show "lookup s' k = ((lookup s)(key s x := None)) k" by (metis not_None_eq)
qed

lemma add_del_restores:
  assumes "inv s" "key s x \<notin> key s ` objs s"
  shows "\<exists>s'. del (add s x) x = (OK, s') \<and> inv s' \<and> objs s' = objs s \<and> lookup s' = lookup s"
proof -
  note a = add_new [OF assms]
  have x: "x \<notin> objs s" using assms(2) by auto
  from a del_present [of "add s x" x] obtain s' where
    s': "del (add s x) x = (OK, s')" "inv s'" "objs s' = objs s" "key s' = key s" using x by auto
  moreover have "lookup s' = lookup s"
  proof (rule ext)
    fix k
    show "lookup s' k = lookup s k"
      using lookup_eq [OF s'(2)] lookup_eq [OF assms(1)] s'(3,4) by (metis not_None_eq)
  qed
  ultimately show ?thesis by blast
qed

end

interpretation htable: keyed_table
  "\<lambda>ht. ht_ok ht \<and> ht_unique ht" "\<lambda>ht. set (ht_objs ht)" obj2key htable_lookup htable_add htable_del
proof (unfold_locales, goal_cases)
  case (4 ht obj)
  then have "obj \<notin> set (ht_objs ht)" by auto
  with 4 htable_add_ok [of ht obj] show ?case by (auto simp: ht_unique_def)
next
  case (5 ht obj)
  then obtain ht' where "htable_del ht obj = (OK, ht')" "ht_ok ht'"
    "set (ht_objs ht') = set (ht_objs ht) - {obj}" "obj2key ht' = obj2key ht"
    using htable_del_present by metis
  with 5 show ?case by (auto simp: ht_unique_def inj_on_diff)
next
  case (3 ht k)
  then show ?case by (simp add: htable_lookup_None)
qed (use htable_lookup_Some htable_del_absent in \<open>auto simp: ht_unique_def\<close>)

text \<open>C38: a hash table whose keys are distinct is a finite map. Lookup returns the object with the key
  or \<^verbatim>\<open>NULL\<close>; adding an object with a new key extends the map at that key and nowhere else,
  whatever bucket it falls in; deleting an object removes exactly its key; deleting an object that
  is not there returns \<^verbatim>\<open>-ENOENT\<close> and changes nothing; and the entry count is the size of the
  map.\<close>

theorem htable_refines_map:
  assumes "ht_ok ht \<and> ht_unique ht"
  shows "(\<forall>k x. htable_lookup ht k = Some x \<longleftrightarrow> x \<in> set (ht_objs ht) \<and> obj2key ht x = k) \<and>
    (obj2key ht x \<notin> dom (htable_lookup ht) \<longrightarrow>
       ht_ok (htable_add ht x) \<and> ht_unique (htable_add ht x) \<and>
       htable_lookup (htable_add ht x) = (htable_lookup ht)(obj2key ht x \<mapsto> x)) \<and>
    (case htable_del ht y of (st, ht') \<Rightarrow>
       ht_ok ht' \<and> ht_unique ht' \<and>
       (if y \<in> set (ht_objs ht) then st = OK \<and> htable_lookup ht' = (htable_lookup ht)(obj2key ht y := None)
        else st = Err ENOENT \<and> ht' = ht)) \<and>
    num_entries ht = card (dom (htable_lookup ht))"
proof (intro conjI allI impI)
  note L = htable.lookup_eq [OF assms]
  show "htable_lookup ht k = Some x \<longleftrightarrow> x \<in> set (ht_objs ht) \<and> obj2key ht x = k" for k x
    by (rule L)
  have dom: "dom (htable_lookup ht) = obj2key ht ` set (ht_objs ht)"
    using L by (auto simp: dom_def image_iff)
  show "ht_ok (htable_add ht x)" "ht_unique (htable_add ht x)"
    "htable_lookup (htable_add ht x) = (htable_lookup ht)(obj2key ht x \<mapsto> x)"
    if "obj2key ht x \<notin> dom (htable_lookup ht)"
    using htable.add_new [OF assms that [unfolded dom]] htable.lookup_add [OF assms that [unfolded dom]] by auto
  show "case htable_del ht y of (st, ht') \<Rightarrow>
       ht_ok ht' \<and> ht_unique ht' \<and>
       (if y \<in> set (ht_objs ht) then st = OK \<and> htable_lookup ht' = (htable_lookup ht)(obj2key ht y := None)
        else st = Err ENOENT \<and> ht' = ht)"
  proof (cases "y \<in> set (ht_objs ht)")
    case True
    with htable.del_present [OF assms True] htable.lookup_del [OF assms True] show ?thesis by auto
  next
    case False
    with htable.del_absent [OF assms False] assms show ?thesis by simp
  qed
  show "num_entries ht = card (dom (htable_lookup ht))"
    using assms ht_okD(5) [of ht] distinct_ht_objs [of ht]
    by (simp add: dom card_image ht_unique_def distinct_card)
qed

section \<open>Walking a table\<close>

definition to_visit :: "('k, 'o) htable_iter \<Rightarrow> 'o list" where
  "to_visit iter =
     (let ht = iter_ht iter; buckets = (\<lambda>i. concat (map (tbl ht) [i..<2 ^ ht_order ht]))
      in case iter_node iter of
           [] \<Rightarrow> buckets (iter_index iter)
         | node # rest \<Rightarrow> rest @ buckets (iter_index iter + 1))"

lemma next_bucket_visit:
  "case next_bucket iter of (r, iter') \<Rightarrow>
     (case concat (map (tbl (iter_ht iter)) [iter_index iter..<2 ^ ht_order (iter_ht iter)]) of
        [] \<Rightarrow> r = None
      | x # xs \<Rightarrow> r = Some x \<and> to_visit iter' = xs)"
proof (induction iter rule: next_bucket.induct)
  case (1 iter)
  let ?i = "iter_index iter" and ?ht = "iter_ht iter"
  show ?case
  proof (cases "?i < 2 ^ ht_order ?ht")
    case True
    then have split: "[?i..<2 ^ ht_order ?ht] = ?i # [?i + 1..<2 ^ ht_order ?ht]" by (simp add: upt_conv_Cons)
    show ?thesis
    proof (cases "tbl ?ht ?i")
      case Nil
      with True 1 show ?thesis unfolding split by (simp add: next_bucket.simps [of iter])
    next
      case (Cons x xs)
      with True show ?thesis unfolding split by (simp add: next_bucket.simps [of iter] to_visit_def Let_def)
    qed
  qed (simp add: next_bucket.simps [of iter])
qed

lemma htable_next_visit:
  "case htable_next iter of (r, iter') \<Rightarrow>
     (case to_visit iter of [] \<Rightarrow> r = None | x # xs \<Rightarrow> r = Some x \<and> to_visit iter' = xs)"
proof (cases "iter_node iter" rule: list.exhaust [case_names Nil Cons])
  case Nil
  then show ?thesis using next_bucket_visit [of iter] by (simp add: htable_next_def to_visit_def Let_def)
next
  case (Cons node rest)
  then show ?thesis
    using next_bucket_visit [of "iter\<lparr>iter_index := iter_index iter + 1\<rparr>"]
    by (cases rest) (simp_all add: htable_next_def to_visit_def Let_def)
qed

lemma htable_walk_visit: "htable_walk (Suc (length (to_visit iter))) iter = Some (to_visit iter)"
proof (induction "to_visit iter" arbitrary: iter)
  case Nil
  then show ?case using htable_next_visit [of iter] by (cases "htable_next iter") simp
next
  case (Cons x xs)
  then obtain iter' where n: "htable_next iter = (Some x, iter')" "to_visit iter' = xs"
    using htable_next_visit [of iter] by (cases "htable_next iter") (auto simp flip: Cons.hyps(2))
  with Cons(1) [of iter'] show ?case unfolding Cons.hyps(2) [symmetric] by simp
qed

text \<open>C39: the iteration idiom of the header terminates and sees every object of the table exactly
  once; with one step more than there are entries it has returned \<^verbatim>\<open>NULL\<close>.\<close>

theorem htable_walk_complete:
  assumes "ht_ok ht"
  shows "\<exists>xs. htable_walk (Suc (num_entries ht)) (htable_iter_init ht) = Some xs \<and>
    distinct xs \<and> set xs = {obj. \<exists>i. obj \<in> set (tbl ht i)}"
proof -
  have v: "to_visit (htable_iter_init ht) = ht_objs ht"
    by (simp add: to_visit_def Let_def htable_iter_init_def ht_objs_def)
  have "set (ht_objs ht) = {obj. \<exists>i. obj \<in> set (tbl ht i)}"
    using obj_in_bucket [OF assms] ht_okD(3) [OF assms] by (auto simp: objs_set)
  then show ?thesis
    using htable_walk_visit [of "htable_iter_init ht"] distinct_ht_objs [OF assms] ht_okD(5) [OF assms]
    by (simp add: v)
qed

section \<open>Creation and an example\<close>

lemma htable_create_ok:
  assumes "htable_create s order key (Some htable_id_hash) (Some htable_id_key_compare) = Some (Some ht, s')"
    and "0 < order" "order < 31"
  shows "ht_ok ht" "ht_unique ht" "ht_objs ht = []" "htable_lookup ht = (\<lambda>_. None)"
proof -
  have ht: "ht = \<lparr>ht_hash = htable_id_hash, key_compare = htable_id_key_compare, obj2key = key,
      num_entries = 0, ht_order = order, tbl = (\<lambda>_. []), ht_ptr = ht_ptr ht\<rparr>"
    using assms(1) by (auto simp: htable_create_def bind_eq_Some_conv split: if_splits)
  have o: "ht_objs ht = []" by (subst ht) (simp add: ht_objs_def)
  have "key2head ht k < 2 ^ ht_order ht" for k
    using htable_id_hash_bound [of order k] assms(3) by (subst (1 2) ht) (simp add: key2head_def)
  moreover have "key_compare ht = htable_id_key_compare" "tbl ht = (\<lambda>_. [])" "num_entries ht = 0" "ht_order ht = order"
    by (subst ht, simp)+
  ultimately show "ht_ok ht" using assms(2,3) o by (simp add: ht_ok_def)
  show "ht_unique ht" "ht_objs ht = []" using o by (simp_all add: ht_unique_def)
  show "htable_lookup ht = (\<lambda>_. None)"
    by (subst ht) (simp add: htable_lookup_def fun_eq_iff)
qed

text \<open>A table of order 1 in which the ids 1 and 3 are entered; the objects are their own keys.\<close>

definition tiny_table :: "(id_t, id_t) htable" where
  "tiny_table = \<lparr>ht_hash = htable_id_hash, key_compare = htable_id_key_compare, obj2key = id,
     num_entries = 0, ht_order = 1, tbl = (\<lambda>_. []), ht_ptr = 65552\<rparr>"

lemma tiny_table_ok: "ht_ok tiny_table \<and> ht_unique tiny_table"
  using htable_id_hash_bound [of 1]
  by (simp add: ht_ok_def ht_unique_def tiny_table_def ht_objs_def key2head_def)

lemma two_ids_ok: "ht_ok (htable_add (htable_add tiny_table 1) 3) \<and> ht_unique (htable_add (htable_add tiny_table 1) 3)"
proof -
  have 1: "ht_ok (htable_add tiny_table 1) \<and> ht_unique (htable_add tiny_table 1)"
    "set (ht_objs (htable_add tiny_table 1)) = {1}" "obj2key (htable_add tiny_table 1) = id"
    using htable.add_new [OF tiny_table_ok, of 1] by (simp_all add: tiny_table_def ht_objs_def)
  then show ?thesis using htable.add_new [OF 1(1), of 3] by simp
qed

theorem htable_refines_map_witness:
  "htable_lookup (htable_add tiny_table 7) 7 = Some 7 \<and> htable_lookup (htable_add tiny_table 7) 1 = None \<and>
   fst (htable_del tiny_table 5) = Err ENOENT"
proof -
  have l: "htable_lookup tiny_table = (\<lambda>_. None)" "obj2key tiny_table = id" "ht_objs tiny_table = []"
    by (simp_all add: tiny_table_def htable_lookup_def fun_eq_iff ht_objs_def)
  with htable_refines_map [OF tiny_table_ok, of 7 5] show ?thesis by (auto split: prod.splits)
qed

theorem htable_walk_complete_witness:
  "\<exists>xs. htable_walk 3 (htable_iter_init (htable_add (htable_add tiny_table 1) 3)) = Some xs \<and> distinct xs"
  using htable_walk_complete [OF two_ids_ok [THEN conjunct1]]
  by (auto simp: htable_add_def Let_def tiny_table_def numeral_3_eq_3)

end
