(* ===== verification/Kitten_Pages.thy ===== *)
theory Kitten_Pages
  imports Kitten_Kmem
begin

text \<open>
  Pages of the kernel heap as arrays of 512 words: the interface between the page table code and
  \<^verbatim>\<open>kmem_get_pages\<close> / \<^verbatim>\<open>kmem_free_pages\<close>. The locale \<^verbatim>\<open>page_heap\<close> says what a
  client that holds a set of pages relies on; it is interpreted on the kernel heap, whose own
  invariant provides it. Also here: the kernel's identity map between physical and virtual addresses.
\<close>

section \<open>The identity map\<close>

definition START_KERNEL_map :: u64 where "START_KERNEL_map = 0xffffffff80000000"

text \<open>\<^verbatim>\<open>__pa\<close>: addresses of kernel symbols are translated with the load address of the
  kernel, all others lie in the identity map.\<close>

definition phys_addr :: "u64 \<Rightarrow> vaddr \<Rightarrow> paddr" where
  "phys_addr phys_base virt_addr =
     (if START_KERNEL_map \<le> virt_addr then virt_addr - START_KERNEL_map + phys_base
      else virt_addr - PAGE_OFFSET)"

definition va :: "paddr \<Rightarrow> vaddr" where
  "va x = x + PAGE_OFFSET"

section \<open>Words of a page\<close>

definition pt_read :: "kmem_state \<Rightarrow> u64 \<Rightarrow> nat \<Rightarrow> u64" where
  "pt_read s table i = kmem_mem s (table + of_nat (8 * i))"

definition pt_write :: "kmem_state \<Rightarrow> u64 \<Rightarrow> nat \<Rightarrow> u64 \<Rightarrow> kmem_state" where
  "pt_write s table i v = s\<lparr>kmem_mem := (kmem_mem s)(table + of_nat (8 * i) := v)\<rparr>"

section \<open>Holding pages\<close>

locale page_heap =
  fixes inv :: "'s \<Rightarrow> u64 set \<Rightarrow> bool"
    and get :: "'s \<Rightarrow> (u64 \<times> 's) option" and free :: "'s \<Rightarrow> u64 \<Rightarrow> 's option"
    and rd :: "'s \<Rightarrow> u64 \<Rightarrow> nat \<Rightarrow> u64" and wr :: "'s \<Rightarrow> u64 \<Rightarrow> nat \<Rightarrow> u64 \<Rightarrow> 's"
    and mapped :: "u64 \<Rightarrow> bool"
  assumes get_page: "inv s H \<Longrightarrow> get s = Some (0, s) \<or>
      (\<exists>a s'. get s = Some (a, s') \<and> a \<noteq> 0 \<and> a \<notin> H \<and> inv s' (insert a H) \<and>
         (\<forall>i < 512. rd s' a i = 0) \<and> (\<forall>b \<in> H. \<forall>i < 512. rd s' b i = rd s b i))"
    and free_page: "inv s H \<Longrightarrow> a \<in> H \<Longrightarrow>
      \<exists>s'. free s a = Some s' \<and> inv s' (H - {a}) \<and> (\<forall>b \<in> H - {a}. \<forall>i < 512. rd s' b i = rd s b i)"
    and write_page: "inv s H \<Longrightarrow> a \<in> H \<Longrightarrow> i < 512 \<Longrightarrow> inv (wr s a i v) H"
    and read_write: "inv s H \<Longrightarrow> a \<in> H \<Longrightarrow> b \<in> H \<Longrightarrow> i < 512 \<Longrightarrow> j < 512 \<Longrightarrow>
      rd (wr s a i v) b j = (if b = a \<and> j = i then v else rd s b j)"
    and page_mapped: "inv s H \<Longrightarrow> a \<in> H \<Longrightarrow> mapped a"

text \<open>The address of a page lies in the identity map, at a page boundary.\<close>

definition page_mapped :: "u64 \<Rightarrow> bool" where
  "page_mapped a \<longleftrightarrow> PAGE_OFFSET \<le> a \<and> a < START_KERNEL_map \<and> 4096 dvd unat a"

definition direct_mapped :: "buddy_mempool \<Rightarrow> bool" where
  "direct_mapped mp \<longleftrightarrow> 12 \<le> pool_order mp \<and> 4096 dvd unat (base_addr mp) \<and> PAGE_OFFSET \<le> base_addr mp \<and>
     unat (base_addr mp) + 2 ^ pool_order mp \<le> unat START_KERNEL_map"

definition page_block :: "kmem_state \<Rightarrow> u64 \<Rightarrow> block" where
  "page_block s a = (blk_off (kmem_pool s) a, 12)"

text \<open>The pages \<^verbatim>\<open>H\<close> next to the live blocks \<^verbatim>\<open>K\<close> and \<^verbatim>\<open>P\<close> of everybody else.\<close>

definition pages_inv :: "block set \<Rightarrow> block set \<Rightarrow> kmem_state \<Rightarrow> u64 set \<Rightarrow> bool" where
  "pages_inv K P s H \<longleftrightarrow> kmem_inv s K (P \<union> page_block s ` H) \<and> P \<inter> page_block s ` H = {} \<and>
     direct_mapped (kmem_pool s)"

lemma page_block_inj: "page_block s a = page_block s b \<Longrightarrow> a = b"
proof -
  assume "page_block s a = page_block s b"
  then have "blk_off (kmem_pool s) a = blk_off (kmem_pool s) b" by (simp add: page_block_def)
  then have "blk_addr (kmem_pool s) (blk_off (kmem_pool s) a) = blk_addr (kmem_pool s) (blk_off (kmem_pool s) b)"
    by (rule arg_cong)
  then show ?thesis by simp
qed

lemma page_block_eq:
  "blk_addr (kmem_pool s') = blk_addr (kmem_pool s) \<Longrightarrow> page_block s' = page_block s"
  using base_addr_eqI [of "kmem_pool s'" "kmem_pool s"] by (simp add: page_block_def blk_off_def fun_eq_iff)

lemma direct_mapped_eq:
  "blk_addr mp' = blk_addr mp \<Longrightarrow> pool_order mp' = pool_order mp \<Longrightarrow> direct_mapped mp' = direct_mapped mp"
  using base_addr_eqI [of mp' mp] by (simp add: direct_mapped_def)

lemma page_held: "pages_inv K P s H \<Longrightarrow> a \<in> H \<Longrightarrow> page_block s a \<in> K \<union> (P \<union> page_block s ` H)"
  by simp

lemma page_word:
  assumes "i < 512"
  shows "blk_off (kmem_pool s) a + 8 * i \<in> rng (page_block s a)"
    "pt_read s a i = kword s (blk_off (kmem_pool s) a + 8 * i)"
proof -
  show "blk_off (kmem_pool s) a + 8 * i \<in> rng (page_block s a)"
    using assms by (simp add: page_block_def rng_def)
  have "blk_addr (kmem_pool s) (blk_off (kmem_pool s) a + 8 * i) = a + of_nat (8 * i)"
    by (simp add: blk_addr_def blk_off_def)
  then show "pt_read s a i = kword s (blk_off (kmem_pool s) a + 8 * i)"
    by (simp add: pt_read_def kword_def)
qed

lemma pages_get:
  assumes "pages_inv K P s H"
  shows "kmem_get_pages s 0 = Some (0, s) \<or>
      (\<exists>a s'. kmem_get_pages s 0 = Some (a, s') \<and> a \<noteq> 0 \<and> a \<notin> H \<and> pages_inv K P s' (insert a H) \<and>
         (\<forall>i < 512. pt_read s' a i = 0) \<and> (\<forall>b \<in> H. \<forall>i < 512. pt_read s' b i = pt_read s b i))"
proof -
  have inv: "kmem_inv s K (P \<union> page_block s ` H)" and dj: "P \<inter> page_block s ` H = {}"
    and dm: "direct_mapped (kmem_pool s)" using assms by (auto simp: pages_inv_def)
  have "unat (0 :: u64) + 12 \<le> pool_order (kmem_pool s)" using dm by (simp add: direct_mapped_def)
  with inv show ?thesis
  proof (cases rule: kmem_get_pages_cases)
    case (block p s')
    let ?a = "blk_addr (kmem_pool s) p"
    have pb: "page_block s' = page_block s" by (rule page_block_eq [OF block(9)])
    have "(p, 12) \<in> K \<union> insert (p, 12) (P \<union> page_block s ` H)" by simp
    note h = held_ptr(2) [OF block(4) [simplified] this]
    have off: "blk_off (kmem_pool s) ?a = p" using h base_addr_eqI [OF block(9)] by (simp add: block(9) blk_off_def)
    then have a: "page_block s ?a = (p, 12)" by (simp add: page_block_def)
    have nz: "?a \<noteq> 0"
      using held_nonnull(1) [OF block(4) [simplified], of p 12] by (simp add: block(9))
    have new: "page_block s ?a \<notin> K \<union> (P \<union> page_block s ` H)" using block(3) by (simp add: a)
    then have "?a \<notin> H" by blast
    moreover have "pages_inv K P s' (insert ?a H)"
    proof -
      have "kmem_inv s' K (P \<union> page_block s' ` insert ?a H)" using block(4) by (simp add: pb a)
      moreover have "P \<inter> page_block s' ` insert ?a H = {}" using new dj by (auto simp: pb)
      moreover have "direct_mapped (kmem_pool s')" using dm direct_mapped_eq [OF block(9,10)] by simp
      ultimately show ?thesis by (simp only: pages_inv_def simp_thms)
    qed
    moreover have "pt_read s' ?a i = 0" if "i < 512" for i
    proof -
      have "blk_off (kmem_pool s') ?a + 8 * i \<in> rng (p, unat (0 :: u64) + 12)"
        using page_word(1) [OF that, of s' ?a] by (simp add: pb a)
      from block(7) [OF this] show ?thesis using page_word(2) [OF that, of s' ?a] by simp
    qed
    moreover have "pt_read s' b i = pt_read s b i" if "b \<in> H" "i < 512" for b i
    proof -
      have "page_block s b \<in> K \<union> (P \<union> page_block s ` H)" using that(1) by simp
      from block(6) [OF this page_word(1) [OF that(2)]] show ?thesis
        using page_word(2) [OF that(2), of s' b] page_word(2) [OF that(2), of s b] pb
        by (simp add: page_block_def fun_eq_iff)
    qed
    ultimately show ?thesis
      using block(1) nz by (intro disjI2 exI [of _ ?a] exI [of _ s'] conjI ballI allI impI) simp_all
  next
    case fail
    then show ?thesis by (rule disjI1)
  qed
qed

lemma pages_free:
  assumes "pages_inv K P s H" "a \<in> H"
  shows "\<exists>s'. kmem_free_pages s a 0 = Some s' \<and> pages_inv K P s' (H - {a}) \<and>
    (\<forall>b \<in> H - {a}. \<forall>i < 512. pt_read s' b i = pt_read s b i)"
proof -
  have inv: "kmem_inv s K (P \<union> page_block s ` H)" and dj: "P \<inter> page_block s ` H = {}"
    and dm: "direct_mapped (kmem_pool s)" using assms by (auto simp: pages_inv_def)
  let ?p = "blk_off (kmem_pool s) a"
  have pa: "(?p, unat (0 :: u64) + 12) = page_block s a" by (simp add: page_block_def)
  have b: "(?p, unat (0 :: u64) + 12) \<in> P \<union> page_block s ` H" unfolding pa using assms(2) by simp
  obtain s' where f: "kmem_free_pages s (blk_addr (kmem_pool s) ?p) 0 = Some s'"
    "kmem_inv s' K (P \<union> page_block s ` H - {(?p, unat (0 :: u64) + 12)})"
    "\<And>c x. c \<in> K \<union> (P \<union> page_block s ` H) \<Longrightarrow> x \<in> rng c \<Longrightarrow> kword s' x = kword s x"
    "blk_addr (kmem_pool s') = blk_addr (kmem_pool s)" "pool_order (kmem_pool s') = pool_order (kmem_pool s)"
    by (rule kmem_free_pages_held [OF inv b]) blast
  have pb: "page_block s' = page_block s" by (rule page_block_eq [OF f(4)])
  have "page_block s ` (H - {a}) = page_block s ` H - {page_block s a}"
    using inj_on_image_set_diff [of "page_block s" UNIV H "{a}"] page_block_inj by (auto simp: inj_on_def)
  moreover have "page_block s a \<notin> P" using dj assms(2) by auto
  ultimately have B: "P \<union> page_block s' ` (H - {a}) = P \<union> page_block s ` H - {(?p, unat (0 :: u64) + 12)}"
    unfolding pa pb by blast
  have "pages_inv K P s' (H - {a})" unfolding pages_inv_def B
    using f(2) dj dm direct_mapped_eq [OF f(4,5)] unfolding pb by blast
  moreover have "pt_read s' c i = pt_read s c i" if "c \<in> H" "i < 512" for c i
  proof -
    have "page_block s c \<in> K \<union> (P \<union> page_block s ` H)" using that(1) by simp
    from f(3) [OF this page_word(1) [OF that(2)]] show ?thesis
      using page_word(2) [OF that(2), of s' c] page_word(2) [OF that(2), of s c] pb
      by (simp add: page_block_def fun_eq_iff)
  qed
  ultimately show ?thesis using f(1) by (intro exI [of _ s']) simp
qed

lemma pt_write_client:
  assumes "i < 512"
  shows "pt_write s a i v = client_write s (blk_off (kmem_pool s) a + 8 * i) v"
proof -
  have "blk_addr (kmem_pool s) (blk_off (kmem_pool s) a + 8 * i) = a + of_nat (8 * i)"
    by (simp add: blk_addr_def blk_off_def)
  then show ?thesis by (simp add: pt_write_def client_write_def)
qed

lemma pt_write_pool [simp]: "kmem_pool (pt_write s a i v) = kmem_pool s"
  by (simp add: pt_write_def kmem_pool_def)

lemma pages_write:
  assumes "pages_inv K P s H" "a \<in> H" "i < 512"
  shows "pages_inv K P (pt_write s a i v) H"
proof -
  have inv: "kmem_inv s K (P \<union> page_block s ` H)" and dj: "P \<inter> page_block s ` H = {}"
    using assms by (auto simp: pages_inv_def)
  have nK: "page_block s a \<notin> K" using kmem_invD(3) [OF inv] assms(2) by blast
  have "kmem_inv (pt_write s a i v) K (P \<union> page_block s ` H)"
    unfolding pt_write_client [OF assms(3)]
    by (rule client_write_words [OF inv page_held [OF assms(1,2)] page_word(1) [OF assms(3)]]) (use nK in blast)
  moreover have "page_block (pt_write s a i v) = page_block s" by (rule page_block_eq) simp
  ultimately show ?thesis using assms(1) by (simp only: pages_inv_def pt_write_pool simp_thms)
qed

lemma pages_read_write:
  assumes "pages_inv K P s H" "a \<in> H" "b \<in> H" "i < 512" "j < 512"
  shows "pt_read (pt_write s a i v) b j = (if b = a \<and> j = i then v else pt_read s b j)"
proof -
  have inv: "kmem_inv s K (P \<union> page_block s ` H)" using assms by (auto simp: pages_inv_def)
  have "pt_read (pt_write s a i v) b j = (if b + of_nat (8 * j) = a + of_nat (8 * i) then v else pt_read s b j)"
    by (simp add: pt_read_def pt_write_def)
  moreover have "b + of_nat (8 * j) = a + of_nat (8 * i) \<longleftrightarrow> b = a \<and> j = i"
  proof
    assume eq: "b + of_nat (8 * j) = a + of_nat (8 * i)"
    let ?x = "blk_off (kmem_pool s) a + 8 * i" and ?y = "blk_off (kmem_pool s) b + 8 * j"
    have "blk_addr (kmem_pool s) ?x = blk_addr (kmem_pool s) ?y"
      using eq by (simp add: blk_addr_def blk_off_def)
    note x = page_word(1) [OF assms(4), of s a] and y = page_word(1) [OF assms(5), of s b]
    have "?x = ?y"
      using blk_addr_inj [OF kmem_invD(6) [OF inv]] held_in_pool [OF inv page_held [OF assms(1,2)] x]
        held_in_pool [OF inv page_held [OF assms(1,3)] y] \<open>blk_addr _ ?x = _\<close> by metis
    then have "rng (page_block s a) \<inter> rng (page_block s b) \<noteq> {}" using x y by auto
    then have "page_block s a = page_block s b"
      using buddy.held_disjoint [OF kmem_invD(2) [OF inv] page_held [OF assms(1,2)] page_held [OF assms(1,3)]] by blast
    then have "a = b" by (rule page_block_inj)
    with \<open>?x = ?y\<close> show "b = a \<and> j = i" by simp
  qed simp
  ultimately show ?thesis by presburger
qed

lemma pages_mapped:
  assumes "pages_inv K P s H" "a \<in> H"
  shows "page_mapped a"
proof -
  have inv: "kmem_inv s K (P \<union> page_block s ` H)" and dm: "direct_mapped (kmem_pool s)"
    using assms by (auto simp: pages_inv_def)
  note I = kmem_invD [OF inv]
  let ?p = "blk_off (kmem_pool s) a"
  have ok: "blk_ok (pool_order (kmem_pool s)) 5 (?p, 12)"
    using buddy.held_bounds [OF I(2) page_held [OF assms]] I(5) by (simp add: page_block_def)
  then have p: "?p + 4096 \<le> 2 ^ pool_order (kmem_pool s)" "4096 dvd ?p" by (simp_all add: blk_ok_def)
  then have "unat (blk_addr (kmem_pool s) ?p) = unat (base_addr (kmem_pool s)) + ?p"
    by (intro unat_blk_addr [OF I(6)]) simp
  then have u: "unat a = unat (base_addr (kmem_pool s)) + ?p" by simp
  show ?thesis
    using dm p u unfolding page_mapped_def direct_mapped_def word64_le_unat word64_less_unat by simp
qed

interpretation pages: page_heap "pages_inv K P" "\<lambda>s. kmem_get_pages s 0" "\<lambda>s a. kmem_free_pages s a 0"
  pt_read pt_write page_mapped for K P
proof (unfold_locales, goal_cases)
  case 1
  then show ?case by (rule pages_get)
next
  case 2
  then show ?case by (rule pages_free)
next
  case 3
  then show ?case by (rule pages_write)
next
  case 4
  then show ?case by (rule pages_read_write)
next
  case 5
  then show ?case by (rule pages_mapped)
qed

end
