(* ===== verification/Kitten_PageTable.thy ===== *)
theory Kitten_PageTable
  imports Kitten_Pages
begin

text \<open>
  The x86-64 page tables of \<^verbatim>\<open>arch/x86_64/mm/aspace.c\<close>: four levels of 512-entry tables that
  live in pages of the kernel heap. Entries are 64-bit words read by the bit fields of
  \<^verbatim>\<open>include/arch-x86_64/page_table.h\<close>; a pointer to an entry is a table address with an index.
  Every operation runs on the heap state of \<^verbatim>\<open>Kitten_Kmem\<close>, so that tables are allocated,
  linked, unlinked and freed in the model as in the code; \<^term>\<open>None\<close> is a panic.

  The theory first defines the operations. The shape lemmas then show, over any heap that meets
  \<^verbatim>\<open>page_heap\<close>, what writing a leaf entry, linking a fresh table and unlinking an empty table
  do to the translation of every address; the operations are compositions of these three steps.
\<close>

section \<open>Entries\<close>

type_synonym xpte = u64

definition xpte_present :: "xpte \<Rightarrow> bool" where "xpte_present e = bit e 0"
definition xpte_pagesize :: "xpte \<Rightarrow> bool" where "xpte_pagesize e = bit e 7"
definition xpte_paddr :: "xpte \<Rightarrow> paddr" where "xpte_paddr e = push_bit 12 (take_bit 40 (drop_bit 12 e))"
definition xpte_4KB_paddr :: "xpte \<Rightarrow> paddr" where "xpte_4KB_paddr e = push_bit 12 (take_bit 40 (drop_bit 12 e))"
definition xpte_2MB_paddr :: "xpte \<Rightarrow> paddr" where "xpte_2MB_paddr e = push_bit 21 (take_bit 31 (drop_bit 21 e))"
definition xpte_1GB_paddr :: "xpte \<Rightarrow> paddr" where "xpte_1GB_paddr e = push_bit 30 (take_bit 22 (drop_bit 30 e))"

definition VM_READ :: u64 where "VM_READ = push_bit 0 1"
definition VM_WRITE :: u64 where "VM_WRITE = push_bit 1 1"
definition VM_EXEC :: u64 where "VM_EXEC = push_bit 2 1"
definition VM_NOCACHE :: u64 where "VM_NOCACHE = push_bit 3 1"
definition VM_WRITETHRU :: u64 where "VM_WRITETHRU = push_bit 4 1"
definition VM_GLOBAL :: u64 where "VM_GLOBAL = push_bit 5 1"
definition VM_USER :: u64 where "VM_USER = push_bit 6 1"
definition VM_KERNEL :: u64 where "VM_KERNEL = push_bit 7 1"
definition VM_HEAP :: u64 where "VM_HEAP = push_bit 8 1"
definition VM_SMARTMAP :: u64 where "VM_SMARTMAP = push_bit 9 1"
definition VM_PAGE_4KB :: u64 where "VM_PAGE_4KB = push_bit 12 1"
definition VM_PAGE_2MB :: u64 where "VM_PAGE_2MB = push_bit 21 1"
definition VM_PAGE_1GB :: u64 where "VM_PAGE_1GB = push_bit 30 1"
definition SMARTMAP_ALIGN :: u64 where "SMARTMAP_ALIGN = 0x8000000000"

definition pgd_index :: "vaddr \<Rightarrow> nat" where "pgd_index vaddr = unat (drop_bit 39 vaddr AND 0x1FF)"
definition pud_index :: "vaddr \<Rightarrow> nat" where "pud_index vaddr = unat (drop_bit 30 vaddr AND 0x1FF)"
definition pmd_index :: "vaddr \<Rightarrow> nat" where "pmd_index vaddr = unat (drop_bit 21 vaddr AND 0x1FF)"
definition ptd_index :: "vaddr \<Rightarrow> nat" where "ptd_index vaddr = unat (drop_bit 12 vaddr AND 0x1FF)"

text \<open>Assigning 1 to a one-bit field, and an address to \<^verbatim>\<open>base_paddr\<close>, of an entry.\<close>

definition set_field :: "nat \<Rightarrow> bool \<Rightarrow> xpte \<Rightarrow> xpte" where
  "set_field n b e = (if b then e OR push_bit n 1 else e)"

definition set_base :: "paddr \<Rightarrow> xpte \<Rightarrow> xpte" where
  "set_base paddr e = e OR push_bit 12 (take_bit 40 (drop_bit 12 paddr))"

section \<open>Page table operations\<close>

definition table_entry :: "u64 \<Rightarrow> xpte" where
  "table_entry new_table =
     set_base (phys_addr 0 new_table) (set_field 2 True (set_field 1 True (set_field 0 True 0)))"

definition alloc_page_table :: "kmem_state \<Rightarrow> (u64 \<times> nat) option \<Rightarrow> (u64 \<times> kmem_state) option" where
  "alloc_page_table s parent_pte = do {
     (new_table, s) \<leftarrow> kmem_get_pages s 0;
     if new_table = 0 then Some (0, s)
     else case parent_pte of
       None \<Rightarrow> Some (new_table, s)
     | Some (table, i) \<Rightarrow> Some (new_table, pt_write s table i (table_entry new_table))
   }"

text \<open>The test \<^verbatim>\<open>!pge->present && !alloc_page_table(pge)\<close>; true if it makes the caller return
  \<^verbatim>\<open>NULL\<close>.\<close>

definition missing_table :: "kmem_state \<Rightarrow> u64 \<Rightarrow> nat \<Rightarrow> (bool \<times> kmem_state) option" where
  "missing_table s table i =
     (if xpte_present (pt_read s table i) then Some (False, s)
      else do {
        (new_table, s) \<leftarrow> alloc_page_table s (Some (table, i));
        Some (new_table = 0, s)
      })"

definition find_or_create_pte ::
    "kmem_state \<Rightarrow> u64 \<Rightarrow> vaddr \<Rightarrow> u64 \<Rightarrow> ((u64 \<times> nat) option \<times> kmem_state) option" where
  "find_or_create_pte s pgd vaddr pagesz = do {
     (fail, s) \<leftarrow> missing_table s pgd (pgd_index vaddr);
     if fail then Some (None, s)
     else do {
       let pud = va (xpte_paddr (pt_read s pgd (pgd_index vaddr)));
       if pagesz = VM_PAGE_1GB then Some (Some (pud, pud_index vaddr), s)
       else do {
         (fail, s) \<leftarrow> missing_table s pud (pud_index vaddr);
         if fail then Some (None, s)
         else if xpte_pagesize (pt_read s pud (pud_index vaddr)) then None
         else do {
           let pmd = va (xpte_paddr (pt_read s pud (pud_index vaddr)));
           if pagesz = VM_PAGE_2MB then Some (Some (pmd, pmd_index vaddr), s)
           else do {
             (fail, s) \<leftarrow> missing_table s pmd (pmd_index vaddr);
             if fail then Some (None, s)
             else if xpte_pagesize (pt_read s pmd (pmd_index vaddr)) then None
             else
               let ptd = va (xpte_paddr (pt_read s pmd (pmd_index vaddr)))
               in Some (Some (ptd, ptd_index vaddr), s)
           }
         }
       }
     }
   }"

text \<open>True for the return value 0: the table has been freed.\<close>

definition try_to_free_table ::
    "kmem_state \<Rightarrow> u64 \<Rightarrow> u64 \<Rightarrow> nat \<Rightarrow> (bool \<times> kmem_state) option" where
  "try_to_free_table s table parent i =
     (if list_ex (\<lambda>k. xpte_present (pt_read s table k)) [0..<512] then Some (False, s)
      else do {
        s \<leftarrow> kmem_free_pages s table 0;
        Some (True, pt_write s parent i 0)
      })"

definition find_and_delete_pte :: "kmem_state \<Rightarrow> u64 \<Rightarrow> vaddr \<Rightarrow> u64 \<Rightarrow> kmem_state option" where
  "find_and_delete_pte s pgd vaddr pagesz =
     (let gi = pgd_index vaddr; ui = pud_index vaddr; mi = pmd_index vaddr; ti = ptd_index vaddr;
          pge = pt_read s pgd gi; pud = va (xpte_paddr pge);
          pue = pt_read s pud ui; pmd = va (xpte_paddr pue);
          pme = pt_read s pmd mi; ptd = va (xpte_paddr pme);
          pte = pt_read s ptd ti
      in if \<not> xpte_present pge then Some s
      else if \<not> xpte_present pue then Some s
      else if pagesz = VM_PAGE_1GB then
        if \<not> xpte_pagesize pue then None
        else do {
          let s = pt_write s pud ui 0;
          (_, s) \<leftarrow> try_to_free_table s pud pgd gi;
          Some s
        }
      else if \<not> xpte_present pme then Some s
      else if pagesz = VM_PAGE_2MB then
        if \<not> xpte_pagesize pme then None
        else do {
          let s = pt_write s pmd mi 0;
          (freed, s) \<leftarrow> try_to_free_table s pmd pud ui;
          if \<not> freed then Some s
          else do {
            (_, s) \<leftarrow> try_to_free_table s pud pgd gi;
            Some s
          }
        }
      else if \<not> xpte_present pte then Some s
      else do {
        let s = pt_write s ptd ti 0;
        (freed, s) \<leftarrow> try_to_free_table s ptd pmd mi;
        if \<not> freed then Some s
        else do {
          (freed, s) \<leftarrow> try_to_free_table s pmd pud ui;
          if \<not> freed then Some s
          else do {
            (_, s) \<leftarrow> try_to_free_table s pud pgd gi;
            Some s
          }
        }
      })"

text \<open>The value \<^verbatim>\<open>write_pte\<close> stores.\<close>

definition write_pte :: "paddr \<Rightarrow> u64 \<Rightarrow> u64 \<Rightarrow> xpte" where
  "write_pte paddr flags pagesz =
     (let e = set_field 0 True 0;
          e = set_field 1 (flags AND VM_WRITE \<noteq> 0) e;
          e = set_field 2 (flags AND VM_USER \<noteq> 0) e;
          e = set_field 8 (flags AND VM_GLOBAL \<noteq> 0) e;
          e = set_field 63 (flags AND VM_EXEC = 0) e;
          k = (flags AND VM_KERNEL \<noteq> 0);
          e = set_field 6 k (set_field 5 k (set_field 63 k (set_field 1 k (set_field 8 k e))));
          n = (flags AND VM_NOCACHE \<noteq> 0);
          e = set_field 3 n (set_field 4 n e);
          e = set_field 4 (0x4800000000 \<le> paddr \<and> paddr < 0x8000000000) e;
          e = set_field 4 (0x380000000000 \<le> paddr \<and> paddr < 0x382000006000) e;
          e = set_base paddr e
      in set_field 7 (pagesz = VM_PAGE_2MB \<or> pagesz = VM_PAGE_1GB) e)"

definition arch_aspace_map_page ::
    "kmem_state \<Rightarrow> u64 \<Rightarrow> vaddr \<Rightarrow> paddr \<Rightarrow> u64 \<Rightarrow> u64 \<Rightarrow> (status \<times> kmem_state) option" where
  "arch_aspace_map_page s pgd start paddr flags pagesz = do {
     (pte, s) \<leftarrow> find_or_create_pte s pgd start pagesz;
     case pte of
       None \<Rightarrow> Some (Err ENOMEM, s)
     | Some (table, i) \<Rightarrow> Some (OK, pt_write s table i (write_pte paddr flags pagesz))
   }"

definition arch_aspace_unmap_page :: "kmem_state \<Rightarrow> u64 \<Rightarrow> vaddr \<Rightarrow> u64 \<Rightarrow> kmem_state option" where
  "arch_aspace_unmap_page s pgd start pagesz = find_and_delete_pte s pgd start pagesz"

definition arch_aspace_virt_to_phys :: "kmem_state \<Rightarrow> u64 \<Rightarrow> vaddr \<Rightarrow> errno + paddr" where
  "arch_aspace_virt_to_phys s pgd vaddr =
     (let pge = pt_read s pgd (pgd_index vaddr); pud = va (xpte_paddr pge);
          pue = pt_read s pud (pud_index vaddr); pmd = va (xpte_paddr pue);
          pme = pt_read s pmd (pmd_index vaddr); ptd = va (xpte_paddr pme);
          pte = pt_read s ptd (ptd_index vaddr)
      in if \<not> xpte_present pge then Inl ENOENT
      else if \<not> xpte_present pue then Inl ENOENT
      else if xpte_pagesize pue then Inr (xpte_1GB_paddr pue OR (vaddr AND 0x3FFFFFFF))
      else if \<not> xpte_present pme then Inl ENOENT
      else if xpte_pagesize pme then Inr (xpte_2MB_paddr pme OR (vaddr AND 0x1FFFFF))
      else if \<not> xpte_present pte then Inl ENOENT
      else Inr (xpte_4KB_paddr pte OR (vaddr AND 0xFFF)))"

section \<open>Whole address spaces\<close>

text \<open>The loop that copies the kernel part of the bootstrap page table, from the entry of
  \<^verbatim>\<open>PAGE_OFFSET\<close> to the last one.\<close>

fun copy_pges :: "kmem_state \<Rightarrow> u64 \<Rightarrow> u64 \<Rightarrow> nat list \<Rightarrow> kmem_state" where
  "copy_pges s pgd bootstrap_pgd [] = s"
| "copy_pges s pgd bootstrap_pgd (i # is') =
     copy_pges (pt_write s pgd i (pt_read s bootstrap_pgd i)) pgd bootstrap_pgd is'"

definition arch_aspace_create :: "kmem_state \<Rightarrow> u64 \<Rightarrow> ((errno + u64) \<times> kmem_state) option" where
  "arch_aspace_create s bootstrap_pgd = do {
     (pgd, s) \<leftarrow> kmem_get_pages s 0;
     if pgd = 0 then Some (Inl ENOMEM, s)
     else Some (Inr pgd, copy_pges s pgd bootstrap_pgd [pgd_index PAGE_OFFSET..<512])
   }"

text \<open>The three nested loops of \<^verbatim>\<open>arch_aspace_destroy\<close>, innermost first.\<close>

fun free_ptds :: "kmem_state \<Rightarrow> u64 \<Rightarrow> nat list \<Rightarrow> kmem_state option" where
  "free_ptds s pmd [] = Some s"
| "free_ptds s pmd (k # ks) =
     (let e = pt_read s pmd k
      in if \<not> xpte_present e \<or> xpte_pagesize e then free_ptds s pmd ks
         else do {
           s \<leftarrow> kmem_free_pages s (va (xpte_paddr e)) 0;
           free_ptds s pmd ks
         })"

fun free_pmds :: "kmem_state \<Rightarrow> u64 \<Rightarrow> nat list \<Rightarrow> kmem_state option" where
  "free_pmds s pud [] = Some s"
| "free_pmds s pud (j # js) =
     (let e = pt_read s pud j; pmd = va (xpte_paddr e)
      in if \<not> xpte_present e \<or> xpte_pagesize e then free_pmds s pud js
         else do {
           s \<leftarrow> free_ptds s pmd [0..<512];
           s \<leftarrow> kmem_free_pages s pmd 0;
           free_pmds s pud js
         })"

fun free_puds :: "kmem_state \<Rightarrow> u64 \<Rightarrow> nat list \<Rightarrow> kmem_state option" where
  "free_puds s pgd [] = Some s"
| "free_puds s pgd (i # is') =
     (let e = pt_read s pgd i; pud = va (xpte_paddr e)
      in if \<not> xpte_present e then free_puds s pgd is'
         else do {
           s \<leftarrow> free_pmds s pud [0..<512];
           s \<leftarrow> kmem_free_pages s pud 0;
           free_puds s pgd is'
         })"

definition arch_aspace_destroy :: "kmem_state \<Rightarrow> u64 \<Rightarrow> kmem_state option" where
  "arch_aspace_destroy s pgd = do {
     s \<leftarrow> free_puds s pgd [0..<pgd_index PAGE_OFFSET];
     kmem_free_pages s pgd 0
   }"

text \<open>\<^verbatim>\<open>arch_aspace_smartmap\<close>: the loop that makes the source entries present and the loop that
  copies them. The destination entry is that of \<^verbatim>\<open>start\<close> in every iteration.\<close>

fun smartmap_present :: "kmem_state \<Rightarrow> u64 \<Rightarrow> nat list \<Rightarrow> (status \<times> kmem_state) option" where
  "smartmap_present s src_pgd [] = Some (OK, s)"
| "smartmap_present s src_pgd (i # is') = do {
     (fail, s) \<leftarrow> missing_table s src_pgd i;
     if fail then Some (Err ENOMEM, s) else smartmap_present s src_pgd is'
   }"

fun smartmap_copy :: "kmem_state \<Rightarrow> u64 \<Rightarrow> u64 \<Rightarrow> vaddr \<Rightarrow> nat list \<Rightarrow> kmem_state option" where
  "smartmap_copy s src_pgd dst_pgd start [] = Some s"
| "smartmap_copy s src_pgd dst_pgd start (i # is') =
     (if xpte_present (pt_read s dst_pgd (pgd_index start)) then None
      else smartmap_copy (pt_write s dst_pgd (pgd_index start) (pt_read s src_pgd i))
             src_pgd dst_pgd start is')"

definition arch_aspace_smartmap ::
    "kmem_state \<Rightarrow> u64 \<Rightarrow> u64 \<Rightarrow> vaddr \<Rightarrow> u64 \<Rightarrow> (status \<times> kmem_state) option" where
  "arch_aspace_smartmap s src_pgd dst_pgd start extent =
     (let n = unat (extent div SMARTMAP_ALIGN)
      in do {
        (st, s) \<leftarrow> smartmap_present s src_pgd [0..<n];
        if st \<noteq> OK then Some (st, s)
        else do {
          s \<leftarrow> smartmap_copy s src_pgd dst_pgd start [0..<n];
          Some (OK, s)
        }
      })"

text \<open>\<^verbatim>\<open>dst_pge->present = 0\<close> clears one bit of the entry.\<close>

definition arch_aspace_unsmartmap :: "kmem_state \<Rightarrow> u64 \<Rightarrow> vaddr \<Rightarrow> u64 \<Rightarrow> kmem_state" where
  "arch_aspace_unsmartmap s dst_pgd start extent =
     (let n = unat (extent div SMARTMAP_ALIGN);
          clear = (\<lambda>s. pt_write s dst_pgd (pgd_index start)
                     (pt_read s dst_pgd (pgd_index start) AND NOT 1))
      in (clear ^^ n) s)"

text \<open>The kernel's own map of physical memory, in 2 MB pages. A range that ends within 2 MB of the
  largest address would make the loop variable wrap around and the loop go on; \<^term>\<open>None\<close> is
  also the value of such a run.\<close>

partial_function (option) arch_aspace_map_pmem_into_kernel ::
    "kmem_state \<Rightarrow> u64 \<Rightarrow> paddr \<Rightarrow> paddr \<Rightarrow> (bool \<times> kmem_state) option" where
  "arch_aspace_map_pmem_into_kernel s bootstrap_pgd paddr finish =
     (if paddr < finish then
        (if arch_aspace_virt_to_phys s bootstrap_pgd (va paddr) = Inl ENOENT then
           Option.bind (arch_aspace_map_page s bootstrap_pgd (va paddr) paddr VM_KERNEL VM_PAGE_2MB)
             (\<lambda>(st, s). if st \<noteq> OK then Some (False, s)
                else arch_aspace_map_pmem_into_kernel s bootstrap_pgd (paddr + VM_PAGE_2MB) finish)
         else arch_aspace_map_pmem_into_kernel s bootstrap_pgd (paddr + VM_PAGE_2MB) finish)
      else Some (True, s))"

partial_function (option) arch_aspace_unmap_pmem_from_kernel ::
    "kmem_state \<Rightarrow> u64 \<Rightarrow> paddr \<Rightarrow> paddr \<Rightarrow> kmem_state option" where
  "arch_aspace_unmap_pmem_from_kernel s bootstrap_pgd paddr finish =
     (if paddr < finish then
        (case arch_aspace_virt_to_phys s bootstrap_pgd (va paddr) of
           Inr _ \<Rightarrow> Option.bind (arch_aspace_unmap_page s bootstrap_pgd (va paddr) VM_PAGE_2MB)
             (\<lambda>s. arch_aspace_unmap_pmem_from_kernel s bootstrap_pgd (paddr + VM_PAGE_2MB) finish)
         | Inl _ \<Rightarrow> arch_aspace_unmap_pmem_from_kernel s bootstrap_pgd (paddr + VM_PAGE_2MB) finish)
      else Some s)"

section \<open>Walks\<close>

text \<open>The index into the table of level \<^verbatim>\<open>l\<close> (0 is the root), the indices on the way down to that
  level, and the entry that decides the translation of an address, found from a table of level
  \<open>3 - r\<close>.\<close>

definition lvl_index :: "nat \<Rightarrow> vaddr \<Rightarrow> nat" where
  "lvl_index l v = unat (drop_bit (39 - 9 * l) v AND 0x1FF)"

definition path :: "vaddr \<Rightarrow> nat \<Rightarrow> nat list" where
  "path v l = map (\<lambda>k. lvl_index k v) [0..<l]"

definition is_table :: "nat \<Rightarrow> xpte \<Rightarrow> bool" where
  "is_table l e \<longleftrightarrow> l < 3 \<and> xpte_present e \<and> (l = 0 \<or> \<not> xpte_pagesize e)"

definition child :: "xpte \<Rightarrow> u64" where
  "child e = va (xpte_paddr e)"

fun walk :: "('s \<Rightarrow> u64 \<Rightarrow> nat \<Rightarrow> u64) \<Rightarrow> 's \<Rightarrow> nat \<Rightarrow> u64 \<Rightarrow> vaddr \<Rightarrow> (nat \<times> xpte) option" where
  "walk rd s r a v =
     (let l = 3 - r; e = rd s a (lvl_index l v)
      in if is_table l e then (case r of 0 \<Rightarrow> None | Suc r \<Rightarrow> walk rd s r (child e) v)
         else if xpte_present e then Some (l, e) else None)"

declare walk.simps [simp del]

lemma lvl_index_less: "lvl_index l v < 512"
proof -
  have "drop_bit (39 - 9 * l) v AND 0x1FF \<le> (0x1FF :: u64)" by (rule word_and_le1)
  then show ?thesis by (simp add: lvl_index_def word64_le_unat)
qed

lemma path_Suc: "path v (Suc l) = path v l @ [lvl_index l v]"
  by (simp add: path_def)

lemma length_path [simp]: "length (path v l) = l"
  by (simp add: path_def)

lemma path_0 [simp]: "path v 0 = []"
  by (simp add: path_def)

lemma hd_path: "0 < l \<Longrightarrow> hd (path v l) = lvl_index 0 v"
  unfolding path_def by (subst hd_map) simp_all

section \<open>The tree of tables\<close>

text \<open>The tables an address space owns, by the indices that lead to them from the root. Entries of
  the root outside \<^verbatim>\<open>own\<close> (the kernel part, and SMARTMAP entries) point to tables of others.\<close>

type_synonym shape = "nat list \<rightharpoonup> u64"

definition pt_inv :: "('s \<Rightarrow> u64 \<Rightarrow> nat \<Rightarrow> u64) \<Rightarrow> 's \<Rightarrow> nat set \<Rightarrow> shape \<Rightarrow> bool" where
  "pt_inv rd s own T \<longleftrightarrow> T [] \<noteq> None \<and>
     (\<forall>\<pi>. T \<pi> \<noteq> None \<longrightarrow> length \<pi> \<le> 3) \<and>
     (\<forall>\<pi> i. T (\<pi> @ [i]) \<noteq> None \<longrightarrow> T \<pi> \<noteq> None \<and> i < 512 \<and> hd (\<pi> @ [i]) \<in> own) \<and>
     (\<forall>\<pi> \<pi>'. T \<pi> \<noteq> None \<and> T \<pi> = T \<pi>' \<longrightarrow> \<pi> = \<pi>') \<and>
     (\<forall>\<pi> a i. T \<pi> = Some a \<and> length \<pi> < 3 \<and> i < 512 \<and> hd (\<pi> @ [i]) \<in> own \<longrightarrow>
        T (\<pi> @ [i]) = (if is_table (length \<pi>) (rd s a i) then Some (child (rd s a i)) else None))"

lemma pt_invD:
  assumes "pt_inv rd s own T"
  shows "T [] \<noteq> None" "T \<pi> = Some a \<Longrightarrow> length \<pi> \<le> 3"
    "T (\<pi> @ [i]) = Some a \<Longrightarrow> \<exists>b. T \<pi> = Some b" "T (\<pi> @ [i]) = Some a \<Longrightarrow> i < 512"
    "T (\<pi> @ [i]) = Some a \<Longrightarrow> hd (\<pi> @ [i]) \<in> own"
    "T \<pi> = Some a \<Longrightarrow> T \<pi>' = Some a \<Longrightarrow> \<pi> = \<pi>'"
    "T \<pi> = Some a \<Longrightarrow> length \<pi> < 3 \<Longrightarrow> i < 512 \<Longrightarrow> hd (\<pi> @ [i]) \<in> own \<Longrightarrow>
       T (\<pi> @ [i]) = (if is_table (length \<pi>) (rd s a i) then Some (child (rd s a i)) else None)"
proof -
  note c = assms [unfolded pt_inv_def]
  show "T [] \<noteq> None" using c by simp
  show "T \<pi> = Some a \<Longrightarrow> length \<pi> \<le> 3" using c by simp
  show "T (\<pi> @ [i]) = Some a \<Longrightarrow> \<exists>b. T \<pi> = Some b" "T (\<pi> @ [i]) = Some a \<Longrightarrow> i < 512"
    "T (\<pi> @ [i]) = Some a \<Longrightarrow> hd (\<pi> @ [i]) \<in> own"
    using c [THEN conjunct2, THEN conjunct2, THEN conjunct1, rule_format, of \<pi> i] by auto
  show "T \<pi> = Some a \<Longrightarrow> T \<pi>' = Some a \<Longrightarrow> \<pi> = \<pi>'"
    using c [THEN conjunct2, THEN conjunct2, THEN conjunct2, THEN conjunct1, rule_format, of \<pi> \<pi>'] by simp
  show "T \<pi> = Some a \<Longrightarrow> length \<pi> < 3 \<Longrightarrow> i < 512 \<Longrightarrow> hd (\<pi> @ [i]) \<in> own \<Longrightarrow>
       T (\<pi> @ [i]) = (if is_table (length \<pi>) (rd s a i) then Some (child (rd s a i)) else None)"
    using c [THEN conjunct2, THEN conjunct2, THEN conjunct2, THEN conjunct2, rule_format, of \<pi> a i] by simp
qed

lemma table_eq_iff:
  assumes "pt_inv rd s own T" "T \<pi> = Some a" "T \<rho> = Some b"
  shows "b = a \<longleftrightarrow> \<rho> = \<pi>"
proof
  show "\<rho> = \<pi>" if "b = a" using pt_invD(6) [OF assms(1) assms(3)] assms(2) that by simp
  show "b = a" if "\<rho> = \<pi>" using assms(2,3) that by simp
qed

lemma pt_inv_entries:
  assumes "pt_inv rd s own T"
    and "\<And>\<pi> a i. T \<pi> = Some a \<Longrightarrow> length \<pi> < 3 \<Longrightarrow> i < 512 \<Longrightarrow> hd (\<pi> @ [i]) \<in> own \<Longrightarrow>
       T (\<pi> @ [i]) = (if is_table (length \<pi>) (rd s' a i) then Some (child (rd s' a i)) else None)"
  shows "pt_inv rd s' own T"
  using assms(1) unfolding pt_inv_def
  by (elim conjE, intro conjI) (assumption | intro allI impI, elim conjE, rule assms(2); assumption)+

lemma walk_step:
  assumes inv: "pt_inv rd s own T" and T: "T (path v l) = Some a" and l: "l < 3" and own: "lvl_index 0 v \<in> own"
  shows "walk rd s (3 - l) a v =
    (case T (path v (Suc l)) of
       Some b \<Rightarrow> walk rd s (3 - Suc l) b v
     | None \<Rightarrow> let e = rd s a (lvl_index l v) in if xpte_present e then Some (l, e) else None)"
proof -
  have "hd (path v l @ [lvl_index l v]) \<in> own" using own hd_path [of "Suc l" v] by (simp add: path_Suc)
  from pt_invD(7) [OF inv T _ lvl_index_less this] l
  have "T (path v (Suc l)) =
    (if is_table l (rd s a (lvl_index l v)) then Some (child (rd s a (lvl_index l v))) else None)"
    by (simp add: path_Suc)
  moreover obtain r where r: "3 - l = Suc r" "3 - Suc l = r" "2 - r = l" using l by (cases "3 - l") auto
  ultimately show ?thesis unfolding r by (simp add: walk.simps [of rd s "Suc r"] r(3) Let_def)
qed

lemma walk_last: "walk rd s 0 a v = (let e = rd s a (lvl_index 3 v) in if xpte_present e then Some (3, e) else None)"
  by (simp add: walk.simps is_table_def Let_def)

section \<open>The three steps\<close>

text \<open>A state that owns the tables \<^verbatim>\<open>T\<close> and, besides, the pages \<^verbatim>\<open>F\<close>.\<close>

definition pt_owns :: "('s \<Rightarrow> u64 set \<Rightarrow> bool) \<Rightarrow> ('s \<Rightarrow> u64 \<Rightarrow> nat \<Rightarrow> u64) \<Rightarrow> 's \<Rightarrow> nat set \<Rightarrow> shape \<Rightarrow> u64 set \<Rightarrow> bool" where
  "pt_owns pinv rd s own T F \<longleftrightarrow> pinv s (F \<union> ran T) \<and> F \<inter> ran T = {} \<and> pt_inv rd s own T"

lemma pt_ownsD:
  assumes "pt_owns pinv rd s own T F"
  shows "pinv s (F \<union> ran T)" "F \<inter> ran T = {}" "pt_inv rd s own T"
    "T \<pi> = Some a \<Longrightarrow> a \<in> F \<union> ran T"
  using assms by (auto simp: pt_owns_def ranI)

lemma path_prefix:
  assumes "pt_inv rd s own T" "T (path v n) = Some a" "m \<le> n"
  shows "\<exists>b. T (path v m) = Some b"
  using assms(3,2)
proof (induction n arbitrary: a)
  case (Suc n)
  then show ?case using pt_invD(3) [OF assms(1), of "path v n" "lvl_index n v"]
    by (cases "m = Suc n") (auto simp: path_Suc)
qed simp

lemma path_eq_iff: "length \<pi> = l \<Longrightarrow> path v (Suc l) = \<pi> @ [i] \<longleftrightarrow> path v l = \<pi> \<and> lvl_index l v = i"
  by (simp add: path_Suc)

context page_heap
begin

text \<open>Writing an entry that neither is nor becomes a link to a table.\<close>

lemma write_leaf_inv:
  assumes o: "pt_owns inv rd s own T F" and T: "T \<pi> = Some a" and i: "i < 512"
    and old: "hd (\<pi> @ [i]) \<in> own \<Longrightarrow> \<not> is_table (length \<pi>) (rd s a i)"
    and new: "hd (\<pi> @ [i]) \<in> own \<Longrightarrow> \<not> is_table (length \<pi>) e"
  shows "pt_owns inv rd (wr s a i e) own T F"
proof -
  note O = pt_ownsD [OF o] and I = pt_invD [OF pt_ownsD(3) [OF o]]
  have r: "rd (wr s a i e) b j = (if b = a \<and> j = i then e else rd s b j)" if "T \<rho> = Some b" "j < 512" for b j \<rho>
    by (rule read_write [OF O(1) O(4) [OF T] O(4) [OF that(1)] i that(2)])
  have "T (\<rho> @ [j]) =
      (if is_table (length \<rho>) (rd (wr s a i e) b j) then Some (child (rd (wr s a i e) b j)) else None)"
    if h: "T \<rho> = Some b" "length \<rho> < 3" "j < 512" "hd (\<rho> @ [j]) \<in> own" for \<rho> b j
  proof (cases "b = a \<and> j = i")
    case True
    then have "\<rho> = \<pi>" using I(6) h(1) T by simp
    moreover have "rd (wr s a i e) b j = e" using r [OF h(1,3)] True by simp
    ultimately show ?thesis using I(7) [OF h] h old new True by simp
  next
    case False
    then have "rd (wr s a i e) b j = rd s b j" using r [OF h(1,3)] by auto
    with I(7) [OF h] show ?thesis by simp
  qed
  then have "pt_inv rd (wr s a i e) own T" by (rule pt_inv_entries [OF O(3)])
  moreover have "inv (wr s a i e) (F \<union> ran T)" by (rule write_page [OF O(1) O(4) [OF T] i])
  ultimately show ?thesis using O(2) by (simp add: pt_owns_def)
qed

lemma write_leaf_walk:
  assumes o: "pt_owns inv rd s own T F" and T: "T \<pi> = Some a" and i: "i < 512" "hd (\<pi> @ [i]) \<in> own"
    and old: "\<not> is_table (length \<pi>) (rd s a i)" and new: "\<not> is_table (length \<pi>) e"
    and v: "l \<le> 3" "lvl_index 0 v \<in> own" "T (path v l) = Some b"
  shows "walk rd (wr s a i e) (3 - l) b v =
    (if l \<le> length \<pi> \<and> path v (Suc (length \<pi>)) = \<pi> @ [i]
     then if xpte_present e then Some (length \<pi>, e) else None
     else walk rd s (3 - l) b v)"
  using v
proof (induction "3 - l" arbitrary: l b)
  case 0
  note O = pt_ownsD [OF o] and I = pt_invD [OF pt_ownsD(3) [OF o]]
  from 0 have l: "l = 3" by simp
  have "rd (wr s a i e) b (lvl_index 3 v) = (if b = a \<and> lvl_index 3 v = i then e else rd s b (lvl_index 3 v))"
    by (rule read_write [OF O(1) O(4) [OF T] O(4) [OF 0(4)] i(1) lvl_index_less])
  moreover have "b = a \<longleftrightarrow> path v 3 = \<pi>" using table_eq_iff [OF O(3) T 0(4)] l by simp
  moreover have "3 \<le> length \<pi> \<and> path v (Suc (length \<pi>)) = \<pi> @ [i] \<longleftrightarrow> path v 3 = \<pi> \<and> lvl_index 3 v = i"
  proof (cases "length \<pi> = 3")
    case False
    then have "\<not> 3 \<le> length \<pi>" "path v 3 \<noteq> \<pi>" using I(2) [OF T] by auto
    then show ?thesis by simp
  qed (use path_eq_iff [of \<pi> 3 v i] in simp)
  ultimately show ?case unfolding l by (auto simp: walk_last Let_def)
next
  case (Suc r)
  note O = pt_ownsD [OF o] and I = pt_invD [OF pt_ownsD(3) [OF o]]
  have o': "pt_owns inv rd (wr s a i e) own T F" by (rule write_leaf_inv [OF o T i(1) old new])
  from Suc(2) have l: "l < 3" "r = 3 - Suc l" by auto
  note st = walk_step [OF O(3) Suc(5) l(1) Suc(4)] walk_step [OF pt_ownsD(3) [OF o'] Suc(5) l(1) Suc(4)]
  have rd: "rd (wr s a i e) b (lvl_index l v) = (if b = a \<and> lvl_index l v = i then e else rd s b (lvl_index l v))"
    by (rule read_write [OF O(1) O(4) [OF T] O(4) [OF Suc(5)] i(1) lvl_index_less])
  have ba: "b = a \<longleftrightarrow> path v l = \<pi>" by (rule table_eq_iff [OF O(3) T Suc(5)])
  have hit: "path v (Suc (length \<pi>)) = \<pi> @ [i] \<longleftrightarrow> path v l = \<pi> \<and> lvl_index l v = i" if "length \<pi> = l"
    using that by (simp add: path_eq_iff)
  show ?case
  proof (cases "T (path v (Suc l))")
    case None
    have "length \<pi> = l" if "l \<le> length \<pi>" "path v (Suc (length \<pi>)) = \<pi> @ [i]"
    proof (rule ccontr)
      assume "length \<pi> \<noteq> l"
      then have "Suc l \<le> length \<pi>" using that(1) by simp
      moreover have "T (path v (length \<pi>)) = Some a" using that(2) T by (simp add: path_eq_iff)
      ultimately show False using path_prefix [OF O(3)] None by fastforce
    qed
    then have "l \<le> length \<pi> \<and> path v (Suc (length \<pi>)) = \<pi> @ [i] \<longleftrightarrow> b = a \<and> lvl_index l v = i"
      using hit ba by auto
    then show ?thesis using ba by (auto simp: st None rd Let_def)
  next
    case (Some c)
    have "walk rd (wr s a i e) (3 - Suc l) c v =
      (if Suc l \<le> length \<pi> \<and> path v (Suc (length \<pi>)) = \<pi> @ [i]
       then if xpte_present e then Some (length \<pi>, e) else None else walk rd s (3 - Suc l) c v)"
      by (rule Suc(1) [OF l(2)]) (use Suc l Some in auto)
    moreover have "\<not> (length \<pi> = l \<and> path v (Suc (length \<pi>)) = \<pi> @ [i])"
    proof
      assume h: "length \<pi> = l \<and> path v (Suc (length \<pi>)) = \<pi> @ [i]"
      then have p: "path v (Suc l) = \<pi> @ [i]" by blast
      have "T (\<pi> @ [i]) = Some c" using Some unfolding p .
      moreover have "T (\<pi> @ [i]) = None" using I(7) [OF T _ i] old h l(1) by simp
      ultimately show False by simp
    qed
    then have "l \<le> length \<pi> \<and> path v (Suc (length \<pi>)) = \<pi> @ [i] \<longleftrightarrow>
        Suc l \<le> length \<pi> \<and> path v (Suc (length \<pi>)) = \<pi> @ [i]"
      by (metis Suc_leD le_eq_less_or_eq less_eq_Suc_le)
    ultimately show ?thesis by (simp only: st Some option.case)
  qed
qed

end

lemma empty_walk: "(\<And>j. j < 512 \<Longrightarrow> \<not> xpte_present (rd s b j)) \<Longrightarrow> walk rd s r b v = None"
  by (simp add: walk.simps is_table_def lvl_index_less Let_def)

lemma not_present_0 [simp]: "\<not> xpte_present 0" "\<not> is_table l 0"
  by (simp_all add: xpte_present_def is_table_def)

text \<open>Adding or removing a table with no live entry in the shape, given the entries of the new state.\<close>

lemma pt_inv_link:
  assumes inv: "pt_inv rd s own T" and T: "T \<pi> = Some a" "length \<pi> < 3" "i < 512" "hd (\<pi> @ [i]) \<in> own"
    and new: "T (\<pi> @ [i]) = None" "b \<notin> ran T" "is_table (length \<pi>) (rd s' a i)" "child (rd s' a i) = b"
    and empty: "\<And>j. j < 512 \<Longrightarrow> \<not> xpte_present (rd s' b j)"
    and same: "\<And>\<rho> c j. T \<rho> = Some c \<Longrightarrow> j < 512 \<Longrightarrow> \<not> (\<rho> = \<pi> \<and> j = i) \<Longrightarrow> rd s' c j = rd s c j"
  shows "pt_inv rd s' own (T(\<pi> @ [i] \<mapsto> b))"
proof -
  note I = pt_invD [OF inv]
  let ?T = "T(\<pi> @ [i] \<mapsto> b)"
  have below: "T ((\<pi> @ [i]) @ [j]) = None" for j
    using I(3) [of "\<pi> @ [i]" j] new(1) by (cases "T ((\<pi> @ [i]) @ [j])") auto
  have "?T [] \<noteq> None" using I(1) by simp
  moreover have "length \<rho> \<le> 3" if "?T \<rho> \<noteq> None" for \<rho>
    using that I(2) [of \<rho>] T(2) by (auto split: if_splits)
  moreover have "?T \<rho> \<noteq> None \<and> j < 512 \<and> hd (\<rho> @ [j]) \<in> own" if "?T (\<rho> @ [j]) \<noteq> None" for \<rho> j
    using that I(3-5) [of \<rho> j] T by (auto split: if_splits)
  moreover have "\<rho> = \<rho>'" if "?T \<rho> \<noteq> None \<and> ?T \<rho> = ?T \<rho>'" for \<rho> \<rho>'
  proof -
    from that obtain c where c: "?T \<rho> = Some c" "?T \<rho>' = Some c" by fastforce
    show ?thesis
    proof (cases "\<rho> = \<pi> @ [i] \<or> \<rho>' = \<pi> @ [i]")
      case True
      with c new(2) show ?thesis by (auto split: if_splits intro: ranI)
    next
      case False
      with c I(6) [of \<rho> c \<rho>'] show ?thesis by simp
    qed
  qed
  moreover have "?T (\<rho> @ [j]) = (if is_table (length \<rho>) (rd s' c j) then Some (child (rd s' c j)) else None)"
    if h: "?T \<rho> = Some c \<and> length \<rho> < 3 \<and> j < 512 \<and> hd (\<rho> @ [j]) \<in> own" for \<rho> c j
  proof (cases "\<rho> = \<pi> @ [i]")
    case True
    then have "c = b" using h by simp
    then show ?thesis using True below empty [of j] h by (simp add: is_table_def)
  next
    case False
    then have c: "T \<rho> = Some c" using h by simp
    show ?thesis
    proof (cases "\<rho> = \<pi> \<and> j = i")
      case True
      then show ?thesis using c T(1) new(3,4) by simp
    next
      case no: False
      with same [OF c _ no] I(7) [OF c] h show ?thesis by auto
    qed
  qed
  ultimately show ?thesis unfolding pt_inv_def by blast
qed

lemma pt_inv_unlink:
  assumes inv: "pt_inv rd s own T" and T: "T \<pi> = Some a" "T (\<pi> @ [i]) = Some b"
    and gone: "\<not> is_table (length \<pi>) (rd s' a i)"
    and empty: "\<And>j. j < 512 \<Longrightarrow> \<not> xpte_present (rd s b j)"
    and same: "\<And>\<rho> c j. T \<rho> = Some c \<Longrightarrow> c \<noteq> b \<Longrightarrow> j < 512 \<Longrightarrow> \<not> (\<rho> = \<pi> \<and> j = i) \<Longrightarrow> rd s' c j = rd s c j"
  shows "pt_inv rd s' own (T(\<pi> @ [i] := None))"
proof -
  note I = pt_invD [OF inv]
  let ?T = "T(\<pi> @ [i] := None)"
  have below: "T ((\<pi> @ [i]) @ [j]) = None" for j
  proof (rule ccontr)
    assume "T ((\<pi> @ [i]) @ [j]) \<noteq> None"
    then obtain c where c: "T ((\<pi> @ [i]) @ [j]) = Some c" by blast
    note c' = I(2) [OF c] I(4,5) [OF c]
    have "length (\<pi> @ [i]) < 3" using c'(1) by simp
    from I(7) [OF T(2) this c'(2,3)] empty [OF c'(2)] c show False by (simp add: is_table_def)
  qed
  have "?T [] \<noteq> None" using I(1) by simp
  moreover have "length \<rho> \<le> 3" if "?T \<rho> \<noteq> None" for \<rho>
    using that I(2) [of \<rho>] by (auto split: if_splits)
  moreover have "?T \<rho> \<noteq> None \<and> j < 512 \<and> hd (\<rho> @ [j]) \<in> own" if "?T (\<rho> @ [j]) \<noteq> None" for \<rho> j
    using that I(3-5) [of \<rho> j] below by (auto split: if_splits)
  moreover have "\<rho> = \<rho>'" if "?T \<rho> \<noteq> None \<and> ?T \<rho> = ?T \<rho>'" for \<rho> \<rho>'
  proof -
    from that obtain c where "?T \<rho> = Some c" "?T \<rho>' = Some c" by fastforce
    then show ?thesis using I(6) [of \<rho> c \<rho>'] by (simp split: if_splits)
  qed
  moreover have "?T (\<rho> @ [j]) = (if is_table (length \<rho>) (rd s' c j) then Some (child (rd s' c j)) else None)"
    if h: "?T \<rho> = Some c \<and> length \<rho> < 3 \<and> j < 512 \<and> hd (\<rho> @ [j]) \<in> own" for \<rho> c j
  proof -
    have c: "T \<rho> = Some c" "\<rho> \<noteq> \<pi> @ [i]" using h by (auto split: if_splits)
    then have "c \<noteq> b" using I(6) [OF c(1), of "\<pi> @ [i]"] T(2) by auto
    show ?thesis
    proof (cases "\<rho> = \<pi> \<and> j = i")
      case True
      then show ?thesis using c T(1) gone by simp
    next
      case no: False
      with same [OF c(1) \<open>c \<noteq> b\<close> _ no] I(7) [OF c(1)] h show ?thesis by auto
    qed
  qed
  ultimately show ?thesis unfolding pt_inv_def by blast
qed

text \<open>The translations that survive: every table the address space keeps translates as before.\<close>

lemma link_walk:
  assumes inv: "pt_inv rd s own T" and inv': "pt_inv rd s' own (T(\<pi> @ [i] \<mapsto> b))"
    and T: "T \<pi> = Some a" "T (\<pi> @ [i]) = None" "length \<pi> < 3" "\<not> xpte_present (rd s a i)"
    and empty: "\<And>j. j < 512 \<Longrightarrow> \<not> xpte_present (rd s' b j)"
    and same: "\<And>\<rho> c j. T \<rho> = Some c \<Longrightarrow> j < 512 \<Longrightarrow> \<not> (\<rho> = \<pi> \<and> j = i) \<Longrightarrow> rd s' c j = rd s c j"
    and v: "l \<le> 3" "lvl_index 0 v \<in> own" "T (path v l) = Some c"
  shows "walk rd s' (3 - l) c v = walk rd s (3 - l) c v"
  using v
proof (induction "3 - l" arbitrary: l c)
  case 0
  then have l: "l = 3" by simp
  have "path v 3 \<noteq> \<pi>" using T(3) by auto
  then have "rd s' c (lvl_index 3 v) = rd s c (lvl_index 3 v)"
    using same [OF 0(4) lvl_index_less, of 3 v] l by simp
  then show ?case by (simp add: l walk_last)
next
  case (Suc r)
  from Suc(2) have l: "l < 3" "r = 3 - Suc l" by auto
  have ne: "path v l \<noteq> \<pi> @ [i]" using T(2) Suc(5) by auto
  then have "(T(\<pi> @ [i] \<mapsto> b)) (path v l) = Some c" using Suc(5) by simp
  note st = walk_step [OF inv Suc(5) l(1) Suc(4)] walk_step [OF inv' this l(1) Suc(4)]
  show ?case
  proof (cases "path v (Suc l) = \<pi> @ [i]")
    case True
    then have "path v l = \<pi>" "lvl_index l v = i" by (simp_all add: path_Suc)
    then have "c = a" using Suc(5) T(1) by simp
    then have "\<not> xpte_present (rd s c (lvl_index l v))" using T(4) \<open>lvl_index l v = i\<close> by simp
    then show ?thesis using True T(2) empty_walk [of rd s' b, OF empty] by (simp add: st Let_def)
  next
    case False
    then have "\<not> (path v l = \<pi> \<and> lvl_index l v = i)" by (simp add: path_Suc)
    then have e: "rd s' c (lvl_index l v) = rd s c (lvl_index l v)" by (rule same [OF Suc(5) lvl_index_less])
    show ?thesis
    proof (cases "T (path v (Suc l))")
      case None
      with False e show ?thesis by (simp add: st)
    next
      case (Some d)
      have "walk rd s' (3 - Suc l) d v = walk rd s (3 - Suc l) d v"
        by (rule Suc(1) [OF l(2)]) (use l Suc Some in auto)
      with False Some show ?thesis by (simp only: st fun_upd_apply if_False option.case)
    qed
  qed
qed

lemma unlink_walk:
  assumes inv: "pt_inv rd s own T" and inv': "pt_inv rd s' own (T(\<pi> @ [i] := None))"
    and T: "T \<pi> = Some a" "T (\<pi> @ [i]) = Some b" "\<not> xpte_present (rd s' a i)"
    and empty: "\<And>j. j < 512 \<Longrightarrow> \<not> xpte_present (rd s b j)"
    and same: "\<And>\<rho> c j. T \<rho> = Some c \<Longrightarrow> c \<noteq> b \<Longrightarrow> j < 512 \<Longrightarrow> \<not> (\<rho> = \<pi> \<and> j = i) \<Longrightarrow> rd s' c j = rd s c j"
    and v: "l \<le> 3" "lvl_index 0 v \<in> own" "(T(\<pi> @ [i] := None)) (path v l) = Some c"
  shows "walk rd s' (3 - l) c v = walk rd s (3 - l) c v"
  using v
proof (induction "3 - l" arbitrary: l c)
  case 0
  then have l: "l = 3" by simp
  have c: "T (path v 3) = Some c" "path v 3 \<noteq> \<pi> @ [i]" using 0(4) l by (auto split: if_splits)
  then have "c \<noteq> b" using pt_invD(6) [OF inv c(1), of "\<pi> @ [i]"] T(2) by auto
  moreover have "path v 3 \<noteq> \<pi>" using pt_invD(2) [OF inv T(2)] by auto
  ultimately have "rd s' c (lvl_index 3 v) = rd s c (lvl_index 3 v)"
    using same [OF c(1) _ lvl_index_less, of 3 v] by simp
  then show ?case by (simp add: l walk_last)
next
  case (Suc r)
  from Suc(2) have l: "l < 3" "r = 3 - Suc l" by auto
  have c: "T (path v l) = Some c" "path v l \<noteq> \<pi> @ [i]" using Suc(5) by (auto split: if_splits)
  then have cb: "c \<noteq> b" using pt_invD(6) [OF inv c(1), of "\<pi> @ [i]"] T(2) by auto
  note st = walk_step [OF inv c(1) l(1) Suc(4)] walk_step [OF inv' Suc(5) l(1) Suc(4)]
  show ?case
  proof (cases "path v (Suc l) = \<pi> @ [i]")
    case True
    then have "path v l = \<pi>" "lvl_index l v = i" by (simp_all add: path_Suc)
    then have "c = a" using c(1) T(1) by simp
    then have "\<not> xpte_present (rd s' c (lvl_index l v))" using T(3) \<open>lvl_index l v = i\<close> by simp
    then show ?thesis using True T(2) empty_walk [of rd s b, OF empty] by (simp add: st Let_def)
  next
    case False
    then have "\<not> (path v l = \<pi> \<and> lvl_index l v = i)" by (simp add: path_Suc)
    then have e: "rd s' c (lvl_index l v) = rd s c (lvl_index l v)" by (rule same [OF c(1) cb lvl_index_less])
    show ?thesis
    proof (cases "T (path v (Suc l))")
      case None
      with False e show ?thesis by (simp add: st)
    next
      case (Some d)
      have "walk rd s' (3 - Suc l) d v = walk rd s (3 - Suc l) d v"
        by (rule Suc(1) [OF l(2)]) (use l Suc Some False in auto)
      with False Some show ?thesis by (simp only: st fun_upd_apply if_False option.case)
    qed
  qed
qed

text \<open>What an operation on one address space leaves alone: the translations by the tables \<^verbatim>\<open>T\<close>, at
  every level, the contents of all other pages and the root entries it does not own.\<close>

definition keeps :: "('s \<Rightarrow> u64 \<Rightarrow> nat \<Rightarrow> u64) \<Rightarrow> 's \<Rightarrow> 's \<Rightarrow> nat set \<Rightarrow> shape \<Rightarrow> u64 set \<Rightarrow> bool" where
  "keeps rd s s' own T F \<longleftrightarrow>
     (\<forall>v l c. l \<le> 3 \<and> lvl_index 0 v \<in> own \<and> T (path v l) = Some c \<longrightarrow>
        walk rd s' (3 - l) c v = walk rd s (3 - l) c v) \<and>
     (\<forall>f \<in> F. \<forall>j < 512. rd s' f j = rd s f j) \<and>
     (\<forall>a j. T [] = Some a \<and> j < 512 \<and> j \<notin> own \<longrightarrow> rd s' a j = rd s a j)"

lemma keeps_refl [simp]: "keeps rd s s own T F"
  by (simp add: keeps_def)

lemma keeps_trans:
  assumes "keeps rd s s' own T F" "keeps rd s' s'' own T' F" "T \<subseteq>\<^sub>m T'"
  shows "keeps rd s s'' own T F"
proof -
  have le: "T' \<pi> = Some c" if "T \<pi> = Some c" for \<pi> c
    using that assms(3) by (metis map_le_def domI)
  note k = assms(1,2) [unfolded keeps_def]
  show ?thesis unfolding keeps_def
  proof (intro conjI allI impI ballI, goal_cases)
    case 1
    then show ?case using k le by metis
  next
    case 2
    then show ?case using k by metis
  next
    case 3
    then show ?case using k le by metis
  qed
qed

lemma keeps_trans':
  assumes "keeps rd s s' own T F" "keeps rd s' s'' own T' F" "T' \<subseteq>\<^sub>m T"
  shows "keeps rd s s'' own T' F"
proof -
  have le: "T \<pi> = Some c" if "T' \<pi> = Some c" for \<pi> c
    using that assms(3) by (metis map_le_def domI)
  note k = assms(1,2) [unfolded keeps_def]
  show ?thesis unfolding keeps_def
  proof (intro conjI allI impI ballI, goal_cases)
    case 1
    then show ?case using k le by metis
  next
    case 2
    then show ?case using k by metis
  next
    case 3
    then show ?case using k le by metis
  qed
qed

context page_heap
begin

lemma link_table:
  assumes o: "pt_owns inv rd s own T F" and T: "T \<pi> = Some a" "length \<pi> < 3" "i < 512" "hd (\<pi> @ [i]) \<in> own"
    and old: "\<not> xpte_present (rd s a i)" and g: "get s = Some (b, s1)" "b \<noteq> 0"
    and e: "is_table (length \<pi>) e" "mapped b \<Longrightarrow> child e = b"
  shows "pt_owns inv rd (wr s1 a i e) own (T(\<pi> @ [i] \<mapsto> b)) F" "keeps rd s (wr s1 a i e) own T F"
    "T \<subseteq>\<^sub>m T(\<pi> @ [i] \<mapsto> b)"
proof -
  note O = pt_ownsD [OF o] and I = pt_invD [OF pt_ownsD(3) [OF o]]
  let ?H = "F \<union> ran T" and ?T = "T(\<pi> @ [i] \<mapsto> b)" and ?s = "wr s1 a i e"
  obtain b: "b \<notin> ?H" "inv s1 (insert b ?H)" "\<And>j. j < 512 \<Longrightarrow> rd s1 b j = 0"
    "\<And>c j. c \<in> ?H \<Longrightarrow> j < 512 \<Longrightarrow> rd s1 c j = rd s c j"
    using get_page [OF O(1)] g by auto
  have aH: "a \<in> insert b ?H" using O(4) [OF T(1)] by simp
  note r = read_write [OF b(2) aH _ T(3)]
  have none: "T (\<pi> @ [i]) = None" using I(7) [OF T] old by (simp add: is_table_def)
  then have ran: "ran ?T = insert b (ran T)" by (simp add: ran_map_upd)
  have inv': "inv ?s (F \<union> ran ?T)" using write_page [OF b(2) aH T(3)] by (simp add: ran)
  have ab: "a \<noteq> b" using b(1) O(4) [OF T(1)] by auto
  have empty: "\<not> xpte_present (rd ?s b j)" if "j < 512" for j using r [of b j] b(3) [OF that] ab that by simp
  have same: "rd ?s c j = rd s c j" if "T \<rho> = Some c" "j < 512" "\<not> (\<rho> = \<pi> \<and> j = i)" for \<rho> c j
    using r [of c j] b(4) [OF O(4) [OF that(1)] that(2)] O(4) [OF that(1)] table_eq_iff [OF O(3) T(1) that(1)] that(2,3)
    by auto
  have ent: "is_table (length \<pi>) (rd ?s a i)" "child (rd ?s a i) = b"
    using r [of a i] aH T(3) e page_mapped [OF b(2)] by auto
  have "pt_inv rd ?s own ?T"
    by (rule pt_inv_link [OF O(3) T none _ ent empty same]) (use b(1) in auto)
  then show "pt_owns inv rd ?s own ?T F" using inv' O(2) b(1) by (auto simp: pt_owns_def ran)
  have "walk rd ?s (3 - l) c v = walk rd s (3 - l) c v"
    if "l \<le> 3" "lvl_index 0 v \<in> own" "T (path v l) = Some c" for v l c
    by (rule link_walk [OF O(3) \<open>pt_inv rd ?s own ?T\<close> T(1) none T(2) old empty same that])
  moreover have "rd ?s f j = rd s f j" if "f \<in> F" "j < 512" for f j
    using r [of f j] b(4) [of f j] that O(2) T(1) by (auto intro: ranI)
  moreover have "rd ?s c j = rd s c j" if "T [] = Some c" "j < 512" "j \<notin> own" for c j
    by (rule same [OF that(1,2)]) (use T(4) that(3) in auto)
  ultimately show "keeps rd s ?s own T F" by (simp add: keeps_def)
  show "T \<subseteq>\<^sub>m ?T" using none by (auto simp: map_le_def)
qed

lemma unlink_table:
  assumes o: "pt_owns inv rd s own T F" and T: "T \<pi> = Some a" "T (\<pi> @ [i]) = Some b"
    and empty: "\<And>j. j < 512 \<Longrightarrow> \<not> xpte_present (rd s b j)"
  obtains s1 where "free s b = Some s1" "pt_owns inv rd (wr s1 a i 0) own (T(\<pi> @ [i] := None)) F"
    "keeps rd s (wr s1 a i 0) own (T(\<pi> @ [i] := None)) F" "T(\<pi> @ [i] := None) \<subseteq>\<^sub>m T"
proof -
  note O = pt_ownsD [OF o] and I = pt_invD [OF pt_ownsD(3) [OF o]]
  let ?H = "F \<union> ran T" and ?T = "T(\<pi> @ [i] := None)"
  obtain s1 where s1: "free s b = Some s1" "inv s1 (?H - {b})"
    "\<And>c j. c \<in> ?H - {b} \<Longrightarrow> j < 512 \<Longrightarrow> rd s1 c j = rd s c j"
    using free_page [OF O(1) O(4) [OF T(2)]] by auto
  let ?s = "wr s1 a i 0"
  have i: "i < 512" by (rule I(4) [OF T(2)])
  have ab: "a \<noteq> b" using table_eq_iff [OF O(3) T(1) T(2)] by auto
  have aH: "a \<in> ?H - {b}" using O(4) [OF T(1)] ab by simp
  note r = read_write [OF s1(2) aH _ i]
  have ran: "F \<union> ran ?T = ?H - {b}" "F \<inter> ran ?T = {}"
  proof -
    have "c \<in> ran ?T \<longleftrightarrow> c \<in> ran T - {b}" for c
    proof
      assume "c \<in> ran ?T"
      then obtain \<rho> where "\<rho> \<noteq> \<pi> @ [i]" "T \<rho> = Some c" by (auto simp: ran_def split: if_splits)
      with table_eq_iff [OF O(3) T(2), of \<rho> c] show "c \<in> ran T - {b}" by (simp add: ranI)
    next
      assume "c \<in> ran T - {b}"
      then obtain \<rho> where \<rho>: "T \<rho> = Some c" "c \<noteq> b" by (auto simp: ran_def)
      then have "?T \<rho> = Some c" using T(2) by auto
      then show "c \<in> ran ?T" by (rule ranI)
    qed
    then have "ran ?T = ran T - {b}" by blast
    then show "F \<union> ran ?T = ?H - {b}" "F \<inter> ran ?T = {}" using O(2) ranI [of T "\<pi> @ [i]" b] T(2) by auto
  qed
  have same: "rd ?s c j = rd s c j" if "T \<rho> = Some c" "c \<noteq> b" "j < 512" "\<not> (\<rho> = \<pi> \<and> j = i)" for \<rho> c j
    using r [of c j] s1(3) [of c j] O(4) [OF that(1)] table_eq_iff [OF O(3) T(1) that(1)] that(2-4) by auto
  have z: "rd ?s a i = 0" using r [of a i] aH i by simp
  have pi: "pt_inv rd ?s own ?T" by (rule pt_inv_unlink [OF O(3) T _ empty same]) (simp_all add: z)
  have "inv ?s (F \<union> ran ?T)" unfolding ran by (rule write_page [OF s1(2) aH i])
  with pi ran(2) have "pt_owns inv rd ?s own ?T F" by (simp add: pt_owns_def)
  moreover have "walk rd ?s (3 - l) c v = walk rd s (3 - l) c v"
    if "l \<le> 3" "lvl_index 0 v \<in> own" "?T (path v l) = Some c" for v l c
    by (rule unlink_walk [OF O(3) pi T _ empty same that]) (simp_all add: z)
  moreover have "rd ?s f j = rd s f j" if "f \<in> F" "j < 512" for f j
  proof -
    have "f \<noteq> a" "f \<noteq> b" using that(1) O(2) ranI [of T \<pi> a] ranI [of T "\<pi> @ [i]" b] T by auto
    then show ?thesis using r [of f j] s1(3) [of f j] that by simp
  qed
  moreover have "rd ?s c j = rd s c j" if "?T [] = Some c" "j < 512" "j \<notin> own" for c j
  proof (rule same [OF _ _ that(2)])
    show c: "T [] = Some c" using that(1) by simp
    show "c \<noteq> b" using table_eq_iff [OF O(3) T(2) c] by simp
    show "\<not> ([] = \<pi> \<and> j = i)" using I(5) [OF T(2)] that(3) by auto
  qed
  ultimately show thesis by (intro that [OF s1(1)]) (auto simp: keeps_def map_le_def)
qed

end

section \<open>Bit fields\<close>

definition bits_in :: "nat \<Rightarrow> nat \<Rightarrow> u64 \<Rightarrow> bool" where
  "bits_in lo hi w \<longleftrightarrow> (\<forall>n. bit w n \<longrightarrow> lo \<le> n \<and> n < hi)"

lemma bits_inI:
  assumes "2 ^ lo dvd unat w" "unat w < 2 ^ hi"
  shows "bits_in lo hi w"
proof -
  have "lo \<le> n \<and> n < hi" if "bit w n" for n
  proof -
    have "bit (unat w) n" using that by (simp add: bit_unsigned_iff)
    then have "odd (unat w div 2 ^ n)" by (simp add: bit_iff_odd)
    moreover have "even (unat w div 2 ^ n)" if "n < lo"
    proof -
      have "(2::nat) ^ lo = 2 ^ n * 2 ^ (lo - n)" using that by (simp flip: power_add)
      then have "2 ^ (lo - n) dvd unat w div 2 ^ n" using assms(1) by (auto simp: dvd_def mult.assoc)
      moreover have "(2::nat) dvd 2 ^ (lo - n)" using that by simp
      ultimately show ?thesis by (rule dvd_trans [rotated])
    qed
    moreover have "unat w div 2 ^ n = 0" if "hi \<le> n"
    proof -
      have "(2::nat) ^ hi \<le> 2 ^ n" using that by (rule power_increasing) simp
      then have "unat w < 2 ^ n" using assms(2) by linarith
      then show ?thesis by (rule div_less)
    qed
    ultimately show ?thesis by (metis even_zero not_le)
  qed
  then show ?thesis by (simp add: bits_in_def)
qed

lemma field_roundtrip:
  assumes "bits_in k 52 p" "12 \<le> k" "k + n = 52" "\<And>j. bit e j \<Longrightarrow> j < 12 \<or> 52 \<le> j"
  shows "push_bit k (take_bit n (drop_bit k (set_base p e))) = p"
proof (rule bit_word_eqI)
  fix j assume j: "j < LENGTH(64)"
  show "bit (push_bit k (take_bit n (drop_bit k (set_base p e)))) j = bit p j"
  proof (cases "k \<le> j \<and> j < 52")
    case True
    then have "\<not> bit e j" using assms(2,4) by fastforce
    then show ?thesis using True assms j
      by (auto simp: bit_push_bit_iff bit_take_bit_iff bit_drop_bit_eq set_base_def bit_or_iff)
  next
    case False
    then have "\<not> bit p j" using assms(1) by (auto simp: bits_in_def)
    then show ?thesis using False assms
      by (auto simp: bit_push_bit_iff bit_take_bit_iff bit_drop_bit_eq)
  qed
qed

lemma bit_set_field: "bit (set_field n b e) j \<longleftrightarrow> j < 64 \<and> (b \<and> j = n) \<or> bit e j"
  by (simp add: set_field_def bit_or_iff bit_push_bit_iff bit_1_iff del: push_bit_of_1) auto

lemma bit_set_base: "bit (set_base p e) j \<longleftrightarrow> bit e j \<or> 12 \<le> j \<and> j < 52 \<and> bit p j"
  by (auto simp: set_base_def bit_or_iff bit_push_bit_iff bit_take_bit_iff bit_drop_bit_eq dest: bit_imp_le_length)

lemma table_entry_flags: "xpte_present (table_entry b)" "\<not> xpte_pagesize (table_entry b)"
  by (simp_all add: xpte_present_def xpte_pagesize_def table_entry_def bit_set_base bit_set_field)

lemma table_entry_is_table: "l < 3 \<Longrightarrow> is_table l (table_entry b)"
  by (simp add: is_table_def table_entry_flags)

lemma child_table_entry:
  assumes "page_mapped b" shows "child (table_entry b) = b"
proof -
  have b: "PAGE_OFFSET \<le> b" "b < START_KERNEL_map" "4096 dvd unat b" using assms by (auto simp: page_mapped_def)
  have "\<not> START_KERNEL_map \<le> b" using b(2) by (simp only: not_le)
  then have pa: "phys_addr 0 b = b - PAGE_OFFSET" by (simp add: phys_addr_def)
  have u: "unat (b - PAGE_OFFSET) = unat b - unat PAGE_OFFSET" by (rule unat64_sub [OF b(1)])
  have "bits_in 12 52 (b - PAGE_OFFSET)"
  proof (rule bits_inI)
    have "4096 dvd unat PAGE_OFFSET" by (simp add: PAGE_OFFSET_def)
    then show "2 ^ 12 dvd unat (b - PAGE_OFFSET)" using b(3) unfolding u by simp
    have "unat b < unat START_KERNEL_map" using b(2) by (simp add: word64_less_unat)
    then show "unat (b - PAGE_OFFSET) < 2 ^ 52" unfolding u by (simp add: PAGE_OFFSET_def START_KERNEL_map_def)
  qed
  then have "xpte_paddr (table_entry b) = b - PAGE_OFFSET"
    unfolding xpte_paddr_def table_entry_def pa
    by (rule field_roundtrip) (auto simp: bit_set_field)
  then show ?thesis by (simp add: child_def va_def)
qed

lemma write_pte_bits:
  "bit (write_pte p flags sz) j \<Longrightarrow> j < 12 \<or> 52 \<le> j \<or> bit p j"
  "xpte_present (write_pte p flags sz)"
  "xpte_pagesize (write_pte p flags sz) \<longleftrightarrow> sz = VM_PAGE_2MB \<or> sz = VM_PAGE_1GB"
  by (auto simp: write_pte_def Let_def bit_set_field bit_set_base xpte_present_def xpte_pagesize_def)

end
