(* ===== verification/Kitten_PageMap.thy ===== *)
theory Kitten_PageMap
  imports Kitten_PageTable
begin

text \<open>
  What the page table operations of \<^verbatim>\<open>arch/x86_64/mm/aspace.c\<close> do to the translation of every
  address: mapping a page changes the translation of the addresses of that page only, unmapping
  removes it, tables are created and freed without touching anybody else's pages, and destroying an
  address space returns every table to the heap. The proofs compose the three steps of
  \<^verbatim>\<open>Kitten_PageTable\<close>.
\<close>

section \<open>Translation\<close>

definition leaf_paddr :: "nat \<Rightarrow> xpte \<Rightarrow> vaddr \<Rightarrow> paddr" where
  "leaf_paddr l e v =
     (if l = 1 then xpte_1GB_paddr e OR (v AND 0x3FFFFFFF)
      else if l = 2 then xpte_2MB_paddr e OR (v AND 0x1FFFFF)
      else xpte_4KB_paddr e OR (v AND 0xFFF))"

lemma index_levels:
  "pgd_index v = lvl_index 0 v" "pud_index v = lvl_index 1 v" "pmd_index v = lvl_index 2 v"
  "ptd_index v = lvl_index 3 v"
  by (simp_all add: pgd_index_def pud_index_def pmd_index_def ptd_index_def lvl_index_def)

lemma virt_to_phys_walk:
  "arch_aspace_virt_to_phys s pgd v =
     (case walk pt_read s 3 pgd v of None \<Rightarrow> Inl ENOENT | Some (l, e) \<Rightarrow> Inr (leaf_paddr l e v))"
proof -
  have w: "walk pt_read s 3 a v = (let e = pt_read s a (pgd_index v)
        in if xpte_present e then walk pt_read s 2 (child e) v else None)"
    "walk pt_read s 2 a v = (let e = pt_read s a (pud_index v)
        in if \<not> xpte_present e then None else if xpte_pagesize e then Some (1, e) else walk pt_read s 1 (child e) v)"
    "walk pt_read s 1 a v = (let e = pt_read s a (pmd_index v)
        in if \<not> xpte_present e then None else if xpte_pagesize e then Some (2, e) else walk pt_read s 0 (child e) v)" for a
    by ((subst walk.simps, simp add: index_levels is_table_def Let_def eval_nat_numeral)+)
  show ?thesis
    by (simp add: arch_aspace_virt_to_phys_def w walk_last index_levels child_def leaf_paddr_def Let_def
        del: One_nat_def)
qed

text \<open>The level whose entries map pages of a size.\<close>

definition page_level :: "u64 \<Rightarrow> nat" where
  "page_level pagesz = (if pagesz = VM_PAGE_1GB then 1 else if pagesz = VM_PAGE_2MB then 2 else 3)"

definition page_sizes :: "u64 set" where
  "page_sizes = {VM_PAGE_4KB, VM_PAGE_2MB, VM_PAGE_1GB}"

text \<open>Two addresses in the same page: the tables do not look at the upper 16 bits.\<close>

definition same_page :: "u64 \<Rightarrow> vaddr \<Rightarrow> vaddr \<Rightarrow> bool" where
  "same_page pagesz v w \<longleftrightarrow> take_bit 48 v AND NOT (pagesz - 1) = take_bit 48 w AND NOT (pagesz - 1)"

lemma bits_below:
  "m \<le> (64 :: nat) \<Longrightarrow> (\<forall>n < 64. (n < m \<and> P n) = (n < m \<and> Q n)) \<longleftrightarrow> (\<forall>n < m. P n = Q n)"
  by (meson less_le_trans)

lemma lvl_index_eq_iff:
  "lvl_index l v = lvl_index l w \<longleftrightarrow> (\<forall>n. 39 - 9 * l \<le> n \<and> n < 48 - 9 * l \<longrightarrow> bit v n = bit w n)" if "l \<le> 3"
proof -
  let ?k = "39 - 9 * l"
  have m: "(0x1FF :: u64) = mask 9" by (simp add: mask_eq_exp_minus_1)
  have "lvl_index l v = lvl_index l w \<longleftrightarrow> take_bit 9 (drop_bit ?k v) = take_bit 9 (drop_bit ?k w)"
    by (simp only: lvl_index_def m take_bit_eq_mask word64_eq_iff_unat)
  also have "\<dots> \<longleftrightarrow> (\<forall>n < 64. (n < 9 \<and> bit v (?k + n)) = (n < 9 \<and> bit w (?k + n)))"
    by (simp add: bit_eq_iff bit_take_bit_iff bit_drop_bit_eq)
  also have "\<dots> \<longleftrightarrow> (\<forall>n. n < 9 \<longrightarrow> bit v (?k + n) = bit w (?k + n))"
    by (rule bits_below) simp
  also have "\<dots> \<longleftrightarrow> (\<forall>n. ?k \<le> n \<and> n < 48 - 9 * l \<longrightarrow> bit v n = bit w n)"
    (is "?A \<longleftrightarrow> ?B")
  proof
    assume h: ?A
    show ?B
    proof (intro allI impI)
      fix n assume "?k \<le> n \<and> n < 48 - 9 * l"
      then have "n - ?k < 9" "?k + (n - ?k) = n" using that by arith+
      then show "bit v n = bit w n" using h [rule_format, of "n - ?k"] by simp
    qed
  next
    assume h: ?B
    have "bit v (?k + n) = bit w (?k + n)" if n: "n < 9" for n
    proof (rule h [rule_format])
      show "?k \<le> ?k + n \<and> ?k + n < 48 - 9 * l" using n \<open>l \<le> 3\<close> by arith
    qed
    then show ?A by blast
  qed
  finally show ?thesis .
qed

lemma path_eq_bits:
  "l \<le> 3 \<Longrightarrow> path v (Suc l) = path w (Suc l) \<longleftrightarrow> (\<forall>n. 39 - 9 * l \<le> n \<and> n < 48 \<longrightarrow> bit v n = bit w n)"
proof (induction l)
  case 0
  then show ?case by (simp add: path_Suc lvl_index_eq_iff)
next
  case (Suc l)
  then have "path v (Suc (Suc l)) = path w (Suc (Suc l)) \<longleftrightarrow>
      (\<forall>n. 39 - 9 * l \<le> n \<and> n < 48 \<longrightarrow> bit v n = bit w n) \<and>
      (\<forall>n. 39 - 9 * Suc l \<le> n \<and> n < 48 - 9 * Suc l \<longrightarrow> bit v n = bit w n)"
    by (simp add: path_Suc [of v "Suc l"] path_Suc [of w "Suc l"] lvl_index_eq_iff)
  also have "\<dots> \<longleftrightarrow> (\<forall>n. 39 - 9 * Suc l \<le> n \<and> n < 48 \<longrightarrow> bit v n = bit w n)"
    (is "?A \<and> ?B \<longleftrightarrow> ?C")
  proof
    assume h: "?A \<and> ?B"
    show ?C
    proof (intro allI impI)
      fix n assume "39 - 9 * Suc l \<le> n \<and> n < 48"
      then show "bit v n = bit w n" using h Suc(2) by (cases "39 - 9 * l \<le> n") auto
    qed
  next
    assume ?C
    then have "bit v n = bit w n" if "39 - 9 * Suc l \<le> n" "n < 48" for n using that by blast
    then show "?A \<and> ?B" using Suc(2) by (intro conjI allI impI) (elim conjE, simp)+
  qed
  finally show ?case .
qed

lemma page_level_pow:
  assumes "pagesz \<in> page_sizes" shows "pagesz = 2 ^ (39 - 9 * page_level pagesz)" "page_level pagesz \<in> {1, 2, 3}"
  using assms by (auto simp: page_sizes_def page_level_def VM_PAGE_4KB_def VM_PAGE_2MB_def VM_PAGE_1GB_def)

lemma same_page_path:
  assumes "pagesz \<in> page_sizes"
  shows "same_page pagesz v w \<longleftrightarrow> path v (Suc (page_level pagesz)) = path w (Suc (page_level pagesz))"
proof -
  let ?l = "page_level pagesz" and ?k = "39 - 9 * page_level pagesz"
  note p = page_level_pow [OF assms]
  have "pagesz - 1 = mask ?k" by (subst p(1)) (simp add: mask_eq_exp_minus_1)
  note m = this
  have "same_page pagesz v w \<longleftrightarrow>
      (\<forall>n < 64. (n < 48 \<and> (bit v n \<and> \<not> n < ?k)) = (n < 48 \<and> (bit w n \<and> \<not> n < ?k)))"
    unfolding same_page_def m by (simp add: bit_eq_iff bit_and_iff bit_take_bit_iff bit_not_iff bit_mask_iff conj_ac)
  also have "\<dots> \<longleftrightarrow> (\<forall>n < 48. (bit v n \<and> \<not> n < ?k) = (bit w n \<and> \<not> n < ?k))" by (rule bits_below) simp
  also have "\<dots> \<longleftrightarrow> (\<forall>n. ?k \<le> n \<and> n < 48 \<longrightarrow> bit v n = bit w n)" by (meson not_le)
  also have "\<dots> \<longleftrightarrow> path v (Suc ?l) = path w (Suc ?l)" by (rule path_eq_bits [symmetric]) (use p(2) in auto)
  finally show ?thesis .
qed


section \<open>Steps of the operations\<close>

abbreviation "owns K P \<equiv> pt_owns (pages_inv K P) pt_read"
abbreviation "pkeeps \<equiv> keeps pt_read"

lemma walk_from_root:
  assumes "pt_inv rd s own T" "lvl_index 0 v \<in> own" "T [] = Some r" "l \<le> 3" "T (path v l) = Some a"
  shows "walk rd s 3 r v = walk rd s (3 - l) a v"
  using assms(4,5)
proof (induction l arbitrary: a)
  case 0
  then show ?case using assms(3) by simp
next
  case (Suc l)
  obtain b where b: "T (path v l) = Some b" using path_prefix [OF assms(1) Suc(3), of l] by auto
  from Suc(1) [OF _ b] walk_step [OF assms(1) b _ assms(2)] Suc(2,3) show ?case by simp
qed

lemma table_at:
  assumes "pt_inv rd s own T" "lvl_index 0 v \<in> own" "T (path v l) = Some a" "l < 3"
  shows "T (path v (Suc l)) = (if is_table l (rd s a (lvl_index l v)) then Some (child (rd s a (lvl_index l v))) else None)"
proof -
  have "hd (path v l @ [lvl_index l v]) \<in> own" using assms(2) hd_path [of "Suc l" v] by (simp add: path_Suc)
  from pt_invD(7) [OF assms(1,3) _ lvl_index_less this] assms(4) show ?thesis by (simp add: path_Suc)
qed

text \<open>No page larger than those of level \<^verbatim>\<open>lev\<close> is mapped at an address.\<close>

definition no_larger :: "kmem_state \<Rightarrow> u64 \<Rightarrow> vaddr \<Rightarrow> nat \<Rightarrow> bool" where
  "no_larger s pgd v lev \<longleftrightarrow> (case walk pt_read s 3 pgd v of None \<Rightarrow> True | Some (l, e) \<Rightarrow> lev \<le> l)"

lemma no_larger_present:
  assumes "pt_inv pt_read s own T" "lvl_index 0 v \<in> own" "T [] = Some pgd" "T (path v l) = Some a" "l < lev" "lev \<le> 3"
    "no_larger s pgd v lev" "xpte_present (pt_read s a (lvl_index l v))"
  shows "is_table l (pt_read s a (lvl_index l v))"
proof (rule ccontr)
  assume n: "\<not> is_table l (pt_read s a (lvl_index l v))"
  have l: "l < 3" using assms(5,6) by simp
  have "walk pt_read s 3 pgd v = walk pt_read s (3 - l) a v"
    by (rule walk_from_root [OF assms(1-3) _ assms(4)]) (use l in simp)
  also have "\<dots> = Some (l, pt_read s a (lvl_index l v))"
    using walk_step [OF assms(1,4) l assms(2)] table_at [OF assms(1,2,4) l] n assms(8) by simp
  finally show False using assms(5,7) by (simp add: no_larger_def)
qed

lemma no_larger_keeps:
  assumes "pkeeps s s' own T F" "T [] = Some pgd" "lvl_index 0 v \<in> own"
  shows "walk pt_read s' 3 pgd v = walk pt_read s 3 pgd v" "no_larger s' pgd v lev = no_larger s pgd v lev"
proof -
  have "walk pt_read s' (3 - 0) pgd v = walk pt_read s (3 - 0) pgd v"
    using assms unfolding keeps_def by (metis path_0 zero_le)
  then show "walk pt_read s' 3 pgd v = walk pt_read s 3 pgd v" by simp
  then show "no_larger s' pgd v lev = no_larger s pgd v lev" by (simp add: no_larger_def)
qed

lemma missing_table_cases:
  assumes o: "owns K P s own T F" and T: "T (path v l) = Some a" "l < 3" "lvl_index 0 v \<in> own"
    and ok: "xpte_present (pt_read s a (lvl_index l v)) \<longrightarrow> is_table l (pt_read s a (lvl_index l v))"
  obtains (fail) "missing_table s a (lvl_index l v) = Some (True, s)"
  | (table) s' T' where "missing_table s a (lvl_index l v) = Some (False, s')"
      "owns K P s' own T' F" "pkeeps s s' own T F" "T \<subseteq>\<^sub>m T'"
      "T' (path v (Suc l)) = Some (child (pt_read s' a (lvl_index l v)))"
      "is_table l (pt_read s' a (lvl_index l v))" "\<And>\<rho>. length \<rho> \<noteq> Suc l \<Longrightarrow> T' \<rho> = T \<rho>"
proof (cases "xpte_present (pt_read s a (lvl_index l v))")
  case True
  note tab = ok [rule_format, OF True]
  show thesis
  proof (rule table [of s T])
    show "T (path v (Suc l)) = Some (child (pt_read s a (lvl_index l v)))"
      using table_at [OF pt_ownsD(3) [OF o] T(3,1,2)] tab by simp
  qed (use True o tab in \<open>simp_all add: missing_table_def\<close>)
next
  case False
  let ?i = "lvl_index l v"
  have own: "hd (path v l @ [?i]) \<in> own" using T(3) hd_path [of "Suc l" v] by (simp add: path_Suc)
  from pages_get [OF pt_ownsD(1) [OF o]] show thesis
  proof (elim disjE exE conjE)
    assume "kmem_get_pages s 0 = Some (0, s)"
    then show thesis using False by (intro fail) (simp add: missing_table_def alloc_page_table_def)
  next
    fix b s1 assume g: "kmem_get_pages s 0 = Some (b, s1)" "b \<noteq> 0"
    let ?e = "table_entry b" and ?s = "pt_write s1 a ?i (table_entry b)"
    have "length (path v l) < 3" using T(2) by simp
    note lt = pages.link_table [OF o T(1) this lvl_index_less own False g, of ?e]
    have e: "is_table (length (path v l)) ?e" "page_mapped b \<Longrightarrow> child ?e = b"
      using table_entry_is_table T(2) child_table_entry by simp_all
    note L = lt [OF e, folded path_Suc]
    have *: "(T(path v (Suc l) \<mapsto> b)) (path v l) = Some a" using T(1) L(3) by (auto simp: map_le_def dom_def)
    from table_at [OF pt_ownsD(3) [OF L(1)] T(3) this T(2)]
    have "is_table l (pt_read ?s a ?i)" "child (pt_read ?s a ?i) = b" by (auto split: if_splits)
    then show thesis
      using L g False by (intro table [of ?s "T(path v (Suc l) \<mapsto> b)"]) (auto simp: missing_table_def alloc_page_table_def)
  qed
qed

lemma find_or_create_step:
  assumes o: "owns K P s own T F" and T: "T [] = Some pgd" "T (path v l) = Some a" "l < lev" "lev \<le> 3"
    and own: "lvl_index 0 v \<in> own" and nl: "no_larger s pgd v lev"
  obtains (fail) "missing_table s a (lvl_index l v) = Some (True, s)"
  | (table) s' T' where "missing_table s a (lvl_index l v) = Some (False, s')"
      "owns K P s' own T' F" "pkeeps s s' own T F" "T \<subseteq>\<^sub>m T'" "T' [] = Some pgd" "no_larger s' pgd v lev"
      "T' (path v (Suc l)) = Some (child (pt_read s' a (lvl_index l v)))"
      "l = 0 \<or> \<not> xpte_pagesize (pt_read s' a (lvl_index l v))" "\<forall>\<rho>. length \<rho> = Suc lev \<longrightarrow> T' \<rho> = T \<rho>"
proof -
  have l: "l < 3" using T by simp
  have ok: "xpte_present (pt_read s a (lvl_index l v)) \<longrightarrow> is_table l (pt_read s a (lvl_index l v))"
    using no_larger_present [OF pt_ownsD(3) [OF o] own T nl] by blast
  from o T(2) l own ok show thesis
  proof (cases rule: missing_table_cases)
    case (table s' T')
    show thesis
      by (rule that(2) [OF table(1-4) _ _ table(5)])
        (use table(6) table(7) T no_larger_keeps [OF table(3) T(1) own] nl in \<open>auto simp: is_table_def\<close>)
  qed (rule that(1))
qed

lemma find_or_create_cases:
  assumes o: "owns K P s own T F" and T: "T [] = Some pgd" and own: "lvl_index 0 v \<in> own"
    and sz: "pagesz \<in> page_sizes" and nl: "no_larger s pgd v (page_level pagesz)"
  obtains (fail) s' T' where "find_or_create_pte s pgd v pagesz = Some (None, s')"
      "owns K P s' own T' F" "pkeeps s s' own T F" "T \<subseteq>\<^sub>m T'"
      "\<forall>\<rho>. length \<rho> = Suc (page_level pagesz) \<longrightarrow> T' \<rho> = T \<rho>"
  | (found) s' T' a where
      "find_or_create_pte s pgd v pagesz = Some (Some (a, lvl_index (page_level pagesz) v), s')"
      "owns K P s' own T' F" "pkeeps s s' own T F" "T \<subseteq>\<^sub>m T'" "T' (path v (page_level pagesz)) = Some a"
      "\<forall>\<rho>. length \<rho> = Suc (page_level pagesz) \<longrightarrow> T' \<rho> = T \<rho>"
proof -
  let ?lev = "page_level pagesz"
  note lev = page_level_pow(2) [OF sz]
  note defs = find_or_create_pte_def index_levels child_def [symmetric] Let_def
  have d: "VM_PAGE_2MB \<noteq> VM_PAGE_1GB" by (simp add: VM_PAGE_2MB_def VM_PAGE_1GB_def)
  have T0: "T (path v 0) = Some pgd" "0 < ?lev" "?lev \<le> 3" using T lev by auto
  from o T T0 own nl show thesis
  proof (cases rule: find_or_create_step)
    case fail
    then show thesis using o by (intro that(1) [of s T]) (simp_all add: defs)
  next
    case (table s1 T1)
    note t1 = table
    show thesis
    proof (cases "?lev = 1")
      case True
      then have "pagesz = VM_PAGE_1GB" by (simp add: page_level_def split: if_splits)
      with t1 True show thesis by (intro that(2) [OF _ t1(2-4)]) (simp_all add: defs)
    next
      case l1: False
      then have p1: "pagesz \<noteq> VM_PAGE_1GB" "1 < ?lev" using lev by (auto simp: page_level_def)
      from t1(2,5) t1(7) [folded One_nat_def] p1(2) T0(3) own t1(6) show thesis
      proof (cases rule: find_or_create_step)
        case fail
        then show thesis using t1 p1 by (intro that(1) [OF _ t1(2-4)]) (simp_all add: defs)
      next
        case (table s2 T2)
        note t2 = table
        note k = keeps_trans [OF t1(3) t2(3) t1(4)] map_le_trans [OF t1(4) t2(4)]
        show thesis
        proof (cases "?lev = 2")
          case True
          then have "pagesz = VM_PAGE_2MB" using d by (simp add: page_level_def split: if_splits)
          with t1 t2 True d show thesis
            by (intro that(2) [OF _ t2(2) k]) (simp_all add: defs numeral_2_eq_2)
        next
          case l2: False
          then have p2: "pagesz \<noteq> VM_PAGE_2MB" "2 < ?lev" "?lev = 3" using lev l1 d by (auto simp: page_level_def)
          from t2(2,5) t2(7) [unfolded Suc_1] p2(2) T0(3) own t2(6) show thesis
          proof (cases rule: find_or_create_step)
            case fail
            then show thesis using t1 t2 p1 p2 by (intro that(1) [OF _ t2(2) k]) (simp_all add: defs)
          next
            case (table s3 T3)
            note t3 = table
            show thesis
              using t1 t2 t3 p1 p2
              by (intro that(2) [OF _ t3(2) keeps_trans [OF k(1) t3(3) k(2)] map_le_trans [OF k(2) t3(4)]])
                (simp_all add: defs numeral_3_eq_3)
          qed
        qed
      qed
    qed
  qed
qed

section \<open>Mapping and unmapping a page\<close>

text \<open>The entry at which the walk for an address stops: a page, or an entry that is not present.\<close>

fun stop :: "('s \<Rightarrow> u64 \<Rightarrow> nat \<Rightarrow> u64) \<Rightarrow> 's \<Rightarrow> nat \<Rightarrow> u64 \<Rightarrow> vaddr \<Rightarrow> nat \<times> xpte" where
  "stop rd s r a v =
     (let l = 3 - r; e = rd s a (lvl_index l v)
      in if is_table l e then (case r of 0 \<Rightarrow> (l, e) | Suc r \<Rightarrow> stop rd s r (child e) v) else (l, e))"

declare stop.simps [simp del]

text \<open>A page of a size can be mapped at, or unmapped from, an address: the address lies neither in a
  larger page nor in the range of a table of smaller pages.\<close>

definition page_slot :: "kmem_state \<Rightarrow> u64 \<Rightarrow> vaddr \<Rightarrow> u64 \<Rightarrow> bool" where
  "page_slot s pgd v pagesz =
     (case stop pt_read s 3 pgd v of
        (l, e) \<Rightarrow> l \<le> page_level pagesz \<and> (xpte_present e \<longrightarrow> l = page_level pagesz))"

text \<open>The tables of an address space: the root \<^verbatim>\<open>pgd\<close> and the tables below its entries \<^verbatim>\<open>own\<close> are
  pages of the heap, no two of them the same, next to the pages \<^verbatim>\<open>F\<close> and the blocks \<^verbatim>\<open>K\<close>, \<^verbatim>\<open>P\<close>
  of everybody else.\<close>

definition page_tables ::
    "block set \<Rightarrow> block set \<Rightarrow> nat set \<Rightarrow> u64 set \<Rightarrow> u64 \<Rightarrow> kmem_state \<Rightarrow> bool" where
  "page_tables K P own F pgd s \<longleftrightarrow> (\<exists>T. owns K P s own T F \<and> T [] = Some pgd)"

lemma stop_level:
  assumes inv: "pt_inv rd s own T" and own: "lvl_index 0 v \<in> own" and T: "T (path v l) = Some a" "l \<le> 3"
    and st: "stop rd s (3 - l) a v = (m, e)"
  shows "l \<le> m \<and> m \<le> 3 \<and> T (path v (Suc m)) = None \<and>
    (\<exists>b. T (path v m) = Some b \<and> rd s b (lvl_index m v) = e \<and> \<not> is_table m e) \<and>
    walk rd s (3 - l) a v = (if xpte_present e then Some (m, e) else None)"
  using T st
proof (induction "3 - l" arbitrary: l a)
  case 0
  then have l: "l = 3" by simp
  have "T (path v 4) = None"
    using pt_invD(2) [OF inv, of "path v 4"] by (cases "T (path v 4)") auto
  then show ?case using 0 by (simp add: l stop.simps is_table_def walk_last Let_def)
next
  case (Suc r)
  then have l: "l < 3" "r = 3 - Suc l" "3 - l = Suc r" "2 - r = l" by auto
  let ?e = "rd s a (lvl_index l v)"
  note t = table_at [OF inv own Suc(3) l(1)]
  note w = walk_step [OF inv Suc(3) l(1) own]
  show ?case
  proof (cases "is_table l ?e")
    case True
    then have T': "T (path v (Suc l)) = Some (child ?e)" using t by simp
    have "stop rd s (3 - Suc l) (child ?e) v = (m, e)"
      using Suc(5) True unfolding l(3) l(2) [symmetric] by (simp add: stop.simps [of rd s "Suc r"] l(4) Let_def)
    from Suc(1) [OF l(2) T' _ this] l(1) T' show ?thesis by (simp add: w)
  next
    case False
    then have "l = m" "?e = e" using Suc(5) unfolding l(3) by (auto simp: stop.simps [of rd s "Suc r"] l(4) Let_def)
    moreover have "walk rd s (3 - l) a v = (if xpte_present ?e then Some (l, ?e) else None)" "T (path v (Suc l)) = None"
      using False t by (simp_all add: w Let_def)
    ultimately show ?thesis using l(1) False Suc(3) by auto
  qed
qed

lemma path_None_mono:
  assumes "pt_inv rd s own T" "T (path v m) = None" "m \<le> n"
  shows "T (path v n) = None"
  using path_prefix [OF assms(1) _ assms(3), of v] assms(2) by (cases "T (path v n)") auto

lemma page_slotD:
  assumes "pt_inv pt_read s own T" "lvl_index 0 v \<in> own" "T [] = Some pgd" "page_slot s pgd v pagesz"
  shows "no_larger s pgd v (page_level pagesz)" "T (path v (Suc (page_level pagesz))) = None"
proof -
  obtain m e where st: "stop pt_read s (3 - 0) pgd v = (m, e)" by fastforce
  have T0: "T (path v 0) = Some pgd" using assms(3) by simp
  note s = stop_level [OF assms(1,2) T0 _ st]
  have m: "m \<le> page_level pagesz" "xpte_present e \<longrightarrow> m = page_level pagesz"
    using assms(4) st by (simp_all add: page_slot_def)
  show "T (path v (Suc (page_level pagesz))) = None"
    by (rule path_None_mono [OF assms(1), of v "Suc m"]) (use s m in simp_all)
  show "no_larger s pgd v (page_level pagesz)" using s m by (simp add: no_larger_def)
qed

lemma page_slot_iff:
  assumes "pt_inv pt_read s own T" "lvl_index 0 v \<in> own" "T [] = Some pgd"
  shows "page_slot s pgd v pagesz \<longleftrightarrow>
    no_larger s pgd v (page_level pagesz) \<and> T (path v (Suc (page_level pagesz))) = None"
proof
  assume "page_slot s pgd v pagesz"
  with page_slotD [OF assms] show "no_larger s pgd v (page_level pagesz) \<and> T (path v (Suc (page_level pagesz))) = None"
    by blast
next
  assume h: "no_larger s pgd v (page_level pagesz) \<and> T (path v (Suc (page_level pagesz))) = None"
  obtain m e where st: "stop pt_read s (3 - 0) pgd v = (m, e)" by fastforce
  have T0: "T (path v 0) = Some pgd" using assms(3) by simp
  obtain b where b: "T (path v m) = Some b" "walk pt_read s 3 pgd v = (if xpte_present e then Some (m, e) else None)"
    using stop_level [OF assms(1,2) T0 le0 st] by auto
  have "m \<le> page_level pagesz"
  proof (rule ccontr)
    assume "\<not> m \<le> page_level pagesz"
    then have "T (path v m) = None"
      using path_None_mono [OF assms(1), of v "Suc (page_level pagesz)" m] h by simp
    then show False using b(1) by simp
  qed
  moreover have "page_level pagesz \<le> m" if "xpte_present e" using h b(2) that by (simp add: no_larger_def)
  moreover have "stop pt_read s 3 pgd v = (m, e)" using st by simp
  ultimately show "page_slot s pgd v pagesz" by (auto simp: page_slot_def)
qed

lemma set_field_base: "set_base p (set_field n b e) = set_field n b (set_base p e)"
  by (simp add: set_base_def set_field_def ac_simps)

lemma leaf_of_write_pte:
  assumes "pagesz \<in> page_sizes" "unat pagesz dvd unat paddr" "paddr < 2 ^ 52"
  shows "leaf_paddr (page_level pagesz) (write_pte paddr flags pagesz) v = paddr + (v AND (pagesz - 1))"
    "\<not> is_table (page_level pagesz) (write_pte paddr flags pagesz)"
proof -
  let ?k = "39 - 9 * page_level pagesz"
  note p = page_level_pow [OF assms(1)]
  have u: "unat pagesz = 2 ^ ?k" using p(2) by (subst p(1)) (auto simp: unat64_pow2)
  have lim: "unat paddr < 2 ^ 52" using assms(3) by (simp add: word64_less_unat)
  have b: "bits_in ?k 52 paddr" by (rule bits_inI) (use assms(2) u lim in simp_all)
  have e: "\<exists>e. write_pte paddr flags pagesz = set_base paddr e \<and> (\<forall>j. bit e j \<longrightarrow> j < 12 \<or> 52 \<le> j)"
    unfolding write_pte_def Let_def set_field_base [symmetric] by (rule exI, rule conjI [OF refl]) (simp add: bit_set_field)
  then have r: "push_bit ?k (take_bit n (drop_bit ?k (write_pte paddr flags pagesz))) = paddr" if "?k + n = 52" for n
    using field_roundtrip [OF b _ that] p(2) by auto
  have m: "pagesz - 1 = mask ?k" by (subst p(1)) (simp add: mask_eq_exp_minus_1)
  have add: "paddr OR (v AND (pagesz - 1)) = paddr + (v AND (pagesz - 1))"
    unfolding m by (rule disjunctive_add [symmetric]) (use b in \<open>auto simp: bits_in_def bit_and_iff bit_mask_iff\<close>)
  show "\<not> is_table (page_level pagesz) (write_pte paddr flags pagesz)"
    using write_pte_bits(3) [of paddr flags pagesz] assms(1) by (auto simp: is_table_def page_level_def page_sizes_def)
  show "leaf_paddr (page_level pagesz) (write_pte paddr flags pagesz) v = paddr + (v AND (pagesz - 1))"
    using assms(1) r add unfolding page_sizes_def
    by (auto simp: leaf_paddr_def page_level_def xpte_4KB_paddr_def xpte_2MB_paddr_def xpte_1GB_paddr_def
        VM_PAGE_4KB_def VM_PAGE_2MB_def VM_PAGE_1GB_def)
qed

text \<open>Writing the entry of a page, as a step of the operations.\<close>

lemma write_page_entry:
  assumes o: "owns K P s own T F" and T: "T [] = Some pgd" "T (path v l) = Some a" "l \<le> 3"
      "T (path v (Suc l)) = None"
    and own: "lvl_index 0 v \<in> own" and e: "\<not> is_table l e"
  defines "s' \<equiv> pt_write s a (lvl_index l v) e"
  shows "owns K P s' own T F"
    "lvl_index 0 w \<in> own \<Longrightarrow> walk pt_read s' 3 pgd w =
       (if path w (Suc l) = path v (Suc l) then if xpte_present e then Some (l, e) else None else walk pt_read s 3 pgd w)"
    "f \<in> F \<Longrightarrow> j < 512 \<Longrightarrow> pt_read s' f j = pt_read s f j"
    "j < 512 \<Longrightarrow> j \<notin> own \<Longrightarrow> pt_read s' pgd j = pt_read s pgd j"
proof -
  note O = pt_ownsD [OF o]
  have h: "hd (path v l @ [lvl_index l v]) \<in> own" using own hd_path [of "Suc l" v] by (simp add: path_Suc)
  have old: "\<not> is_table (length (path v l)) (pt_read s a (lvl_index l v))"
  proof (cases "l = 3")
    case False
    then show ?thesis using table_at [OF O(3) own T(2)] T(3,4) by (simp split: if_splits)
  qed (simp add: is_table_def)
  have new: "\<not> is_table (length (path v l)) e" using e by simp
  show "owns K P s' own T F" unfolding s'_def by (rule pages.write_leaf_inv [OF o T(2) lvl_index_less old new])
  have "T (path w 0) = Some pgd" using T(1) by simp
  note W = pages.write_leaf_walk [OF o T(2) lvl_index_less h old new le0 _ this, folded s'_def path_Suc]
  show "walk pt_read s' 3 pgd w =
       (if path w (Suc l) = path v (Suc l) then if xpte_present e then Some (l, e) else None else walk pt_read s 3 pgd w)"
    if "lvl_index 0 w \<in> own"
    using W [OF that] by simp
  have r: "pt_read s' b j = (if b = a \<and> j = lvl_index l v then e else pt_read s b j)"
    if "b \<in> F \<union> ran T" "j < 512" for b j
    unfolding s'_def by (rule pages.read_write [OF O(1) O(4) [OF T(2)] that(1) lvl_index_less that(2)])
  show "pt_read s' f j = pt_read s f j" if "f \<in> F" "j < 512"
    using r [of f j] that O(2) ranI [of T "path v l" a] T(2) by auto
  show "pt_read s' pgd j = pt_read s pgd j" if "j < 512" "j \<notin> own"
  proof -
    have "\<not> (pgd = a \<and> j = lvl_index l v)"
      using table_eq_iff [OF O(3) T(2,1)] that(2) h by auto
    then show ?thesis using r [of pgd j] that O(4) [OF T(1)] by auto
  qed
qed

text \<open>The heap can serve \<^verbatim>\<open>n\<close> more requests for a page; this depends on the free lists only.\<close>

fun pages_left :: "nat \<Rightarrow> kmem_state \<Rightarrow> bool" where
  "pages_left 0 s = True"
| "pages_left (Suc n) s = (case kmem_get_pages s 0 of None \<Rightarrow> False | Some (a, s') \<Rightarrow> a \<noteq> 0 \<and> pages_left n s')"

lemma get_pages_kmem:
  assumes "kmem s = kmem t" "kmem_get_pages t 0 = Some (a, t')"
  shows "\<exists>s'. kmem_get_pages s 0 = Some (a, s') \<and> kmem s' = kmem t'"
proof -
  obtain mp r mp' where b: "kmem t = Some mp" "buddy_alloc mp (unat (0 + of_nat PAGE_ORDER :: u64)) = Some (r, mp')"
    using assms(2) by (auto simp: kmem_get_pages_def Let_def bind_eq_Some_conv)
  show ?thesis
  proof (cases "ptr_of r = 0")
    case True
    then have "kmem_get_pages s 0 = Some (0, s\<lparr>kmem := Some mp'\<rparr>)" "a = 0" "kmem t' = Some mp'"
      using assms b by (auto simp: kmem_get_pages_def Let_def)
    then show ?thesis by simp
  next
    case False
    then show ?thesis using assms b by (auto simp: kmem_get_pages_def Let_def)
  qed
qed

lemma pages_left_kmem: "kmem s = kmem t \<Longrightarrow> pages_left n s = pages_left n t"
proof (induction n arbitrary: s t)
  case (Suc n)
  show ?case
  proof (cases "kmem_get_pages t 0")
    case None
    then have "kmem_get_pages s 0 = None"
      using get_pages_kmem [OF Suc(2) [symmetric]] by (cases "kmem_get_pages s 0") fastforce+
    with None show ?thesis by simp
  next
    case (Some x)
    obtain a t' where x: "x = (a, t')" by fastforce
    obtain s' where s': "kmem_get_pages s 0 = Some (a, s')" "kmem s' = kmem t'"
      using get_pages_kmem [OF Suc(2)] Some x by blast
    from Suc(1) [OF s'(2)] s'(1) Some x show ?thesis by simp
  qed
qed simp

lemma pages_left_mono: "pages_left (Suc n) s \<Longrightarrow> pages_left n s"
proof (induction n arbitrary: s)
  case (Suc n)
  obtain a s' where s': "kmem_get_pages s 0 = Some (a, s')" "a \<noteq> 0" "pages_left (Suc n) s'"
    using Suc(2) unfolding pages_left.simps(2) [of "Suc n" s]
    by (cases "kmem_get_pages s 0") (auto simp: case_prod_beta simp del: pages_left.simps)
  from s'(1,2) Suc(1) [OF s'(3)] show ?case by simp
qed simp

lemma kmem_pt_write [simp]: "kmem (pt_write s a i e) = kmem s"
  by (simp add: pt_write_def)

lemma missing_table_enough:
  assumes "pages_left (Suc n) s" "missing_table s a i = Some (fail, s')"
  shows "\<not> fail \<and> pages_left n s'"
proof (cases "xpte_present (pt_read s a i)")
  case True
  then show ?thesis using assms pages_left_mono [OF assms(1)] by (simp add: missing_table_def)
next
  case False
  obtain b s1 where g: "kmem_get_pages s 0 = Some (b, s1)" "b \<noteq> 0" "pages_left n s1"
    using assms(1) by (auto split: option.splits)
  have "fail = False" "s' = pt_write s1 a i (table_entry b)"
    using assms(2) False g by (auto simp: missing_table_def alloc_page_table_def)
  then show ?thesis using g(3) pages_left_kmem [of s' s1 n] by simp
qed

lemma find_or_create_enough:
  assumes "pages_left 3 s" "find_or_create_pte s pgd v pagesz = Some (r, s')"
  shows "r \<noteq> None"
proof -
  obtain f1 s1 where m1: "missing_table s pgd (pgd_index v) = Some (f1, s1)"
    using assms(2) by (auto simp: find_or_create_pte_def bind_eq_Some_conv)
  have 1: "\<not> f1" "pages_left 2 s1" using missing_table_enough [of 2, OF _ m1] assms(1) by (simp_all add: numeral_3_eq_3 numeral_2_eq_2)
  have 2: "\<not> f2 \<and> pages_left 1 s2" if "missing_table s1 a i = Some (f2, s2)" for a i f2 s2
    using missing_table_enough [of 1, OF _ that] 1(2) by (simp add: numeral_2_eq_2)
  let ?pud = "va (xpte_paddr (pt_read s1 pgd (pgd_index v)))"
  show ?thesis
  proof (cases "pagesz = VM_PAGE_1GB")
    case True
    then show ?thesis using assms(2) m1 1 by (auto simp: find_or_create_pte_def Let_def)
  next
    case False
    then obtain f2 s2 where m2: "missing_table s1 ?pud (pud_index v) = Some (f2, s2)"
      using assms(2) m1 1 by (auto simp: find_or_create_pte_def Let_def bind_eq_Some_conv)
    let ?pmd = "va (xpte_paddr (pt_read s2 ?pud (pud_index v)))"
    have p: "\<not> xpte_pagesize (pt_read s2 ?pud (pud_index v))"
      using assms(2) m1 1 m2 2 [OF m2] False by (auto simp: find_or_create_pte_def Let_def)
    show ?thesis
    proof (cases "pagesz = VM_PAGE_2MB")
      case True
      then show ?thesis using assms(2) m1 1 m2 2 [OF m2] p False by (auto simp: find_or_create_pte_def Let_def)
    next
      case l2: False
      then obtain f3 s3 where m3: "missing_table s2 ?pmd (pmd_index v) = Some (f3, s3)"
        using assms(2) m1 1 m2 2 [OF m2] p False by (auto simp: find_or_create_pte_def Let_def bind_eq_Some_conv)
      have "\<not> f3" using missing_table_enough [of 0, OF _ m3] 2 [OF m2] by simp
      then show ?thesis using assms(2) m1 1 m2 2 [OF m2] p m3 False l2
        by (auto simp: find_or_create_pte_def Let_def split: if_splits)
    qed
  qed
qed

lemma map_page_spec:
  assumes "page_tables K P own F pgd s" "pgd_index start \<in> own" "pagesz \<in> page_sizes"
    and "unat pagesz dvd unat paddr" "paddr < 2 ^ 52" "page_slot s pgd start pagesz"
  shows "\<exists>st s'. arch_aspace_map_page s pgd start paddr flags pagesz = Some (st, s') \<and>
    (st = OK \<or> st = Err ENOMEM) \<and> page_tables K P own F pgd s' \<and>
    (\<forall>v. pgd_index v \<in> own \<longrightarrow> arch_aspace_virt_to_phys s' pgd v =
       (if st = OK \<and> same_page pagesz v start then Inr (paddr + (v AND (pagesz - 1)))
        else arch_aspace_virt_to_phys s pgd v)) \<and>
    (st = OK \<longrightarrow> walk pt_read s' 3 pgd start = Some (page_level pagesz, write_pte paddr flags pagesz)) \<and>
    (pages_left 3 s \<longrightarrow> st = OK) \<and>
    (\<forall>v. pgd_index v \<in> own \<and> page_slot s pgd v pagesz \<longrightarrow> page_slot s' pgd v pagesz) \<and>
    (\<forall>f \<in> F. \<forall>j < 512. pt_read s' f j = pt_read s f j) \<and>
    (\<forall>j < 512. j \<notin> own \<longrightarrow> pt_read s' pgd j = pt_read s pgd j)"
proof -
  let ?l = "page_level pagesz" and ?e = "write_pte paddr flags pagesz"
  obtain T where o: "owns K P s own T F" and T: "T [] = Some pgd" using assms(1) by (auto simp: page_tables_def)
  have own: "lvl_index 0 start \<in> own" using assms(2) by (simp add: index_levels)
  note ps = page_slotD [OF pt_ownsD(3) [OF o] own T assms(6)]
  note leaf = leaf_of_write_pte [OF assms(3-5), of flags]
  have root: "T' [] = Some pgd" if "T \<subseteq>\<^sub>m T'" for T' using that T by (auto simp: map_le_def dom_def)
  from o T own assms(3) ps(1) show ?thesis
  proof (cases rule: find_or_create_cases)
    case (fail s' T')
    have "page_tables K P own F pgd s'" using fail(2) root [OF fail(4)] by (auto simp: page_tables_def)
    moreover have "arch_aspace_virt_to_phys s' pgd v = arch_aspace_virt_to_phys s pgd v" if "lvl_index 0 v \<in> own" for v
      using no_larger_keeps(1) [OF fail(3) T that] by (simp add: virt_to_phys_walk)
    moreover have "\<not> pages_left 3 s" using find_or_create_enough [OF _ fail(1)] by blast
    moreover have "page_slot s' pgd v pagesz" if "lvl_index 0 v \<in> own" "page_slot s pgd v pagesz" for v
      using that(2) page_slot_iff [OF pt_ownsD(3) [OF o] that(1) T]
        page_slot_iff [OF pt_ownsD(3) [OF fail(2)] that(1) root [OF fail(4)]] no_larger_keeps(2) [OF fail(3) T that(1)] fail(5)
      by simp
    ultimately show ?thesis using fail(1,3) T unfolding keeps_def
      by (intro exI [of _ "Err ENOMEM"] exI [of _ s']) (auto simp: arch_aspace_map_page_def index_levels)
  next
    case (found s' T' a)
    let ?s = "pt_write s' a (lvl_index ?l start) ?e"
    have l3: "?l \<le> 3" using page_level_pow(2) [OF assms(3)] by auto
    have "T' (path start (Suc ?l)) = None" using found(6) ps(2) by simp
    note w = write_page_entry [OF found(2) root [OF found(4)] found(5) l3 this own leaf(2)]
    have "page_tables K P own F pgd ?s" using w(1) root [OF found(4)] by (auto simp: page_tables_def)
    moreover have W: "walk pt_read ?s 3 pgd v =
        (if same_page pagesz v start then Some (?l, ?e) else walk pt_read s 3 pgd v)" if "lvl_index 0 v \<in> own" for v
      using w(2) [OF that] no_larger_keeps(1) [OF found(3) T that] write_pte_bits(2) same_page_path [OF assms(3)] by simp
    moreover have "walk pt_read ?s 3 pgd start = Some (?l, ?e)" using W [OF own] by (simp add: same_page_def)
    moreover have "arch_aspace_virt_to_phys ?s pgd v =
        (if same_page pagesz v start then Inr (paddr + (v AND (pagesz - 1))) else arch_aspace_virt_to_phys s pgd v)"
      if "lvl_index 0 v \<in> own" for v using W [OF that] leaf(1) by (simp add: virt_to_phys_walk)
    moreover have "page_slot ?s pgd v pagesz" if "lvl_index 0 v \<in> own" "page_slot s pgd v pagesz" for v
      using that(2) page_slot_iff [OF pt_ownsD(3) [OF o] that(1) T]
        page_slot_iff [OF pt_ownsD(3) [OF w(1)] that(1) root [OF found(4)]] W [OF that(1)] found(6)
      by (simp add: no_larger_def)
    ultimately show ?thesis using found(1,3) T w(3,4) unfolding keeps_def
      by (intro exI [of _ OK] exI [of _ ?s]) (simp add: arch_aspace_map_page_def index_levels)
  qed
qed

text \<open>C16: Mapping a page either maps exactly that page or, when the heap has no page left for a table,
  changes no translation at all. On success every address of the page translates to the physical page
  plus its offset, and the entry found by a walk is the one \<^verbatim>\<open>write_pte\<close> computed from the flags; the
  translation of every other address of the address space is the one it had; the page tables stay well
  formed; the root entries of others and the pages of others are not touched. Three free pages are always
  enough.\<close>

theorem arch_aspace_map_page_correct:
  assumes "page_tables K P own F pgd s" "pgd_index start \<in> own" "pagesz \<in> page_sizes"
    and "unat pagesz dvd unat paddr" "paddr < 2 ^ 52" "page_slot s pgd start pagesz"
  shows "\<exists>st s'. arch_aspace_map_page s pgd start paddr flags pagesz = Some (st, s') \<and>
    (st = OK \<or> st = Err ENOMEM) \<and> page_tables K P own F pgd s' \<and>
    (\<forall>v. pgd_index v \<in> own \<longrightarrow> arch_aspace_virt_to_phys s' pgd v =
       (if st = OK \<and> same_page pagesz v start then Inr (paddr + (v AND (pagesz - 1)))
        else arch_aspace_virt_to_phys s pgd v)) \<and>
    (st = OK \<longrightarrow> walk pt_read s' 3 pgd start = Some (page_level pagesz, write_pte paddr flags pagesz)) \<and>
    (pages_left 3 s \<longrightarrow> st = OK) \<and>
    (\<forall>v. pgd_index v \<in> own \<and> page_slot s pgd v pagesz \<longrightarrow> page_slot s' pgd v pagesz) \<and>
    (\<forall>f \<in> F. \<forall>j < 512. pt_read s' f j = pt_read s f j) \<and>
    (\<forall>j < 512. j \<notin> own \<longrightarrow> pt_read s' pgd j = pt_read s pgd j)"
  by (rule map_page_spec [OF assms])

lemma try_to_free_cases:
  assumes o: "owns K P s own T F" and T: "T (path v l) = Some a" "T (path v (Suc l)) = Some b"
  obtains freed s' T' where "try_to_free_table s b a (lvl_index l v) = Some (freed, s')"
    "owns K P s' own T' F" "pkeeps s s' own T' F" "\<forall>\<rho>. length \<rho> \<le> l \<longrightarrow> T' \<rho> = T \<rho>" "T' \<subseteq>\<^sub>m T"
proof (cases "\<exists>k < 512. xpte_present (pt_read s b k)")
  case True
  then have "try_to_free_table s b a (lvl_index l v) = Some (False, s)"
    by (auto simp: try_to_free_table_def list_ex_iff)
  then show thesis using o by (intro that [of False s T]) simp_all
next
  case False
  then have e: "\<And>j. j < 512 \<Longrightarrow> \<not> xpte_present (pt_read s b j)" by blast
  obtain s1 where s1: "kmem_free_pages s b 0 = Some s1"
    "owns K P (pt_write s1 a (lvl_index l v) 0) own (T(path v (Suc l) := None)) F"
    "pkeeps s (pt_write s1 a (lvl_index l v) 0) own (T(path v (Suc l) := None)) F" "T(path v (Suc l) := None) \<subseteq>\<^sub>m T"
    by (rule pages.unlink_table [OF o T(1) T(2) [unfolded path_Suc] e, folded path_Suc])
  show thesis
    by (rule that [OF _ s1(2,3) _ s1(4)]) (use False s1(1) in \<open>auto simp: try_to_free_table_def list_ex_iff\<close>)
qed

text \<open>What a run of table frees leaves: the root, its translations and everybody else's pages.\<close>

definition root_kept :: "block set \<Rightarrow> block set \<Rightarrow> nat set \<Rightarrow> u64 set \<Rightarrow> u64 \<Rightarrow> kmem_state \<Rightarrow> kmem_state \<Rightarrow> bool" where
  "root_kept K P own F pgd s s' \<longleftrightarrow> page_tables K P own F pgd s' \<and>
     (\<forall>v. lvl_index 0 v \<in> own \<longrightarrow> walk pt_read s' 3 pgd v = walk pt_read s 3 pgd v) \<and>
     (\<forall>v sz. lvl_index 0 v \<in> own \<and> page_slot s pgd v sz \<longrightarrow> page_slot s' pgd v sz) \<and>
     (\<forall>f \<in> F. \<forall>j < 512. pt_read s' f j = pt_read s f j) \<and>
     (\<forall>j < 512. j \<notin> own \<longrightarrow> pt_read s' pgd j = pt_read s pgd j)"

lemma root_keptI:
  assumes "owns K P s own T0 F" "owns K P s' own T F" "pkeeps s s' own T F" "T [] = Some pgd" "T \<subseteq>\<^sub>m T0"
  shows "root_kept K P own F pgd s s'"
proof -
  have T0: "T0 [] = Some pgd" using assms(4,5) by (auto simp: map_le_def dom_def)
  have "page_slot s' pgd v sz" if "lvl_index 0 v \<in> own" "page_slot s pgd v sz" for v sz
  proof -
    have "no_larger s pgd v (page_level sz)" "T0 (path v (Suc (page_level sz))) = None"
      using that(2) page_slot_iff [OF pt_ownsD(3) [OF assms(1)] that(1) T0] by simp_all
    moreover from this(2) have "T (path v (Suc (page_level sz))) = None"
      using assms(5) by (metis domIff map_le_def)
    ultimately show ?thesis
      using page_slot_iff [OF pt_ownsD(3) [OF assms(2)] that(1) assms(4)] no_larger_keeps(2) [OF assms(3,4) that(1)]
      by simp
  qed
  then show ?thesis
    unfolding root_kept_def using assms no_larger_keeps(1) [OF assms(3,4)]
    by (auto simp: page_tables_def keeps_def)
qed

lemma root_kept_trans: "root_kept K P own F pgd s s' \<Longrightarrow> root_kept K P own F pgd s' s'' \<Longrightarrow> root_kept K P own F pgd s s''"
  by (simp add: root_kept_def)

text \<open>The chain of frees at the end of \<^verbatim>\<open>find_and_delete_pte\<close>: from the table at level \<^verbatim>\<open>l\<close> towards the
  root, as long as tables are freed.\<close>

lemma free_chain_1:
  assumes o: "owns K P s own T F" and T: "T [] = Some pgd" "T (path v 1) = Some pud"
  obtains freed s' where "try_to_free_table s pud pgd (pgd_index v) = Some (freed, s')" "root_kept K P own F pgd s s'"
proof -
  have T0: "T (path v 0) = Some pgd" "T (path v (Suc 0)) = Some pud" using T by simp_all
  obtain freed s' T' where f: "try_to_free_table s pud pgd (lvl_index 0 v) = Some (freed, s')"
    "owns K P s' own T' F" "pkeeps s s' own T' F" "\<forall>\<rho>. length \<rho> \<le> 0 \<longrightarrow> T' \<rho> = T \<rho>" "T' \<subseteq>\<^sub>m T"
    by (rule try_to_free_cases [OF o T0])
  show thesis by (rule that [of freed s']) (use f T root_keptI [OF o f(2,3) _ f(5)] in \<open>simp_all add: index_levels\<close>)
qed

lemma free_chain_2:
  assumes o: "owns K P s own T F" and T: "T [] = Some pgd" "T (path v 1) = Some pud" "T (path v 2) = Some pmd"
  obtains s' where "do {
         (freed, s) \<leftarrow> try_to_free_table s pmd pud (pud_index v);
         if \<not> freed then Some s
         else do { (_, s) \<leftarrow> try_to_free_table s pud pgd (pgd_index v); Some s }
       } = Some s'" "root_kept K P own F pgd s s'"
proof -
  have T1: "T (path v (Suc 1)) = Some pmd" using T(3) by (simp add: numeral_2_eq_2)
  obtain freed s1 T1 where f: "try_to_free_table s pmd pud (lvl_index 1 v) = Some (freed, s1)"
    "owns K P s1 own T1 F" "pkeeps s s1 own T1 F" "\<forall>\<rho>. length \<rho> \<le> 1 \<longrightarrow> T1 \<rho> = T \<rho>" "T1 \<subseteq>\<^sub>m T"
    by (rule try_to_free_cases [OF o T(2) T1])
  have T': "T1 [] = Some pgd" "T1 (path v 1) = Some pud" using T f(4) by simp_all
  note k = root_keptI [OF o f(2,3) T'(1) f(5)]
  obtain g s2 where g: "try_to_free_table s1 pud pgd (pgd_index v) = Some (g, s2)" "root_kept K P own F pgd s1 s2"
    by (rule free_chain_1 [OF f(2) T'])
  show thesis
    by (rule that [of "if freed then s2 else s1"]) (use f(1) g k root_kept_trans [OF k g(2)] in \<open>simp_all add: index_levels\<close>)
qed

lemma free_chain_3:
  assumes o: "owns K P s own T F"
    and T: "T [] = Some pgd" "T (path v 1) = Some pud" "T (path v 2) = Some pmd" "T (path v 3) = Some ptd"
  obtains s' where "do {
       (freed, s) \<leftarrow> try_to_free_table s ptd pmd (pmd_index v);
       if \<not> freed then Some s
       else do {
         (freed, s) \<leftarrow> try_to_free_table s pmd pud (pud_index v);
         if \<not> freed then Some s
         else do { (_, s) \<leftarrow> try_to_free_table s pud pgd (pgd_index v); Some s }
       }
     } = Some s'" "root_kept K P own F pgd s s'"
proof -
  have T2: "T (path v (Suc 2)) = Some ptd" using T(4) by (simp add: numeral_3_eq_3)
  obtain freed s1 T1 where f: "try_to_free_table s ptd pmd (lvl_index 2 v) = Some (freed, s1)"
    "owns K P s1 own T1 F" "pkeeps s s1 own T1 F" "\<forall>\<rho>. length \<rho> \<le> 2 \<longrightarrow> T1 \<rho> = T \<rho>" "T1 \<subseteq>\<^sub>m T"
    by (rule try_to_free_cases [OF o T(3) T2])
  have T': "T1 [] = Some pgd" "T1 (path v 1) = Some pud" "T1 (path v 2) = Some pmd" using T f(4) by simp_all
  note k = root_keptI [OF o f(2,3) T'(1) f(5)]
  obtain s2 where g: "do {
         (freed, s) \<leftarrow> try_to_free_table s1 pmd pud (pud_index v);
         if \<not> freed then Some s
         else do { (_, s) \<leftarrow> try_to_free_table s pud pgd (pgd_index v); Some s }
       } = Some s2" "root_kept K P own F pgd s1 s2"
    by (rule free_chain_2 [OF f(2) T'])
  show thesis
    by (rule that [of "if freed then s2 else s1"]) (use f(1) g k root_kept_trans [OF k g(2)] in \<open>simp_all add: index_levels\<close>)
qed

lemma stop_unfold:
  "stop pt_read s 3 a v = (let e = pt_read s a (pgd_index v)
     in if xpte_present e then stop pt_read s 2 (child e) v else (0, e))"
  "stop pt_read s 2 a v = (let e = pt_read s a (pud_index v)
     in if xpte_present e \<and> \<not> xpte_pagesize e then stop pt_read s 1 (child e) v else (1, e))"
  "stop pt_read s 1 a v = (let e = pt_read s a (pmd_index v)
     in if xpte_present e \<and> \<not> xpte_pagesize e then stop pt_read s 0 (child e) v else (2, e))"
  "stop pt_read s 0 a v = (3, pt_read s a (ptd_index v))"
  by ((subst stop.simps, simp add: index_levels is_table_def Let_def eval_nat_numeral)+)

lemma page_level_simps [simp]:
  "page_level VM_PAGE_1GB = 1" "page_level VM_PAGE_2MB = 2" "page_level VM_PAGE_4KB = 3"
  "VM_PAGE_2MB \<noteq> VM_PAGE_1GB" "VM_PAGE_4KB \<noteq> VM_PAGE_1GB" "VM_PAGE_4KB \<noteq> VM_PAGE_2MB"
  by (simp_all add: page_level_def VM_PAGE_4KB_def VM_PAGE_2MB_def VM_PAGE_1GB_def)

lemma delete_absent:
  assumes "stop pt_read s 3 pgd v = (m, e)" "\<not> xpte_present e" "m \<le> page_level pagesz" "pagesz \<in> page_sizes"
  shows "find_and_delete_pte s pgd v pagesz = Some s"
  using assms by (auto simp: page_sizes_def find_and_delete_pte_def stop_unfold child_def Let_def
      simp del: One_nat_def split: if_splits)

lemma walk_same_page:
  assumes inv: "pt_inv rd s own T" and own: "lvl_index 0 v \<in> own" "lvl_index 0 w \<in> own" and T: "T [] = Some pgd"
    and st: "stop rd s 3 pgd v = (m, e)" and eq: "path w (Suc m) = path v (Suc m)"
  shows "walk rd s 3 pgd w = walk rd s 3 pgd v"
proof -
  have T0: "T (path v 0) = Some pgd" using T by simp
  obtain a where a: "m \<le> 3" "T (path v m) = Some a" "rd s a (lvl_index m v) = e" "\<not> is_table m e"
    using stop_level [OF inv own(1) T0 le0] st by auto
  have w: "T (path w m) = Some a" "lvl_index m w = lvl_index m v" using eq a(2) by (simp_all add: path_Suc)
  have d: "3 - (3 - m) = m" using a(1) by simp
  have "walk rd s (3 - m) a w = walk rd s (3 - m) a v"
    by (simp add: walk.simps [of rd s "3 - m"] d w(2) a(3,4) Let_def)
  then show ?thesis
    using walk_from_root [OF inv own(1) T a(1,2)] walk_from_root [OF inv own(2) T a(1) w(1)] by simp
qed

lemma path_take: "m \<le> n \<Longrightarrow> path v m = take m (path v n)"
  by (simp add: path_def take_map min_def)

lemma delete_present:
  assumes o: "owns K P s own T F" and T: "T [] = Some pgd" and own: "lvl_index 0 v \<in> own" and sz: "pagesz \<in> page_sizes"
    and st: "stop pt_read s 3 pgd v = (page_level pagesz, e)" and e: "xpte_present e"
  obtains s' a where "find_and_delete_pte s pgd v pagesz = Some s'" "T (path v (page_level pagesz)) = Some a"
    "root_kept K P own F pgd (pt_write s a (lvl_index (page_level pagesz) v) 0) s'"
proof -
  let ?l = "page_level pagesz"
  note O = pt_ownsD [OF o]
  note defs = find_and_delete_pte_def child_def [symmetric] Let_def
  have T0: "T (path v 0) = Some pgd" using T by simp
  obtain a where a: "?l \<le> 3" "T (path v ?l) = Some a" "pt_read s a (lvl_index ?l v) = e" "\<not> is_table ?l e"
    "T (path v (Suc ?l)) = None" using stop_level [OF O(3) own T0 le0] st by auto
  have w: "owns K P (pt_write s a (lvl_index ?l v) 0) own T F"
    by (rule write_page_entry(1) [OF o T a(2,1,5) own]) simp
  let ?g = "pt_read s pgd (pgd_index v)"
  let ?pud = "child ?g"
  let ?u = "pt_read s ?pud (pud_index v)"
  let ?pmd = "child ?u"
  let ?m = "pt_read s ?pmd (pmd_index v)"
  have t1: "T (path v 1) = (if xpte_present ?g then Some ?pud else None)"
    using table_at [OF O(3) own T0] by (simp add: index_levels is_table_def)
  have t2: "T (path v 2) = (if xpte_present ?u \<and> \<not> xpte_pagesize ?u then Some ?pmd else None)" if "xpte_present ?g"
    using table_at [OF O(3) own, of 1 ?pud] t1 that by (simp add: index_levels is_table_def numeral_2_eq_2)
  have t3: "T (path v 3) = (if xpte_present ?m \<and> \<not> xpte_pagesize ?m then Some (child ?m) else None)"
    if "xpte_present ?g" "xpte_present ?u \<and> \<not> xpte_pagesize ?u"
    using table_at [OF O(3) own, of 2 ?pmd] t2 that by (simp add: index_levels is_table_def numeral_3_eq_3)
  consider "pagesz = VM_PAGE_1GB" | "pagesz = VM_PAGE_2MB" | "pagesz = VM_PAGE_4KB" using sz by (auto simp: page_sizes_def)
  then show thesis
  proof cases
    case 1
    then have x: "xpte_present ?g" "a = ?pud" "e = ?u" "xpte_pagesize ?u"
      using a t1 e by (auto simp: index_levels is_table_def split: if_splits)
    obtain f s' where "try_to_free_table (pt_write s ?pud (pud_index v) 0) ?pud pgd (pgd_index v) = Some (f, s')"
      "root_kept K P own F pgd (pt_write s ?pud (pud_index v) 0) s'"
      by (rule free_chain_1 [OF w T, of v ?pud]) (use 1 x t1 in \<open>simp_all add: index_levels\<close>)
    then show thesis using 1 x e a(2) by (intro that [of s' a]) (simp_all add: defs index_levels)
  next
    case 2
    then have x: "xpte_present ?g" "xpte_present ?u \<and> \<not> xpte_pagesize ?u"
      using a(2) path_None_mono [OF O(3), of v 1 2] t1 t2 by (auto split: if_splits)
    then have y: "a = ?pmd" "e = ?m" "xpte_pagesize ?m"
      using 2 a t2 e by (auto simp: index_levels is_table_def split: if_splits)
    have w': "owns K P (pt_write s ?pmd (pmd_index v) 0) own T F" using w 2 y by (simp add: index_levels)
    have f: "find_and_delete_pte s pgd v pagesz = do {
        (freed, s) \<leftarrow> try_to_free_table (pt_write s ?pmd (pmd_index v) 0) ?pmd ?pud (pud_index v);
        if \<not> freed then Some s
        else do { (_, s) \<leftarrow> try_to_free_table s ?pud pgd (pgd_index v); Some s } }"
      using 2 x y e by (simp add: defs)
    have T2: "T (path v 1) = Some ?pud" "T (path v 2) = Some ?pmd" using t1 t2 x by simp_all
    show thesis
      by (rule free_chain_2 [OF w' T T2, folded f], rule that [OF _ a(2)]) (use 2 y in \<open>simp_all add: index_levels\<close>)
  next
    case 3
    then have x: "xpte_present ?g" "xpte_present ?u \<and> \<not> xpte_pagesize ?u" "xpte_present ?m \<and> \<not> xpte_pagesize ?m"
      using a(2) path_None_mono [OF O(3), of v 1 3] path_None_mono [OF O(3), of v 2 3] t1 t2 t3 by (auto split: if_splits)
    then have y: "a = child ?m" "e = pt_read s (child ?m) (ptd_index v)"
      using 3 a t3 by (auto simp: index_levels split: if_splits)
    let ?ptd = "child ?m"
    have w': "owns K P (pt_write s ?ptd (ptd_index v) 0) own T F" using w 3 y by (simp add: index_levels)
    have f: "find_and_delete_pte s pgd v pagesz = do {
        (freed, s) \<leftarrow> try_to_free_table (pt_write s ?ptd (ptd_index v) 0) ?ptd ?pmd (pmd_index v);
        if \<not> freed then Some s
        else do {
          (freed, s) \<leftarrow> try_to_free_table s ?pmd ?pud (pud_index v);
          if \<not> freed then Some s
          else do { (_, s) \<leftarrow> try_to_free_table s ?pud pgd (pgd_index v); Some s } } }"
      using 3 x y e by (simp add: defs)
    have T3: "T (path v 1) = Some ?pud" "T (path v 2) = Some ?pmd" "T (path v 3) = Some ?ptd" using t1 t2 t3 x by simp_all
    show thesis
      by (rule free_chain_3 [OF w' T T3, folded f], rule that [OF _ a(2)]) (use 3 y in \<open>simp_all add: index_levels\<close>)
  qed
qed

lemma unmap_page_spec:
  assumes "page_tables K P own F pgd s" "pgd_index start \<in> own" "pagesz \<in> page_sizes" "page_slot s pgd start pagesz"
  shows "\<exists>s'. arch_aspace_unmap_page s pgd start pagesz = Some s' \<and> page_tables K P own F pgd s' \<and>
    (\<forall>v. pgd_index v \<in> own \<longrightarrow> arch_aspace_virt_to_phys s' pgd v =
       (if same_page pagesz v start then Inl ENOENT else arch_aspace_virt_to_phys s pgd v)) \<and>
    (\<forall>v sz. pgd_index v \<in> own \<and> page_slot s pgd v sz \<longrightarrow> page_slot s' pgd v sz) \<and>
    (\<forall>f \<in> F. \<forall>j < 512. pt_read s' f j = pt_read s f j) \<and>
    (\<forall>j < 512. j \<notin> own \<longrightarrow> pt_read s' pgd j = pt_read s pgd j)"
proof -
  let ?l = "page_level pagesz"
  obtain T where o: "owns K P s own T F" and T: "T [] = Some pgd" using assms(1) by (auto simp: page_tables_def)
  note O = pt_ownsD [OF o]
  have own: "lvl_index 0 start \<in> own" using assms(2) by (simp add: index_levels)
  obtain m e where st: "stop pt_read s 3 pgd start = (m, e)" by fastforce
  then have m: "m \<le> ?l" "xpte_present e \<longrightarrow> m = ?l" using assms(4) by (simp_all add: page_slot_def)
  show ?thesis
  proof (cases "xpte_present e")
    case False
    have "arch_aspace_virt_to_phys s pgd v = Inl ENOENT" if "same_page pagesz v start" "lvl_index 0 v \<in> own" for v
    proof -
      have "path v (Suc ?l) = path start (Suc ?l)" using that(1) same_page_path [OF assms(3)] by simp
      then have "path v (Suc m) = path start (Suc m)" 
        using path_take [of "Suc m" "Suc ?l" v] path_take [of "Suc m" "Suc ?l" start] m(1) by simp
      note w = walk_same_page [OF O(3) own that(2) T st this]
      have "walk pt_read s 3 pgd start = None"
        using stop_level [OF O(3) own, of 0 pgd] T st False by simp
      then show ?thesis using w by (simp add: virt_to_phys_walk)
    qed
    then show ?thesis
      using delete_absent [OF st False m(1) assms(3)] assms(1)
      by (intro exI [of _ s]) (simp add: arch_aspace_unmap_page_def index_levels)
  next
    case True
    then have st': "stop pt_read s 3 pgd start = (?l, e)" using m st by simp
    obtain s' a where d: "find_and_delete_pte s pgd start pagesz = Some s'" "T (path start ?l) = Some a"
      "root_kept K P own F pgd (pt_write s a (lvl_index ?l start) 0) s'"
      by (rule delete_present [OF o T own assms(3) st' True])
    let ?s = "pt_write s a (lvl_index ?l start) 0"
    have l: "?l \<le> 3" using page_level_pow(2) [OF assms(3)] by auto
    note w = write_page_entry [OF o T d(2) l page_slotD(2) [OF O(3) own T assms(4)] own, of 0, simplified]
    have "page_slot ?s pgd v sz" if "lvl_index 0 v \<in> own" "page_slot s pgd v sz" for v sz
      using that(2) page_slot_iff [OF O(3) that(1) T] page_slot_iff [OF pt_ownsD(3) [OF w(1)] that(1) T] w(2) [OF that(1)]
      by (simp add: no_larger_def)
    with d(1,3) w same_page_path [OF assms(3)] show ?thesis
      by (intro exI [of _ s']) (simp add: root_kept_def arch_aspace_unmap_page_def index_levels virt_to_phys_walk)
  qed
qed


section \<open>Destroying an address space\<close>

text \<open>A computation that frees the pages \<^verbatim>\<open>X\<close> and nothing else, given that the pages \<^verbatim>\<open>R\<close> it reads have
  the contents they have in the state \<^verbatim>\<open>s0\<close>.\<close>

definition agree :: "kmem_state \<Rightarrow> kmem_state \<Rightarrow> u64 set \<Rightarrow> bool" where
  "agree s0 s H \<longleftrightarrow> (\<forall>b \<in> H. \<forall>i < 512. pt_read s b i = pt_read s0 b i)"

definition frees ::
    "block set \<Rightarrow> block set \<Rightarrow> kmem_state \<Rightarrow> u64 set \<Rightarrow> (kmem_state \<Rightarrow> kmem_state option) \<Rightarrow> u64 set \<Rightarrow> bool" where
  "frees K P s0 R f X \<longleftrightarrow> (\<forall>s H. pages_inv K P s H \<and> agree s0 s H \<and> R \<union> X \<subseteq> H \<longrightarrow>
     (\<exists>s'. f s = Some s' \<and> pages_inv K P s' (H - X) \<and> agree s0 s' (H - X)))"

lemma frees_skip: "frees K P s0 R Some {}"
  by (simp add: frees_def)

lemma frees_free: "frees K P s0 {} (\<lambda>s. kmem_free_pages s a 0) {a}"
  unfolding frees_def
proof (intro allI impI, elim conjE)
  fix s H assume h: "pages_inv K P s H" "agree s0 s H" "{} \<union> {a} \<subseteq> H"
  with pages_free [OF h(1), of a] show "\<exists>s'. kmem_free_pages s a 0 = Some s' \<and> pages_inv K P s' (H - {a}) \<and> agree s0 s' (H - {a})"
    by (auto simp: agree_def)
qed

lemma frees_seq:
  assumes "frees K P s0 R f X" "frees K P s0 R' g Y" "(R' \<union> Y) \<inter> X = {}"
  shows "frees K P s0 (R \<union> R') (\<lambda>s. do { s \<leftarrow> f s; g s }) (X \<union> Y)"
  unfolding frees_def
proof (intro allI impI, elim conjE)
  fix s H assume h: "pages_inv K P s H" "agree s0 s H" "(R \<union> R') \<union> (X \<union> Y) \<subseteq> H"
  then obtain s1 where s1: "f s = Some s1" "pages_inv K P s1 (H - X)" "agree s0 s1 (H - X)"
    using assms(1) unfolding frees_def by (metis Un_subset_iff)
  have "R' \<union> Y \<subseteq> H - X" using h(3) assms(3) by blast
  with s1 obtain s2 where "g s1 = Some s2" "pages_inv K P s2 (H - X - Y)" "agree s0 s2 (H - X - Y)"
    using assms(2) unfolding frees_def by metis
  then show "\<exists>s'. do { s \<leftarrow> f s; g s } = Some s' \<and> pages_inv K P s' (H - (X \<union> Y)) \<and> agree s0 s' (H - (X \<union> Y))"
    using s1(1) by (simp add: Diff_Diff_Int Diff_eq Int_assoc Un_commute double_diff set_diff_eq Collect_conj_eq)
qed

lemma frees_cong:
  assumes "frees K P s0 R g X" "\<And>s. agree s0 s R \<Longrightarrow> f s = g s"
  shows "frees K P s0 R f X"
proof -
  have "f s = g s" if "agree s0 s H" "R \<union> X \<subseteq> H" for s H
    using that by (intro assms(2)) (auto simp: agree_def)
  then show ?thesis using assms(1) unfolding frees_def by metis
qed

text \<open>The tables at and below a path.\<close>

definition below :: "shape \<Rightarrow> nat list \<Rightarrow> u64 set" where
  "below T \<pi> = {a. \<exists>\<rho>. T (\<pi> @ \<rho>) = Some a}"

lemma below_None:
  assumes "pt_inv rd s own T" "T \<pi> = None" shows "below T \<pi> = {}"
proof -
  have "T (\<pi> @ \<rho>) = None" for \<rho>
  proof (induction \<rho> rule: rev_induct)
    case (snoc k \<rho>)
    then show ?case using pt_invD(3) [OF assms(1), of "\<pi> @ \<rho>" k] by (cases "T ((\<pi> @ \<rho>) @ [k])") auto
  qed (use assms(2) in simp)
  then show ?thesis by (simp add: below_def)
qed

lemma below_Some:
  assumes "pt_inv rd s own T" "T \<pi> = Some a"
  shows "below T \<pi> = insert a (\<Union>k \<in> set [0..<512]. below T (\<pi> @ [k]))" "length \<pi> = 3 \<Longrightarrow> below T \<pi> = {a}"
proof -
  have k: "k < 512" if "T (\<pi> @ k # \<rho>) = Some b" for k \<rho> b
  proof (rule ccontr)
    assume "\<not> k < 512"
    then have "T (\<pi> @ [k]) = None" using pt_invD(4) [OF assms(1), of \<pi> k] by (cases "T (\<pi> @ [k])") auto
    from below_None [OF assms(1) this] that show False by (auto simp: below_def)
  qed
  show "below T \<pi> = insert a (\<Union>k \<in> set [0..<512]. below T (\<pi> @ [k]))"
  proof (intro set_eqI iffI)
    fix b assume "b \<in> below T \<pi>"
    then obtain \<rho> where r: "T (\<pi> @ \<rho>) = Some b" by (auto simp: below_def)
    show "b \<in> insert a (\<Union>k \<in> set [0..<512]. below T (\<pi> @ [k]))"
    proof (cases \<rho>)
      case Nil
      then show ?thesis using r assms(2) by simp
    next
      case (Cons k \<sigma>)
      then have "b \<in> below T (\<pi> @ [k])" "k < 512" using r k by (auto simp: below_def)
      then show ?thesis by auto
    qed
  next
    fix b assume "b \<in> insert a (\<Union>k \<in> set [0..<512]. below T (\<pi> @ [k]))"
    then show "b \<in> below T \<pi>" using assms(2) by (auto simp: below_def intro: exI [of _ "[]"])
  qed
  show "below T \<pi> = {a}" if "length \<pi> = 3"
  proof -
    have "\<rho> = []" if "T (\<pi> @ \<rho>) = Some b" for \<rho> b using pt_invD(2) [OF assms(1) that] \<open>length \<pi> = 3\<close> by simp
    then have "T (\<pi> @ \<rho>) = Some b \<longleftrightarrow> \<rho> = [] \<and> b = a" for \<rho> b using assms(2) by (cases "\<rho> = []") auto
    then show ?thesis by (simp add: below_def)
  qed
qed

lemma below_disjoint:
  assumes "pt_inv rd s own T"
  shows "k \<noteq> k' \<Longrightarrow> below T (\<pi> @ [k]) \<inter> below T (\<pi> @ [k']) = {}" "T \<pi> = Some a \<Longrightarrow> a \<notin> below T (\<pi> @ [k])"
proof -
  show "below T (\<pi> @ [k]) \<inter> below T (\<pi> @ [k']) = {}" if "k \<noteq> k'"
  proof (rule ccontr)
    assume "below T (\<pi> @ [k]) \<inter> below T (\<pi> @ [k']) \<noteq> {}"
    then obtain a \<rho> \<rho>' where "T ((\<pi> @ [k]) @ \<rho>) = Some a" "T ((\<pi> @ [k']) @ \<rho>') = Some a"
      unfolding below_def by blast
    then have "(\<pi> @ [k]) @ \<rho> = (\<pi> @ [k']) @ \<rho>'" by (rule pt_invD(6) [OF assms])
    then show False using that by simp
  qed
  show "a \<notin> below T (\<pi> @ [k])" if "T \<pi> = Some a"
  proof
    assume "a \<in> below T (\<pi> @ [k])"
    then obtain \<rho> where "T ((\<pi> @ [k]) @ \<rho>) = Some a" unfolding below_def by blast
    then have "(\<pi> @ [k]) @ \<rho> = \<pi>" using that by (rule pt_invD(6) [OF assms])
    then show False by simp
  qed
qed

lemma entry_below:
  assumes inv: "pt_inv pt_read s0 own T" and T: "T \<pi> = Some a" "length \<pi> < 3" "k < 512" "hd (\<pi> @ [k]) \<in> own"
  shows "T (\<pi> @ [k]) = (if is_table (length \<pi>) (pt_read s0 a k) then Some (child (pt_read s0 a k)) else None)"
    "\<not> is_table (length \<pi>) (pt_read s0 a k) \<Longrightarrow> below T (\<pi> @ [k]) = {}"
  using pt_invD(7) [OF assms] below_None [OF inv, of "\<pi> @ [k]"] by simp_all

lemma agree_read: "agree s0 s {a} \<Longrightarrow> i < 512 \<Longrightarrow> pt_read s a i = pt_read s0 a i"
  by (simp add: agree_def)

lemma rest_disjoint:
  assumes "pt_inv rd s own T" "k \<notin> set ks" "T \<pi> = Some a"
  shows "({a} \<union> (\<Union>k \<in> set ks. below T (\<pi> @ [k]))) \<inter> below T (\<pi> @ [k]) = {}"
proof -
  have "below T (\<pi> @ [j]) \<inter> below T (\<pi> @ [k]) = {}" if "j \<in> set ks" for j
    by (rule below_disjoint(1) [OF assms(1)]) (use that assms(2) in auto)
  moreover have "a \<notin> below T (\<pi> @ [k])" by (rule below_disjoint(2) [OF assms(1,3)])
  ultimately show ?thesis by blast
qed

lemma frees_ptds:
  assumes inv: "pt_inv pt_read s0 own T" and T: "T \<pi> = Some pmd" "length \<pi> = 2" "hd \<pi> \<in> own"
    and ks: "distinct ks" "set ks \<subseteq> {0..<512}"
  shows "frees K P s0 {pmd} (\<lambda>s. free_ptds s pmd ks) (\<Union>k \<in> set ks. below T (\<pi> @ [k]))"
  using ks
proof (induction ks)
  case Nil
  then show ?case by (simp add: frees_skip)
next
  case (Cons k ks)
  let ?e = "pt_read s0 pmd k"
  have k: "k < 512" "k \<notin> set ks" "hd (\<pi> @ [k]) \<in> own" "length \<pi> < 3" using Cons T by (auto simp: hd_append)
  note b = entry_below [OF inv T(1) k(4,1,3)]
  have IH: "frees K P s0 {pmd} (\<lambda>s. free_ptds s pmd ks) (\<Union>k \<in> set ks. below T (\<pi> @ [k]))" using Cons by simp
  show ?case
  proof (cases "is_table 2 ?e")
    case False
    then have "below T (\<pi> @ [k]) = {}" using b(2) T(2) by simp
    moreover have "frees K P s0 {pmd} (\<lambda>s. free_ptds s pmd (k # ks)) (\<Union>k \<in> set ks. below T (\<pi> @ [k]))"
      by (rule frees_cong [OF IH]) (use False agree_read k(1) in \<open>simp add: is_table_def Let_def\<close>)
    ultimately show ?thesis by simp
  next
    case True
    then have t: "T (\<pi> @ [k]) = Some (child ?e)" using b(1) T(2) by simp
    then have B: "below T (\<pi> @ [k]) = {child ?e}" using below_Some(2) [OF inv t] T(2) by simp
    have "frees K P s0 ({} \<union> {pmd}) (\<lambda>s. do { s \<leftarrow> kmem_free_pages s (child ?e) 0; free_ptds s pmd ks })
        ({child ?e} \<union> (\<Union>k \<in> set ks. below T (\<pi> @ [k])))"
      by (rule frees_seq [OF frees_free IH]) (use rest_disjoint [OF inv k(2) T(1)] in \<open>simp only: B\<close>)
    then have "frees K P s0 {pmd} (\<lambda>s. do { s \<leftarrow> kmem_free_pages s (child ?e) 0; free_ptds s pmd ks })
        (\<Union>k \<in> set (k # ks). below T (\<pi> @ [k]))" by (simp add: B)
    then show ?thesis
      by (rule frees_cong) (use True agree_read k(1) in \<open>simp add: is_table_def child_def Let_def\<close>)
  qed
qed

lemma frees_weaken: "frees K P s0 R f X \<Longrightarrow> R \<subseteq> R' \<union> X \<Longrightarrow> frees K P s0 R' f X"
  unfolding frees_def by (meson Un_least Un_upper2 order_trans)

lemma frees_node:
  assumes inv: "pt_inv pt_read s0 own T" and T: "T \<pi> = Some a" "T (\<pi> @ [j]) = Some c" and j: "j \<notin> set ks"
    and f: "frees K P s0 {c} f (\<Union>k \<in> set [0..<512]. below T ((\<pi> @ [j]) @ [k]))"
    and g: "frees K P s0 {a} g (\<Union>k \<in> set ks. below T (\<pi> @ [k]))"
  shows "frees K P s0 {a} (\<lambda>s. do { s \<leftarrow> f s; s \<leftarrow> kmem_free_pages s c 0; g s }) (\<Union>k \<in> set (j # ks). below T (\<pi> @ [k]))"
proof -
  let ?X = "\<Union>k \<in> set [0..<512]. below T ((\<pi> @ [j]) @ [k])" and ?Y = "\<Union>k \<in> set ks. below T (\<pi> @ [k])"
  have B: "below T (\<pi> @ [j]) = insert c ?X" by (rule below_Some(1) [OF inv T(2)])
  have c: "c \<notin> ?X" using below_disjoint(2) [OF inv T(2)] by blast
  have d: "({a} \<union> ?Y) \<inter> insert c ?X = {}" using rest_disjoint [OF inv j T(1)] unfolding B .
  have "frees K P s0 ({} \<union> {a}) (\<lambda>s. do { s \<leftarrow> kmem_free_pages s c 0; g s }) ({c} \<union> ?Y)"
    by (rule frees_seq [OF frees_free g]) (use d in blast)
  then have "frees K P s0 ({c} \<union> ({} \<union> {a})) (\<lambda>s. do { s \<leftarrow> f s; s \<leftarrow> kmem_free_pages s c 0; g s }) (?X \<union> ({c} \<union> ?Y))"
    by (rule frees_seq [OF f]) (use c d in blast)
  moreover have "(\<Union>k \<in> set (j # ks). below T (\<pi> @ [k])) = ?X \<union> ({c} \<union> ?Y)" using B by auto
  ultimately show ?thesis by (simp only:) (erule frees_weaken, blast)
qed

lemma frees_pmds:
  assumes inv: "pt_inv pt_read s0 own T" and T: "T \<pi> = Some pud" "length \<pi> = 1" "hd \<pi> \<in> own"
    and ks: "distinct ks" "set ks \<subseteq> {0..<512}"
  shows "frees K P s0 {pud} (\<lambda>s. free_pmds s pud ks) (\<Union>k \<in> set ks. below T (\<pi> @ [k]))"
  using ks
proof (induction ks)
  case Nil
  then show ?case by (simp add: frees_skip)
next
  case (Cons k ks)
  let ?e = "pt_read s0 pud k"
  have k: "k < 512" "k \<notin> set ks" "hd (\<pi> @ [k]) \<in> own" "length \<pi> < 3" using Cons T by (auto simp: hd_append)
  note b = entry_below [OF inv T(1) k(4,1,3)]
  have IH: "frees K P s0 {pud} (\<lambda>s. free_pmds s pud ks) (\<Union>k \<in> set ks. below T (\<pi> @ [k]))" using Cons by simp
  show ?case
  proof (cases "is_table 1 ?e")
    case False
    then have "below T (\<pi> @ [k]) = {}" using b(2) T(2) by simp
    moreover have "frees K P s0 {pud} (\<lambda>s. free_pmds s pud (k # ks)) (\<Union>k \<in> set ks. below T (\<pi> @ [k]))"
      by (rule frees_cong [OF IH]) (use False agree_read k(1) in \<open>simp add: is_table_def Let_def\<close>)
    ultimately show ?thesis by simp
  next
    case True
    then have t: "T (\<pi> @ [k]) = Some (child ?e)" using b(1) T(2) by simp
    have "frees K P s0 {child ?e} (\<lambda>s. free_ptds s (child ?e) [0..<512]) (\<Union>j \<in> set [0..<512]. below T ((\<pi> @ [k]) @ [j]))"
      by (rule frees_ptds [OF inv t]) (use T k(3) in auto)
    from frees_node [OF inv T(1) t k(2) this IH] show ?thesis
      by (rule frees_cong) (use True agree_read k(1) in \<open>simp add: is_table_def child_def Let_def\<close>)
  qed
qed

lemma frees_puds:
  assumes inv: "pt_inv pt_read s0 own T" and T: "T [] = Some pgd"
    and ks: "distinct ks" "set ks \<subseteq> own \<inter> {0..<512}"
  shows "frees K P s0 {pgd} (\<lambda>s. free_puds s pgd ks) (\<Union>k \<in> set ks. below T ([] @ [k]))"
  using ks
proof (induction ks)
  case Nil
  then show ?case by (simp add: frees_skip)
next
  case (Cons k ks)
  let ?e = "pt_read s0 pgd k"
  have k: "k < 512" "k \<notin> set ks" "hd ([] @ [k]) \<in> own" "length [] < 3" using Cons by auto
  note b = entry_below [OF inv T k(4,1,3)]
  have IH: "frees K P s0 {pgd} (\<lambda>s. free_puds s pgd ks) (\<Union>k \<in> set ks. below T ([] @ [k]))" using Cons by simp
  show ?case
  proof (cases "is_table 0 ?e")
    case False
    then have "below T ([] @ [k]) = {}" using b(2) by simp
    moreover have "frees K P s0 {pgd} (\<lambda>s. free_puds s pgd (k # ks)) (\<Union>k \<in> set ks. below T ([] @ [k]))"
      by (rule frees_cong [OF IH]) (use False agree_read k(1) in \<open>simp add: is_table_def Let_def\<close>)
    ultimately show ?thesis by simp
  next
    case True
    then have t: "T ([] @ [k]) = Some (child ?e)" using b(1) by simp
    have "frees K P s0 {child ?e} (\<lambda>s. free_pmds s (child ?e) [0..<512]) (\<Union>j \<in> set [0..<512]. below T (([] @ [k]) @ [j]))"
      by (rule frees_pmds [OF inv t]) (use k(3) in auto)
    from frees_node [OF inv T t k(2) this IH] show ?thesis
      by (rule frees_cong) (use True agree_read k(1) in \<open>simp add: is_table_def child_def Let_def\<close>)
  qed
qed

lemma pgd_index_PAGE_OFFSET: "pgd_index PAGE_OFFSET = 258"
  by (simp add: pgd_index_def PAGE_OFFSET_def)

abbreviation "user_pges \<equiv> {0..<258::nat}"

lemma destroy_frees:
  assumes "page_tables K P user_pges F pgd s"
  shows "\<exists>s'. arch_aspace_destroy s pgd = Some s' \<and> pages_inv K P s' F \<and>
    (\<forall>f \<in> F. \<forall>j < 512. pt_read s' f j = pt_read s f j)"
proof -
  obtain T where o: "owns K P s user_pges T F" and T: "T [] = Some pgd" using assms by (auto simp: page_tables_def)
  note O = pt_ownsD [OF o]
  let ?X = "\<Union>k \<in> set [0..<258]. below T ([] @ [k])"
  have "frees K P s {pgd} (\<lambda>s. free_puds s pgd [0..<258]) ?X" by (rule frees_puds [OF O(3) T]) auto
  then have "frees K P s ({pgd} \<union> {}) (\<lambda>s. do { s \<leftarrow> free_puds s pgd [0..<258]; kmem_free_pages s pgd 0 }) (?X \<union> {pgd})"
    by (rule frees_seq [OF _ frees_free]) (use below_disjoint(2) [OF O(3) T] in auto)
  then have fr: "frees K P s ({pgd} \<union> {}) (\<lambda>s. arch_aspace_destroy s pgd) (?X \<union> {pgd})"
    by (simp add: arch_aspace_destroy_def pgd_index_PAGE_OFFSET)
  have "below T ([] @ [k]) = {}" if "\<not> k < 258" for k
    using pt_invD(5) [OF O(3), of "[]" k] that by (intro below_None [OF O(3)]) (cases "T ([] @ [k])"; auto)
  then have "(\<Union>k \<in> set [0..<512]. below T ([] @ [k])) = ?X" by fastforce
  moreover have "ran T = below T []" by (auto simp: ran_def below_def)
  ultimately have X: "?X \<union> {pgd} = ran T" using below_Some(1) [OF O(3) T] by simp
  have "F \<union> ran T - ran T = F" using O(2) by blast
  moreover have "agree s s (F \<union> ran T)" by (simp add: agree_def)
  moreover have "({pgd} \<union> {}) \<union> ran T \<subseteq> F \<union> ran T" using T by (auto intro: ranI)
  ultimately have "\<exists>s'. arch_aspace_destroy s pgd = Some s' \<and> pages_inv K P s' F \<and> agree s s' F"
    using fr [unfolded frees_def X] O(1) by metis
  then show ?thesis by (simp add: agree_def)
qed

text \<open>C18: Destroying an address space returns every one of its page tables to the kernel heap, each exactly
  once and without a panic, and frees or changes nothing else: afterwards the heap holds exactly the pages
  of everybody else, with their contents.\<close>

theorem arch_aspace_destroy_correct:
  assumes "page_tables K P user_pges F pgd s"
  shows "\<exists>s'. arch_aspace_destroy s pgd = Some s' \<and> pages_inv K P s' F \<and>
    (\<forall>f \<in> F. \<forall>j < 512. pt_read s' f j = pt_read s f j)"
  by (rule destroy_frees [OF assms])

section \<open>Creating an address space\<close>

lemma copy_pges_read:
  assumes "pages_inv K P s H" "a \<in> H" "b \<in> H" "a \<noteq> b" "set is' \<subseteq> {0..<512}"
  shows "pages_inv K P (copy_pges s a b is') H \<and>
    (\<forall>c \<in> H. \<forall>j < 512. pt_read (copy_pges s a b is') c j = (if c = a \<and> j \<in> set is' then pt_read s b j else pt_read s c j))"
  using assms(1,5)
proof (induction is' arbitrary: s)
  case (Cons i is')
  let ?s = "pt_write s a i (pt_read s b i)"
  have i: "i < 512" using Cons(3) by simp
  note r = pages_read_write [OF Cons(2) assms(2) _ i]
  have "pages_inv K P ?s H" by (rule pages_write [OF Cons(2) assms(2) i])
  from Cons(1) [OF this] Cons(3) r assms(3,4) show ?case by auto
qed simp

lemma kmem_copy_pges: "kmem (copy_pges s a b is') = kmem s"
  by (induction is' arbitrary: s) simp_all

lemma arch_aspace_create_cases:
  assumes "pages_inv K P s F" "bootstrap_pgd \<in> F"
  obtains (fail) "arch_aspace_create s bootstrap_pgd = Some (Inl ENOMEM, s)"
  | (root) pgd s1 s' where "arch_aspace_create s bootstrap_pgd = Some (Inr pgd, s')" "page_tables K P user_pges F pgd s'"
      "\<And>j. j < 512 \<Longrightarrow> pt_read s' pgd j = (if j \<in> user_pges then 0 else pt_read s bootstrap_pgd j)"
      "\<And>f j. f \<in> F \<Longrightarrow> j < 512 \<Longrightarrow> pt_read s' f j = pt_read s f j"
      "kmem_get_pages s 0 = Some (pgd, s1)" "kmem s' = kmem s1"
      "pages_inv K P s' (insert pgd F)" "pgd \<notin> F"
  using pages_get [OF assms(1)]
proof (elim disjE exE conjE)
  assume "kmem_get_pages s 0 = Some (0, s)"
  then show thesis by (intro fail) (simp add: arch_aspace_create_def)
next
  fix pgd s1 assume g: "kmem_get_pages s 0 = Some (pgd, s1)" "pgd \<noteq> 0" "pgd \<notin> F" "pages_inv K P s1 (insert pgd F)"
    "\<forall>i < 512. pt_read s1 pgd i = 0" "\<forall>b \<in> F. \<forall>i < 512. pt_read s1 b i = pt_read s b i"
  define ks where "ks = [258..<512::nat]"
  have ks: "set ks = {258..<512}" unfolding ks_def by (rule set_upt)
  let ?s = "copy_pges s1 pgd bootstrap_pgd ks"
  have ne: "pgd \<noteq> bootstrap_pgd" using g(3) assms(2) by auto
  have c: "pages_inv K P ?s (insert pgd F)"
    "\<forall>c \<in> insert pgd F. \<forall>j < 512. pt_read ?s c j =
       (if c = pgd \<and> j \<in> set ks then pt_read s1 bootstrap_pgd j else pt_read s1 c j)"
    using copy_pges_read [OF g(4) _ _ ne, of ks] assms(2) ks by simp_all
  let ?T = "[[] \<mapsto> pgd] :: shape"
  have z: "pt_read ?s pgd j = 0" if "j < 258" for j using c(2) g(5) that ks by simp
  then have pi: "pt_inv pt_read ?s user_pges ?T" by (auto simp: pt_inv_def split: if_splits)
  have "owns K P ?s user_pges ?T F" using c(1) g(3) pi by (simp add: pt_owns_def)
  then have "page_tables K P user_pges F pgd ?s" unfolding page_tables_def by (intro exI [of _ ?T]) simp
  moreover have "arch_aspace_create s bootstrap_pgd = Some (Inr pgd, ?s)"
    unfolding arch_aspace_create_def pgd_index_PAGE_OFFSET ks_def [symmetric] using g(1,2) by simp
  moreover have "pt_read ?s pgd j = (if j \<in> user_pges then 0 else pt_read s bootstrap_pgd j)" if "j < 512" for j
    using c(2) g(6) that assms(2) ks z by simp
  moreover have "pt_read ?s f j = pt_read s f j" if "f \<in> F" "j < 512" for f j
    using c(2) g(3,6) that by auto
  moreover have "kmem ?s = kmem s1" by (rule kmem_copy_pges)
  ultimately show thesis using root g(1,3) c(1) by blast
qed

text \<open>C19: Creating the page tables of an address space either fails for lack of memory and changes
  nothing, or gives a root in which no user address translates and whose kernel entries are those of the
  bootstrap address space; nobody else's page is touched.\<close>

theorem arch_aspace_create_correct:
  assumes "pages_inv K P s F" "bootstrap_pgd \<in> F"
  shows "\<exists>r s'. arch_aspace_create s bootstrap_pgd = Some (r, s') \<and>
    (case r of
       Inl e \<Rightarrow> e = ENOMEM \<and> s' = s
     | Inr pgd \<Rightarrow> page_tables K P user_pges F pgd s' \<and>
         (\<forall>v. pgd_index v \<in> user_pges \<longrightarrow> arch_aspace_virt_to_phys s' pgd v = Inl ENOENT) \<and>
         (\<forall>j < 512. j \<notin> user_pges \<longrightarrow> pt_read s' pgd j = pt_read s bootstrap_pgd j) \<and>
         (\<forall>f \<in> F. \<forall>j < 512. pt_read s' f j = pt_read s f j))"
  using assms
proof (cases rule: arch_aspace_create_cases)
  case (root pgd s1 s')
  have "arch_aspace_virt_to_phys s' pgd v = Inl ENOENT" if "pgd_index v < 258" for v
    using root(3) [of "pgd_index v"] that by (simp add: arch_aspace_virt_to_phys_def Let_def)
  with root show ?thesis by (intro exI [of _ "Inr pgd"] exI [of _ s']) simp
qed simp

section \<open>SMARTMAP\<close>

text \<open>The translation depends on the root entry and the address bits below it only.\<close>

lemma virt_to_phys_cong:
  assumes "pt_read s a (pgd_index v) = pt_read s b (pgd_index w)" "take_bit 39 v = take_bit 39 w"
  shows "arch_aspace_virt_to_phys s a v = arch_aspace_virt_to_phys s b w"
proof -
  have bits: "bit v n = bit w n" if "n < 39" for n
    using arg_cong [OF assms(2), of "\<lambda>x. bit x n"] that by (simp add: bit_take_bit_iff)
  have i: "lvl_index l v = lvl_index l w" if "1 \<le> l" "l \<le> 3" for l
    using that bits by (subst lvl_index_eq_iff) auto
  have m: "v AND mask k = w AND mask k" if "k \<le> 39" for k
    using bits that by (intro bit_word_eqI) (auto simp: bit_and_iff bit_mask_iff)
  have "v AND 0x3FFFFFFF = w AND 0x3FFFFFFF" "v AND 0x1FFFFF = w AND 0x1FFFFF" "v AND 0xFFF = w AND 0xFFF"
    using m [of 30] m [of 21] m [of 12] by (simp_all add: mask_eq_exp_minus_1)
  then show ?thesis unfolding arch_aspace_virt_to_phys_def Let_def
    using i [of 1] i [of 2] i [of 3] by (simp add: index_levels assms(1) [unfolded index_levels] del: One_nat_def)
qed

lemma write_other_page:
  assumes o: "owns K P s own T F" and f: "f \<in> F" "i < 512"
  shows "owns K P (pt_write s f i e) own T F"
    "b \<in> F \<union> ran T \<Longrightarrow> j < 512 \<Longrightarrow> pt_read (pt_write s f i e) b j = (if b = f \<and> j = i then e else pt_read s b j)"
proof -
  note O = pt_ownsD [OF o]
  have fH: "f \<in> F \<union> ran T" using f by simp
  show r: "pt_read (pt_write s f i e) b j = (if b = f \<and> j = i then e else pt_read s b j)"
    if "b \<in> F \<union> ran T" "j < 512" for b j
    by (rule pages_read_write [OF O(1) fH that(1) f(2) that(2)])
  have same: "pt_read (pt_write s f i e) a j = pt_read s a j" if "T \<pi> = Some a" "j < 512" for \<pi> a j
    using r [of a j] O(2) ranI [of T \<pi> a] that f(1) by auto
  have "pt_inv pt_read (pt_write s f i e) own T"
    by (rule pt_inv_entries [OF O(3)]) (use pt_invD(7) [OF O(3)] same in auto)
  then show "owns K P (pt_write s f i e) own T F"
    using pages_write [OF O(1) fH f(2)] O(2) by (simp add: pt_owns_def)
qed

lemma walk_cong:
  assumes inv: "pt_inv rd s own T" and own: "lvl_index 0 v \<in> own" and T: "T (path v l) = Some a" "l \<le> 3"
    and same: "\<And>\<pi> b j. T \<pi> = Some b \<Longrightarrow> j < 512 \<Longrightarrow> rd s' b j = rd s b j"
  shows "walk rd s' (3 - l) a v = walk rd s (3 - l) a v"
  using T
proof (induction "3 - l" arbitrary: l a)
  case 0
  then have "l = 3" by simp
  then show ?case using same [OF 0(2) lvl_index_less, of 3 v] by (simp add: walk_last)
next
  case (Suc r)
  then have l: "l < 3" "r = 3 - Suc l" "3 - l = Suc r" "2 - r = l" by auto
  have e: "rd s' a (lvl_index l v) = rd s a (lvl_index l v)" by (rule same [OF Suc(3) lvl_index_less])
  show ?case
  proof (cases "is_table l (rd s a (lvl_index l v))")
    case True
    then have "T (path v (Suc l)) = Some (child (rd s a (lvl_index l v)))"
      using table_at [OF inv own Suc(3) l(1)] by simp
    from Suc(1) [OF l(2) this] l(1)
    have "walk rd s' r (child (rd s a (lvl_index l v))) v = walk rd s r (child (rd s a (lvl_index l v))) v"
      unfolding l(2) by simp
    with True e show ?thesis unfolding l(3) by (simp add: walk.simps [of rd _ "Suc r"] l(4) Let_def)
  next
    case False
    then show ?thesis unfolding l(3) by (simp add: walk.simps [of rd _ "Suc r"] l(4) e Let_def)
  qed
qed

lemma SMARTMAP_div: "unat (SMARTMAP_ALIGN div SMARTMAP_ALIGN) = 1" "unat ((2 * SMARTMAP_ALIGN) div SMARTMAP_ALIGN) = 2"
  by (simp_all add: SMARTMAP_ALIGN_def)


text \<open>The loop does not advance \<^verbatim>\<open>start\<close>: with an extent of two slots the second copy finds the entry it
  has just written present and panics.\<close>

lemma smartmap_two_slots_panics:
  assumes "arch_aspace_smartmap s src_pgd dst_pgd start (2 * SMARTMAP_ALIGN) = Some (st, s')"
    and "\<And>s'. smartmap_present s src_pgd [0..<2] = Some (OK, s') \<Longrightarrow> xpte_present (pt_read s' src_pgd 0)"
  shows "st \<noteq> OK"
proof
  assume "st = OK"
  then obtain s1 s2 where s1: "smartmap_present s src_pgd [0..<2] = Some (OK, s1)"
    "smartmap_copy s1 src_pgd dst_pgd start [0..<2] = Some s2"
    using assms(1) by (auto simp: arch_aspace_smartmap_def SMARTMAP_div Let_def bind_eq_Some_conv split: if_splits)
  have "[0..<2] = [0, 1::nat]" by (simp add: upt_rec)
  then show False using s1(2) assms(2) [OF s1(1)] by (simp add: pt_read_def pt_write_def split: if_splits)
qed

text \<open>Destroying an address space whose root still holds a SMARTMAP entry frees the tables of the source,
  although the source still refers to them.\<close>

lemma destroy_with_smartmap_dangles:
  assumes "page_tables K P user_pges F dst_pgd s" "src_pgd \<in> F" "j \<in> user_pges" "xpte_present (pt_read s dst_pgd j)"
    and "pt_read s dst_pgd j = pt_read s src_pgd 0"
  shows "\<exists>s'. arch_aspace_destroy s dst_pgd = Some s' \<and> pages_inv K P s' F \<and>
    xpte_present (pt_read s' src_pgd 0) \<and> child (pt_read s' src_pgd 0) \<notin> F"
proof -
  obtain T where o: "owns K P s user_pges T F" and T: "T [] = Some dst_pgd" using assms(1) by (auto simp: page_tables_def)
  have j: "j < 512" "hd ([] @ [j]) \<in> user_pges" using assms(3) by auto
  have "T ([] @ [j]) = Some (child (pt_read s dst_pgd j))"
    using pt_invD(7) [OF pt_ownsD(3) [OF o] T _ j] assms(4) by (simp add: is_table_def)
  then have "child (pt_read s src_pgd 0) \<notin> F" using pt_ownsD(2) [OF o] ranI [of T "[j]"] assms(5) by auto
  moreover obtain s' where "arch_aspace_destroy s dst_pgd = Some s'" "pages_inv K P s' F"
    "\<forall>f \<in> F. \<forall>j < 512. pt_read s' f j = pt_read s f j"
    using destroy_frees [OF assms(1)] by blast
  ultimately show ?thesis using assms(2,4,5) by (intro exI [of _ s']) simp
qed

section \<open>A small machine\<close>

text \<open>A heap of 16 pages in the identity map, whose first page is the root of the bootstrap address space
  and whose second page is the root of an address space created from it.\<close>

definition boot_zone :: kmem_state where
  "boot_zone = the (kmem_create_zone kmem_boot (PAGE_OFFSET + 65536) 65536)"

definition boot_pool :: kmem_state where
  "boot_pool = the (kmem_add_memory boot_zone (PAGE_OFFSET + 65536) 65536)"

definition boot_pgd :: u64 where "boot_pgd = PAGE_OFFSET + 65536"

definition boot_heap :: kmem_state where
  "boot_heap = snd (the (kmem_get_pages boot_pool 0))"

definition init_pgd :: u64 where "init_pgd = PAGE_OFFSET + 69632"

definition init_heap :: kmem_state where
  "init_heap = snd (the (arch_aspace_create boot_heap boot_pgd))"

lemma boot_runs:
  "map_option (\<lambda>_. ()) (kmem_create_zone kmem_boot (PAGE_OFFSET + 65536) 65536) = Some ()"
  "map_option (\<lambda>_. ()) (kmem_add_memory boot_zone (PAGE_OFFSET + 65536) 65536) = Some ()"
  "map_option fst (kmem_get_pages boot_pool 0) = Some boot_pgd"
  "map_option fst (kmem_get_pages boot_heap 0) = Some init_pgd"
  "pages_left 4 boot_heap"
  by code_simp+

lemma boot_steps:
  "kmem_create_zone kmem_boot (PAGE_OFFSET + 65536) 65536 = Some boot_zone"
  "kmem_add_memory boot_zone (PAGE_OFFSET + 65536) 65536 = Some boot_pool"
  "kmem_get_pages boot_pool 0 = Some (boot_pgd, boot_heap)"
  using boot_runs by (auto simp: boot_zone_def boot_pool_def boot_heap_def)

lemma boot_pool_geometry: "pool_order (kmem_pool boot_pool) = 16" "base_addr (kmem_pool boot_pool) = PAGE_OFFSET + 65536"
  by code_simp+

lemma boot_pool_pages: "pages_inv {} {} boot_pool {}"
proof -
  have f: "fls_nat 65535 = 16" by (simp add: fls_nat_pos)
  note z = kmem_create_zone_inv [OF boot_steps(1)]
  have r: "kmem_reach boot_zone {} {}"
    by (rule kmem_reach.zone [OF boot_steps(1)]) (simp_all add: f PAGE_OFFSET_def)
  have g: "pool_order (kmem_pool boot_zone) = 16" "base_addr (kmem_pool boot_zone) = PAGE_OFFSET + 65536"
    "free_blocks (kmem_pool boot_zone) = {}"
    using z by (simp_all add: f PAGE_OFFSET_def)
  have "kmem_reach boot_pool {} {}"
    by (rule kmem_reach.add [OF r, of 0 16]) (simp_all add: g blk_addr_def boot_steps(2) blk_ok_def)
  then have "kmem_inv boot_pool {} {}" by (rule kmem_reach_inv)
  moreover have "direct_mapped (kmem_pool boot_pool)"
    by (simp add: direct_mapped_def boot_pool_geometry PAGE_OFFSET_def START_KERNEL_map_def)
  ultimately show ?thesis by (simp add: pages_inv_def)
qed

lemma boot_heap_pages: "pages_inv {} {} boot_heap {boot_pgd}" "i < 512 \<Longrightarrow> pt_read boot_heap boot_pgd i = 0"
  using pages_get [OF boot_pool_pages] boot_steps(3) by (auto simp: boot_pgd_def PAGE_OFFSET_def)

lemma init_created:
  "arch_aspace_create boot_heap boot_pgd = Some (Inr init_pgd, init_heap)"
  "page_tables {} {} user_pges {boot_pgd} init_pgd init_heap"
  "j < 512 \<Longrightarrow> pt_read init_heap init_pgd j = 0" "j < 512 \<Longrightarrow> pt_read init_heap boot_pgd j = 0" "pages_left 3 init_heap"
proof -
  obtain s1 where s1: "kmem_get_pages boot_heap 0 = Some (init_pgd, s1)" using boot_runs(4) by auto
  have nz: "init_pgd \<noteq> 0" by (simp add: init_pgd_def PAGE_OFFSET_def)
  have b: "boot_pgd \<in> {boot_pgd}" by simp
  from boot_heap_pages(1) b obtain pgd s2 s' where
    c: "arch_aspace_create boot_heap boot_pgd = Some (Inr pgd, s')" "page_tables {} {} user_pges {boot_pgd} pgd s'"
      "\<forall>j < 512. pt_read s' pgd j = (if j \<in> user_pges then 0 else pt_read boot_heap boot_pgd j)"
      "\<forall>j < 512. pt_read s' boot_pgd j = pt_read boot_heap boot_pgd j"
      "kmem_get_pages boot_heap 0 = Some (pgd, s2)" "kmem s' = kmem s2"
    by (cases rule: arch_aspace_create_cases) (use s1 nz in \<open>auto simp: arch_aspace_create_def\<close>)
  have e: "pgd = init_pgd" "s' = init_heap" "s2 = s1" using c(1,5) s1 by (simp_all add: init_heap_def)
  show "arch_aspace_create boot_heap boot_pgd = Some (Inr init_pgd, init_heap)"
    "page_tables {} {} user_pges {boot_pgd} init_pgd init_heap"
    using c e by simp_all
  show "j < 512 \<Longrightarrow> pt_read init_heap init_pgd j = 0" "j < 512 \<Longrightarrow> pt_read init_heap boot_pgd j = 0"
    using c(3,4) e boot_heap_pages(2) [of j] by simp_all
  have "pages_left 3 s1" using boot_runs(5) s1 by (simp add: eval_nat_numeral)
  then show "pages_left 3 init_heap" using pages_left_kmem [OF c(6), of 3] e by simp
qed

lemma init_empty:
  "page_slot init_heap init_pgd v pagesz" "lvl_index 0 v \<in> user_pges \<longleftrightarrow> lvl_index 0 v < 258"
proof -
  have "pt_read init_heap init_pgd (lvl_index 0 v) = 0" by (rule init_created(3) [OF lvl_index_less])
  then show "page_slot init_heap init_pgd v pagesz"
    by (simp add: page_slot_def stop_unfold index_levels Let_def)
qed simp

theorem arch_aspace_create_correct_witness:
  "\<exists>pgd s'. arch_aspace_create boot_heap boot_pgd = Some (Inr pgd, s') \<and> page_tables {} {} user_pges {boot_pgd} pgd s' \<and>
    arch_aspace_virt_to_phys s' pgd 0x400000 = Inl ENOENT"
proof -
  have "pgd_index 0x400000 \<in> user_pges" by (simp add: pgd_index_def)
  with arch_aspace_create_correct [OF boot_heap_pages(1), of boot_pgd] init_created(1) show ?thesis
    by (intro exI [of _ init_pgd] exI [of _ init_heap]) auto
qed

theorem arch_aspace_map_page_correct_witness:
  "\<exists>s'. arch_aspace_map_page init_heap init_pgd 0x400000 0x200000 VM_WRITE VM_PAGE_4KB = Some (OK, s') \<and>
    page_tables {} {} user_pges {boot_pgd} init_pgd s' \<and>
    arch_aspace_virt_to_phys s' init_pgd 0x400abc = Inr 0x200abc \<and>
    arch_aspace_virt_to_phys s' init_pgd 0x401000 = arch_aspace_virt_to_phys init_heap init_pgd 0x401000"
proof -
  have u: "pgd_index 0x400000 \<in> user_pges" "pgd_index 0x400abc \<in> user_pges" "pgd_index 0x401000 \<in> user_pges"
    by (simp_all add: pgd_index_def)
  have p: "VM_PAGE_4KB \<in> page_sizes" "unat VM_PAGE_4KB dvd unat (0x200000 :: u64)" "(0x200000 :: u64) < 2 ^ 52"
    by (simp_all add: page_sizes_def VM_PAGE_4KB_def)
  have sp: "same_page VM_PAGE_4KB 0x400abc 0x400000" "\<not> same_page VM_PAGE_4KB 0x401000 0x400000"
    "(0x200000 + (0x400abc AND (VM_PAGE_4KB - 1)) :: u64) = 0x200abc"
    by (simp_all add: same_page_def VM_PAGE_4KB_def take_bit_eq_mod)
  obtain st s' where m: "arch_aspace_map_page init_heap init_pgd 0x400000 0x200000 VM_WRITE VM_PAGE_4KB = Some (st, s')"
    "st = OK" "page_tables {} {} user_pges {boot_pgd} init_pgd s'"
    "\<forall>v. pgd_index v \<in> user_pges \<longrightarrow> arch_aspace_virt_to_phys s' init_pgd v =
       (if st = OK \<and> same_page VM_PAGE_4KB v 0x400000 then Inr (0x200000 + (v AND (VM_PAGE_4KB - 1)))
        else arch_aspace_virt_to_phys init_heap init_pgd v)"
    using arch_aspace_map_page_correct [OF init_created(2) u(1) p init_empty(1), of VM_WRITE] init_created(5) by blast
  show ?thesis
    using m(1-3) m(4) [rule_format, OF u(2)] m(4) [rule_format, OF u(3)] sp by (intro exI [of _ s']) simp
qed


theorem arch_aspace_destroy_correct_witness:
  "\<exists>s'. arch_aspace_destroy init_heap init_pgd = Some s' \<and> pages_inv {} {} s' {boot_pgd}"
  using arch_aspace_destroy_correct [OF init_created(2)] by blast


end
