(* ===== verification/Kitten_String.thy ===== *)
theory Kitten_String
  imports Kitten_Prelude
begin

text \<open>
  The string and memory functions of \<^verbatim>\<open>lib/string.c\<close> and the character classes of
  \<^verbatim>\<open>lib/ctype.c\<close>.

  Memory is a function from byte addresses (natural numbers: pointers into an object do not
  wrap) to bytes. A function that only reads takes a pointer as the view of memory from there, the
  byte at each distance; a pointer it returns is such a distance, or \<^term>\<open>None\<close> for
  \<^verbatim>\<open>NULL\<close>. A function that writes takes the memory and addresses. A loop that runs to a
  terminating \<^verbatim>\<open>NUL\<close> need not end: it is a partial function, with the outer
  \<^term>\<open>None\<close> for a loop that never returns.
\<close>

type_synonym byte = "8 word"
type_synonym mem = "nat \<Rightarrow> byte"
type_synonym view = "nat \<Rightarrow> byte"

definition at :: "mem \<Rightarrow> nat \<Rightarrow> view" where
  "at m p = (\<lambda>i. m (p + i))"

definition shift :: "view \<Rightarrow> view" where
  "shift s = (\<lambda>i. s (Suc i))"

section \<open>Character classes\<close>

definition CT_U :: byte where "CT_U = 0x01"
definition CT_L :: byte where "CT_L = 0x02"
definition CT_D :: byte where "CT_D = 0x04"
definition CT_C :: byte where "CT_C = 0x08"
definition CT_P :: byte where "CT_P = 0x10"
definition CT_S :: byte where "CT_S = 0x20"
definition CT_X :: byte where "CT_X = 0x40"
definition CT_SP :: byte where "CT_SP = 0x80"

lemmas ctype_flags = CT_U_def CT_L_def CT_D_def CT_C_def CT_P_def CT_S_def CT_X_def CT_SP_def

definition ctype_table :: "byte list" where
  "ctype_table =
     replicate 9 CT_C @ replicate 5 (CT_C OR CT_S) @ replicate 18 CT_C @
     [CT_S OR CT_SP] @ replicate 15 CT_P @
     replicate 10 CT_D @ replicate 7 CT_P @
     replicate 6 (CT_U OR CT_X) @ replicate 20 CT_U @ replicate 6 CT_P @
     replicate 6 (CT_L OR CT_X) @ replicate 20 CT_L @ replicate 4 CT_P @ [CT_C] @
     replicate 32 0 @
     [CT_S OR CT_SP] @ replicate 31 CT_P @
     replicate 23 CT_U @ [CT_P] @ replicate 7 CT_U @ [CT_L] @
     replicate 23 CT_L @ [CT_P] @ replicate 8 CT_L"

definition ismask :: "byte \<Rightarrow> byte" where "ismask c = ctype_table ! unat c"
definition isalnum :: "byte \<Rightarrow> bool" where "isalnum c \<longleftrightarrow> ismask c AND (CT_U OR CT_L OR CT_D) \<noteq> 0"
definition isalpha :: "byte \<Rightarrow> bool" where "isalpha c \<longleftrightarrow> ismask c AND (CT_U OR CT_L) \<noteq> 0"
definition iscntrl :: "byte \<Rightarrow> bool" where "iscntrl c \<longleftrightarrow> ismask c AND CT_C \<noteq> 0"
definition isdigit :: "byte \<Rightarrow> bool" where "isdigit c \<longleftrightarrow> ismask c AND CT_D \<noteq> 0"
definition isgraph :: "byte \<Rightarrow> bool" where
  "isgraph c \<longleftrightarrow> ismask c AND (CT_P OR CT_U OR CT_L OR CT_D) \<noteq> 0"
definition islower :: "byte \<Rightarrow> bool" where "islower c \<longleftrightarrow> ismask c AND CT_L \<noteq> 0"
definition isprint :: "byte \<Rightarrow> bool" where
  "isprint c \<longleftrightarrow> ismask c AND (CT_P OR CT_U OR CT_L OR CT_D OR CT_SP) \<noteq> 0"
definition ispunct :: "byte \<Rightarrow> bool" where "ispunct c \<longleftrightarrow> ismask c AND CT_P \<noteq> 0"
definition isspace :: "byte \<Rightarrow> bool" where "isspace c \<longleftrightarrow> ismask c AND CT_S \<noteq> 0"
definition isupper :: "byte \<Rightarrow> bool" where "isupper c \<longleftrightarrow> ismask c AND CT_U \<noteq> 0"
definition isxdigit :: "byte \<Rightarrow> bool" where "isxdigit c \<longleftrightarrow> ismask c AND (CT_D OR CT_X) \<noteq> 0"
definition isascii :: "byte \<Rightarrow> bool" where "isascii c \<longleftrightarrow> c \<le> 0x7f"
definition toascii :: "byte \<Rightarrow> byte" where "toascii c = c AND 0x7f"

text \<open>\<^verbatim>\<open>'A' - 'a'\<close> is \<open>- 32\<close>.\<close>

definition tolower :: "byte \<Rightarrow> byte" where "tolower c = (if isupper c then c + 32 else c)"
definition toupper :: "byte \<Rightarrow> byte" where "toupper c = (if islower c then c - 32 else c)"

section \<open>Length and comparison\<close>

partial_function (option) strlen_loop :: "view \<Rightarrow> nat \<Rightarrow> nat option" where
  [code]: "strlen_loop s sc = (if s sc \<noteq> 0 then strlen_loop s (Suc sc) else Some sc)"

definition strlen :: "view \<Rightarrow> nat option" where "strlen s = strlen_loop s 0"

fun strnlen_loop :: "view \<Rightarrow> nat \<Rightarrow> nat \<Rightarrow> nat" where
  "strnlen_loop s 0 sc = sc"
| "strnlen_loop s (Suc count) sc = (if s sc \<noteq> 0 then strnlen_loop s count (Suc sc) else sc)"

definition strnlen :: "view \<Rightarrow> nat \<Rightarrow> nat" where "strnlen s count = strnlen_loop s count 0"

text \<open>The difference of two characters is stored in a \<^verbatim>\<open>signed char\<close>.\<close>

partial_function (option) strcmp :: "view \<Rightarrow> view \<Rightarrow> int option" where
  [code]: "strcmp cs ct =
     (let res = cs 0 - ct 0
      in if res \<noteq> 0 \<or> cs 0 = 0 then Some (sint res) else strcmp (shift cs) (shift ct))"

fun strncmp :: "view \<Rightarrow> view \<Rightarrow> nat \<Rightarrow> int" where
  "strncmp cs ct 0 = 0"
| "strncmp cs ct (Suc count) =
     (let res = cs 0 - ct 0
      in if res \<noteq> 0 \<or> cs 0 = 0 then sint res else strncmp (shift cs) (shift ct) count)"

fun strnicmp_loop :: "view \<Rightarrow> view \<Rightarrow> nat \<Rightarrow> byte \<Rightarrow> byte \<Rightarrow> byte \<times> byte" where
  "strnicmp_loop s1 s2 0 c1 c2 = (c1, c2)"
| "strnicmp_loop s1 s2 (Suc len) c1 c2 =
     (let c1 = s1 0; c2 = s2 0
      in if c1 = 0 \<or> c2 = 0 then (c1, c2)
         else if c1 = c2 then strnicmp_loop (shift s1) (shift s2) len c1 c2
         else let c1 = tolower c1; c2 = tolower c2
              in if c1 \<noteq> c2 then (c1, c2) else strnicmp_loop (shift s1) (shift s2) len c1 c2)"

definition strnicmp :: "view \<Rightarrow> view \<Rightarrow> nat \<Rightarrow> int" where
  "strnicmp s1 s2 len = (let (c1, c2) = strnicmp_loop s1 s2 len 0 0 in uint c1 - uint c2)"

partial_function (option) strcasecmp :: "view \<Rightarrow> view \<Rightarrow> int option" where
  [code]: "strcasecmp s1 s2 =
     (let c1 = tolower (s1 0); c2 = tolower (s2 0)
      in if c1 = c2 \<and> c1 \<noteq> 0 then strcasecmp (shift s1) (shift s2)
         else Some (uint c1 - uint c2))"

fun strncasecmp :: "view \<Rightarrow> view \<Rightarrow> nat \<Rightarrow> int" where
  "strncasecmp s1 s2 0 = 0"
| "strncasecmp s1 s2 (Suc limit) =
     (let cmp = uint (tolower (s1 0)) - uint (tolower (s2 0))
      in if cmp \<noteq> 0 \<or> s1 0 = 0 \<or> s2 0 = 0 then cmp else strncasecmp (shift s1) (shift s2) limit)"

fun memcmp :: "view \<Rightarrow> view \<Rightarrow> nat \<Rightarrow> int" where
  "memcmp su1 su2 0 = 0"
| "memcmp su1 su2 (Suc count) =
     (let res = uint (su1 0) - uint (su2 0)
      in if res \<noteq> 0 then res else memcmp (shift su1) (shift su2) count)"

section \<open>Searching\<close>

text \<open>The pointer that moves is the distance \<open>i\<close> from the start.\<close>

partial_function (option) strchr_loop :: "view \<Rightarrow> byte \<Rightarrow> nat \<Rightarrow> nat option option" where
  [code]: "strchr_loop s c i =
     (if s i \<noteq> c then if s i = 0 then Some None else strchr_loop s c (Suc i)
      else Some (Some i))"

definition strchr :: "view \<Rightarrow> byte \<Rightarrow> nat option option" where "strchr s c = strchr_loop s c 0"

fun strrchr_loop :: "view \<Rightarrow> byte \<Rightarrow> nat \<Rightarrow> nat option" where
  "strrchr_loop s c 0 = (if s 0 = c then Some 0 else None)"
| "strrchr_loop s c (Suc p) = (if s (Suc p) = c then Some (Suc p) else strrchr_loop s c p)"

definition strrchr :: "view \<Rightarrow> byte \<Rightarrow> nat option option" where
  "strrchr s c = do { n \<leftarrow> strlen s; Some (strrchr_loop s c n) }"

fun strnchr_loop :: "view \<Rightarrow> nat \<Rightarrow> byte \<Rightarrow> nat \<Rightarrow> nat option" where
  "strnchr_loop s 0 c i = None"
| "strnchr_loop s (Suc count) c i =
     (if s i = 0 then None else if s i = c then Some i else strnchr_loop s count c (Suc i))"

definition strnchr :: "view \<Rightarrow> nat \<Rightarrow> byte \<Rightarrow> nat option" where
  "strnchr s count c = strnchr_loop s count c 0"

text \<open>The inner loop shared by \<^verbatim>\<open>strspn\<close>, \<^verbatim>\<open>strcspn\<close> and
  \<^verbatim>\<open>strpbrk\<close>: does a character occur in a string?\<close>

partial_function (option) in_set :: "byte \<Rightarrow> view \<Rightarrow> bool option" where
  [code]: "in_set c a =
     (if a 0 \<noteq> 0 then if c = a 0 then Some True else in_set c (shift a) else Some False)"

partial_function (option) strspn_loop :: "view \<Rightarrow> view \<Rightarrow> nat \<Rightarrow> nat option" where
  [code]: "strspn_loop p accept count =
     (if p 0 \<noteq> 0 then do {
        b \<leftarrow> in_set (p 0) accept;
        if \<not> b then Some count else strspn_loop (shift p) accept (Suc count)
      } else Some count)"

definition strspn :: "view \<Rightarrow> view \<Rightarrow> nat option" where "strspn s accept = strspn_loop s accept 0"

partial_function (option) strcspn_loop :: "view \<Rightarrow> view \<Rightarrow> nat \<Rightarrow> nat option" where
  [code]: "strcspn_loop p reject count =
     (if p 0 \<noteq> 0 then do {
        b \<leftarrow> in_set (p 0) reject;
        if b then Some count else strcspn_loop (shift p) reject (Suc count)
      } else Some count)"

definition strcspn :: "view \<Rightarrow> view \<Rightarrow> nat option" where "strcspn s reject = strcspn_loop s reject 0"

partial_function (option) strpbrk_loop :: "view \<Rightarrow> view \<Rightarrow> nat \<Rightarrow> nat option option" where
  [code]: "strpbrk_loop sc ct i =
     (if sc 0 \<noteq> 0 then do {
        b \<leftarrow> in_set (sc 0) ct;
        if b then Some (Some i) else strpbrk_loop (shift sc) ct (Suc i)
      } else Some None)"

definition strpbrk :: "view \<Rightarrow> view \<Rightarrow> nat option option" where "strpbrk cs ct = strpbrk_loop cs ct 0"

fun memscan_loop :: "view \<Rightarrow> byte \<Rightarrow> nat \<Rightarrow> nat \<Rightarrow> nat" where
  "memscan_loop p c 0 i = i"
| "memscan_loop p c (Suc sz) i = (if p i = c then i else memscan_loop p c sz (Suc i))"

definition memscan :: "view \<Rightarrow> byte \<Rightarrow> nat \<Rightarrow> nat" where "memscan p c sz = memscan_loop p c sz 0"

fun memchr_loop :: "view \<Rightarrow> byte \<Rightarrow> nat \<Rightarrow> nat \<Rightarrow> nat option" where
  "memchr_loop p c 0 i = None"
| "memchr_loop p c (Suc n) i = (if c = p i then Some i else memchr_loop p c n (Suc i))"

definition memchr :: "view \<Rightarrow> byte \<Rightarrow> nat \<Rightarrow> nat option" where "memchr p c n = memchr_loop p c n 0"

function strstr_loop :: "view \<Rightarrow> view \<Rightarrow> nat \<Rightarrow> nat \<Rightarrow> nat \<Rightarrow> nat option" where
  "strstr_loop s1 s2 l1 l2 i =
     (if l2 \<le> l1 \<and> 0 < l2 then
        if memcmp s1 s2 l2 = 0 then Some i else strstr_loop (shift s1) s2 (l1 - 1) l2 (Suc i)
      else None)"
  by pat_completeness auto
termination
  by (relation "measure (\<lambda>(s1, s2, l1, l2, i). l1)") auto

declare strstr_loop.simps [simp del]

definition strstr :: "view \<Rightarrow> view \<Rightarrow> nat option option" where
  "strstr s1 s2 = do {
     l2 \<leftarrow> strlen s2;
     if l2 = 0 then Some (Some 0)
     else do { l1 \<leftarrow> strlen s1; Some (strstr_loop s1 s2 l1 l2 0) }
   }"

section \<open>Writing\<close>

fun memset :: "mem \<Rightarrow> nat \<Rightarrow> byte \<Rightarrow> nat \<Rightarrow> mem" where
  "memset m xs c 0 = m"
| "memset m xs c (Suc count) = memset (m(xs := c)) (Suc xs) c count"

fun memcpy :: "mem \<Rightarrow> nat \<Rightarrow> nat \<Rightarrow> nat \<Rightarrow> mem" where
  "memcpy m tmp s 0 = m"
| "memcpy m tmp s (Suc count) = memcpy (m(tmp := m s)) (Suc tmp) (Suc s) count"

fun memcpy_down :: "mem \<Rightarrow> nat \<Rightarrow> nat \<Rightarrow> nat \<Rightarrow> mem" where
  "memcpy_down m dest src 0 = m"
| "memcpy_down m dest src (Suc count) =
     memcpy_down (m(dest + count := m (src + count))) dest src count"

definition memmove :: "mem \<Rightarrow> nat \<Rightarrow> nat \<Rightarrow> nat \<Rightarrow> mem" where
  "memmove m dest src count =
     (if dest \<le> src then memcpy m dest src count else memcpy_down m dest src count)"

partial_function (option) strcpy :: "mem \<Rightarrow> nat \<Rightarrow> nat \<Rightarrow> mem option" where
  [code]: "strcpy m dest src =
     (let m' = m(dest := m src)
      in if m src \<noteq> 0 then strcpy m' (Suc dest) (Suc src) else Some m')"

fun strncpy :: "mem \<Rightarrow> nat \<Rightarrow> nat \<Rightarrow> nat \<Rightarrow> mem" where
  "strncpy m tmp src 0 = m"
| "strncpy m tmp src (Suc count) =
     strncpy (m(tmp := m src)) (Suc tmp) (if m src \<noteq> 0 then Suc src else src) count"

definition strlcpy :: "mem \<Rightarrow> nat \<Rightarrow> nat \<Rightarrow> nat \<Rightarrow> (nat \<times> mem) option" where
  "strlcpy m dest src sz = do {
     ret \<leftarrow> strlen (at m src);
     if sz = 0 then Some (ret, m)
     else let len = (if sz \<le> ret then sz - 1 else ret)
          in Some (ret, (memcpy m dest src len)(dest + len := 0))
   }"

definition strcat :: "mem \<Rightarrow> nat \<Rightarrow> nat \<Rightarrow> mem option" where
  "strcat m dest src = do { n \<leftarrow> strlen (at m dest); strcpy m (dest + n) src }"

fun strncat_loop :: "mem \<Rightarrow> nat \<Rightarrow> nat \<Rightarrow> nat \<Rightarrow> mem" where
  "strncat_loop m dest src 0 = m"
| "strncat_loop m dest src (Suc count) =
     (let m' = m(dest := m src)
      in if m src = 0 then m'
         else if count = 0 then m'(Suc dest := 0)
         else strncat_loop m' (Suc dest) (Suc src) count)"

definition strncat :: "mem \<Rightarrow> nat \<Rightarrow> nat \<Rightarrow> nat \<Rightarrow> mem option" where
  "strncat m dest src count =
     (if count = 0 then Some m
      else do { n \<leftarrow> strlen (at m dest); Some (strncat_loop m (dest + n) src count) })"

definition strlcat :: "mem \<Rightarrow> nat \<Rightarrow> nat \<Rightarrow> nat \<Rightarrow> (nat \<times> mem) option" where
  "strlcat m dest src count = do {
     dsize \<leftarrow> strlen (at m dest);
     len \<leftarrow> strlen (at m src);
     let res = dsize + len;
     if count \<le> dsize then None
     else let dest = dest + dsize;
              count = count - dsize;
              len = (if count \<le> len then count - 1 else len)
          in Some (res, (memcpy m dest src len)(dest + len := 0))
   }"

text \<open>\<^verbatim>\<open>strsep\<close> returns the old pointer, the new one and the memory.\<close>

definition strsep :: "mem \<Rightarrow> nat option \<Rightarrow> view \<Rightarrow> (nat option \<times> nat option \<times> mem) option" where
  "strsep m s ct =
     (case s of
        None \<Rightarrow> Some (None, None, m)
      | Some sbegin \<Rightarrow> do {
          e \<leftarrow> strpbrk (at m sbegin) ct;
          (case e of
             None \<Rightarrow> Some (Some sbegin, None, m)
           | Some i \<Rightarrow> Some (Some sbegin, Some (Suc (sbegin + i)), m(sbegin + i := 0)))
        })"

section \<open>Strings in memory\<close>

text \<open>\<open>cstr s xs\<close>: the view \<open>s\<close> starts with the bytes \<open>xs\<close>, none of them
  \<^verbatim>\<open>NUL\<close>, and a \<^verbatim>\<open>NUL\<close> after them.\<close>

fun cstr :: "view \<Rightarrow> byte list \<Rightarrow> bool" where
  "cstr s [] \<longleftrightarrow> s 0 = 0"
| "cstr s (x # xs) \<longleftrightarrow> s 0 = x \<and> x \<noteq> 0 \<and> cstr (shift s) xs"

lemma shift_apply: "shift s i = s (Suc i)"
  by (simp add: shift_def)

lemma at_apply: "at m p i = m (p + i)"
  by (simp add: at_def)

lemma shift_at: "shift (at m p) = at m (Suc p)"
  by (auto simp: fun_eq_iff shift_apply at_apply)

lemma cstr_iff:
  "cstr s xs \<longleftrightarrow> 0 \<notin> set xs \<and> (\<forall>i < length xs. s i = xs ! i) \<and> s (length xs) = 0"
  by (induction xs arbitrary: s) (auto simp: All_less_Suc2 shift_apply)

lemma cstr_nth: "cstr s xs \<Longrightarrow> i < length xs \<Longrightarrow> s i = xs ! i \<and> s i \<noteq> 0"
  by (auto simp: cstr_iff) (metis nth_mem)

lemma cstr_end: "cstr s xs \<Longrightarrow> s (length xs) = 0"
  by (simp add: cstr_iff)

lemma cstr_unique: "cstr s xs \<Longrightarrow> cstr s ys \<Longrightarrow> xs = ys"
  by (induction xs arbitrary: s ys) (case_tac ys; auto)+

lemma cstr_cong: "(\<And>i. i \<le> length xs \<Longrightarrow> s i = t i) \<Longrightarrow> cstr s xs = cstr t xs"
  by (auto simp: cstr_iff)

section \<open>Character classes\<close>

lemma length_ctype_table: "length ctype_table = 256"
  by (simp add: ctype_table_def)

section \<open>Length\<close>

lemma strlen_loop_run: "(\<And>j. i \<le> j \<Longrightarrow> j < n \<Longrightarrow> s j \<noteq> 0) \<Longrightarrow> s n = 0 \<Longrightarrow> i \<le> n \<Longrightarrow> strlen_loop s i = Some n"
proof (induction "n - i" arbitrary: i)
  case 0
  then show ?case by (subst strlen_loop.simps) simp
next
  case (Suc d)
  then have "s i \<noteq> 0" "strlen_loop s (Suc i) = Some n" by auto
  then show ?case by (subst strlen_loop.simps) simp
qed

lemma strlen_cstr: "cstr s xs \<Longrightarrow> strlen s = Some (length xs)"
  unfolding strlen_def by (rule strlen_loop_run) (auto simp: cstr_end dest: cstr_nth)

lemma strnlen_loop_run: 
  "cstr s xs \<Longrightarrow> i \<le> length xs \<Longrightarrow> strnlen_loop s n i = min (i + n) (length xs)"
proof (induction n arbitrary: i)
  case (Suc n)
  then show ?case using cstr_nth [OF Suc.prems(1), of i] cstr_end [OF Suc.prems(1)]
    by (cases "i = length xs") auto
qed simp

lemma strnlen_cstr: "cstr s xs \<Longrightarrow> strnlen s n = min n (length xs)"
  by (simp add: strnlen_def strnlen_loop_run)

section \<open>Comparison\<close>

lemma sint_byte_0 [simp]: "sint (a :: byte) = 0 \<longleftrightarrow> a = 0"
  by (simp only: signed_eq_0_iff)

lemma strncmp_zero: "cstr s xs \<Longrightarrow> cstr t ys \<Longrightarrow> strncmp s t n = 0 \<longleftrightarrow> take n xs = take n ys"
proof (induction n arbitrary: s t xs ys)
  case (Suc n)
  then show ?case by (cases xs; cases ys) (auto simp: Let_def)
qed simp

lemma strcmp_total: "cstr s xs \<Longrightarrow> cstr t ys \<Longrightarrow> \<exists>r. strcmp s t = Some r \<and> (r = 0 \<longleftrightarrow> xs = ys)"
proof (induction xs arbitrary: s t ys)
  case Nil
  then show ?case by (subst strcmp.simps) (cases ys; auto simp: Let_def)
next
  case (Cons x xs)
  then show ?case by (subst strcmp.simps) (cases ys; auto simp: Let_def)
qed

lemma sint_ascii: "(a :: byte) < 128 \<Longrightarrow> sint a = uint a"
proof -
  assume "a < 128"
  then have "uint a < 2 ^ (LENGTH(8) - 1)" by (simp add: word_less_def)
  moreover have "- (2 ^ (LENGTH(8) - 1)) \<le> uint a" by (rule order_trans [of _ 0]) simp_all
  ultimately show ?thesis unfolding sint_uint by (intro signed_take_bit_int_eq_self) simp_all
qed

lemma sint_diff_ascii:
  assumes "(a :: byte) < 128" "b < 128" shows "sint (a - b) = uint a - uint b"
proof -
  have "uint a < 128" "uint b < 128" using assms by (simp_all add: word_less_def)
  moreover have "0 \<le> uint a" "0 \<le> uint b" by simp_all
  ultimately have "- 128 \<le> uint a - uint b" "uint a - uint b < 128" by linarith+
  then have "- (2 ^ (LENGTH(8) - 1)) \<le> uint a - uint b" "uint a - uint b < 2 ^ (LENGTH(8) - 1)"
    by simp_all
  then show ?thesis
    unfolding sint_word_diff sint_ascii [OF assms(1)] sint_ascii [OF assms(2)]
    by (rule signed_take_bit_int_eq_self)
qed

text \<open>On ASCII strings the sign is that of the lexicographic order.\<close>

fun str_less :: "byte list \<Rightarrow> byte list \<Rightarrow> bool" where
  "str_less xs [] = False"
| "str_less [] (y # ys) = True"
| "str_less (x # xs) (y # ys) = (x < y \<or> x = y \<and> str_less xs ys)"

lemma str_less_irrefl: "\<not> str_less xs xs"
  by (induction xs) auto

lemma strcmp_sign:
  "cstr s xs \<Longrightarrow> cstr t ys \<Longrightarrow> \<forall>b \<in> set xs \<union> set ys. b < 128 \<Longrightarrow>
   \<exists>r. strcmp s t = Some r \<and> (r < 0 \<longleftrightarrow> str_less xs ys)"
proof (induction xs arbitrary: s t ys)
  case Nil
  show ?case
  proof (cases ys)
    case Nil
    with Nil.prems show ?thesis by (subst strcmp.simps) (auto simp: Let_def)
  next
    case (Cons y zs)
    with Nil.prems have z: "s 0 = 0" "t 0 = y" "y \<noteq> 0" "y < 128" by auto
    have "sint (0 - y) = uint (0 :: byte) - uint y" by (rule sint_diff_ascii) (use z in simp_all)
    moreover have "0 < uint y" using z(3) by (simp add: less_le word_uint_eq_iff [of y 0])
    ultimately show ?thesis using z Cons by (subst strcmp.simps) (auto simp: Let_def)
  qed
next
  case (Cons x xs)
  show ?case
  proof (cases ys)
    case Nil
    with Cons.prems have z: "s 0 = x" "t 0 = 0" "x \<noteq> 0" "x < 128" by auto
    have "sint (x - 0) = uint x - uint (0 :: byte)" by (rule sint_diff_ascii) (use z in simp_all)
    with z Nil show ?thesis by (subst strcmp.simps) (auto simp: Let_def)
  next
    case (Cons y zs)
    with Cons.prems have z: "s 0 = x" "t 0 = y" "x < 128" "y < 128" "x \<noteq> 0" by auto
    have d: "sint (x - y) = uint x - uint y" by (rule sint_diff_ascii) (use z in simp_all)
    show ?thesis
    proof (cases "x = y")
      case True
      have "\<exists>r. strcmp (shift s) (shift t) = Some r \<and> (r < 0 \<longleftrightarrow> str_less xs zs)"
        by (rule Cons.IH) (use Cons Cons.prems in auto)
      with z True Cons show ?thesis
        by (subst strcmp.simps) (auto simp: Let_def)
    next
      case False
      with z d Cons show ?thesis by (subst strcmp.simps) (auto simp: Let_def word_less_def)
    qed
  qed
qed

lemma memcmp_zero: "memcmp s t n = 0 \<longleftrightarrow> (\<forall>i < n. s i = t i)"
proof (induction n arbitrary: s t)
  case (Suc n)
  then show ?case by (auto simp: Let_def All_less_Suc2 shift_apply word_uint_eq_iff [of "s 0" "t 0"])
qed simp

section \<open>Searching\<close>

lemma strchr_loop_found:
  assumes "\<And>j. i \<le> j \<Longrightarrow> j < n \<Longrightarrow> s j \<noteq> 0 \<and> s j \<noteq> c" "s n = c" "i \<le> n"
  shows "strchr_loop s c i = Some (Some n)"
  using assms
proof (induction "n - i" arbitrary: i)
  case 0
  then show ?case by (subst strchr_loop.simps) simp
next
  case (Suc d)
  then have "s i \<noteq> 0 \<and> s i \<noteq> c" "strchr_loop s c (Suc i) = Some (Some n)" by auto
  then show ?case by (subst strchr_loop.simps) simp
qed

lemma strchr_loop_missing:
  assumes "\<And>j. i \<le> j \<Longrightarrow> j < n \<Longrightarrow> s j \<noteq> 0 \<and> s j \<noteq> c" "s n = 0" "c \<noteq> 0" "i \<le> n"
  shows "strchr_loop s c i = Some None"
  using assms
proof (induction "n - i" arbitrary: i)
  case 0
  then show ?case by (subst strchr_loop.simps) auto
next
  case (Suc d)
  then have "s i \<noteq> 0 \<and> s i \<noteq> c" "strchr_loop s c (Suc i) = Some None" by auto
  then show ?case by (subst strchr_loop.simps) simp
qed

lemma strchr_cstr:
  assumes "cstr s xs"
  shows "strchr s c = Some (if c \<in> set xs then Some (length (takeWhile (\<lambda>b. b \<noteq> c) xs))
    else if c = 0 then Some (length xs) else None)"
proof (cases "c \<in> set xs")
  case True
  let ?n = "length (takeWhile (\<lambda>b. b \<noteq> c) xs)"
  have n: "?n < length xs" using True by (induction xs) auto
  have "s j \<noteq> 0 \<and> s j \<noteq> c" if "j < ?n" for j
    using that n cstr_nth [OF assms, of j] by (metis (full_types) less_trans nth_mem set_takeWhileD takeWhile_nth)
  moreover have "s ?n = c" using n cstr_nth [OF assms n] nth_length_takeWhile [of "\<lambda>b. b \<noteq> c" xs] by simp
  ultimately show ?thesis using True unfolding strchr_def by (simp add: strchr_loop_found)
next
  case False
  have ne: "s j \<noteq> 0 \<and> s j \<noteq> c" if "j < length xs" for j
    using that False cstr_nth [OF assms that] by (metis nth_mem)
  show ?thesis
  proof (cases "c = 0")
    case True
    with ne False show ?thesis
      unfolding strchr_def by (simp add: strchr_loop_found [of 0 "length xs"] cstr_end [OF assms])
  next
    case c: False
    with ne False show ?thesis
      unfolding strchr_def by (simp add: strchr_loop_missing [of 0 "length xs"] cstr_end [OF assms])
  qed
qed

lemma in_set_cstr: "cstr a ys \<Longrightarrow> in_set c a = Some (c \<in> set ys)"
proof (induction ys arbitrary: a)
  case Nil
  then show ?case by (subst in_set.simps) simp
next
  case (Cons y ys)
  then show ?case by (subst in_set.simps) auto
qed

lemma strspn_cstr:
  "cstr s xs \<Longrightarrow> cstr a ys \<Longrightarrow> strspn_loop s a n = Some (n + length (takeWhile (\<lambda>b. b \<in> set ys) xs))"
proof (induction xs arbitrary: s n)
  case Nil
  then show ?case by (subst strspn_loop.simps) simp
next
  case (Cons x xs)
  then have c: "cstr (shift s) xs" by simp
  show ?case
    using Cons.prems by (subst strspn_loop.simps) (auto simp: in_set_cstr Cons.IH [OF c Cons.prems(2)])
qed

lemma strcspn_cstr:
  "cstr s xs \<Longrightarrow> cstr a ys \<Longrightarrow> strcspn_loop s a n = Some (n + length (takeWhile (\<lambda>b. b \<notin> set ys) xs))"
proof (induction xs arbitrary: s n)
  case Nil
  then show ?case by (subst strcspn_loop.simps) simp
next
  case (Cons x xs)
  then have c: "cstr (shift s) xs" by simp
  show ?case
    using Cons.prems by (subst strcspn_loop.simps) (auto simp: in_set_cstr Cons.IH [OF c Cons.prems(2)])
qed

lemma strpbrk_cstr:
  "cstr s xs \<Longrightarrow> cstr a ys \<Longrightarrow> strpbrk_loop s a n =
    Some (if set xs \<inter> set ys = {} then None else Some (n + length (takeWhile (\<lambda>b. b \<notin> set ys) xs)))"
proof (induction xs arbitrary: s n)
  case Nil
  then show ?case by (subst strpbrk_loop.simps) simp
next
  case (Cons x xs)
  then have c: "cstr (shift s) xs" by simp
  show ?case
    using Cons.prems by (subst strpbrk_loop.simps) (auto simp: in_set_cstr Cons.IH [OF c Cons.prems(2)])
qed

text \<open>\<^verbatim>\<open>strstr\<close> finds the first occurrence.\<close>

definition occurs :: "view \<Rightarrow> view \<Rightarrow> nat \<Rightarrow> nat \<Rightarrow> bool" where
  "occurs s1 s2 l2 i \<longleftrightarrow> (\<forall>k < l2. s1 (i + k) = s2 k)"

lemma occurs_0: "occurs s1 s2 l2 0 \<longleftrightarrow> memcmp s1 s2 l2 = 0"
  by (simp add: occurs_def memcmp_zero)

lemma occurs_shift: "occurs (shift s1) s2 l2 i \<longleftrightarrow> occurs s1 s2 l2 (Suc i)"
  by (simp add: occurs_def shift_apply)

lemma strstr_loop_spec:
  "0 < l2 \<Longrightarrow> (case strstr_loop s1 s2 l1 l2 i of
     None \<Rightarrow> \<forall>j. j + l2 \<le> l1 \<longrightarrow> \<not> occurs s1 s2 l2 j
   | Some k \<Rightarrow> \<exists>j. k = i + j \<and> j + l2 \<le> l1 \<and> occurs s1 s2 l2 j \<and> (\<forall>j' < j. \<not> occurs s1 s2 l2 j'))"
proof (induction l1 arbitrary: s1 i)
  case 0
  then show ?case by (subst strstr_loop.simps) auto
next
  case (Suc l1)
  show ?case
  proof (cases "l2 \<le> Suc l1")
    case False
    then show ?thesis by (subst strstr_loop.simps) auto
  next
    case le: True
    show ?thesis
    proof (cases "occurs s1 s2 l2 0")
      case True
      with le Suc.prems show ?thesis by (subst strstr_loop.simps) (auto simp: occurs_0)
    next
      case False
      have e: "strstr_loop s1 s2 (Suc l1) l2 i = strstr_loop (shift s1) s2 l1 l2 (Suc i)"
        using le Suc.prems False by (subst strstr_loop.simps) (simp add: occurs_0)
      have ih: "case strstr_loop (shift s1) s2 l1 l2 (Suc i) of
          None \<Rightarrow> \<forall>j. j + l2 \<le> l1 \<longrightarrow> \<not> occurs s1 s2 l2 (Suc j)
        | Some k \<Rightarrow> \<exists>j. k = Suc i + j \<and> j + l2 \<le> l1 \<and> occurs s1 s2 l2 (Suc j) \<and>
            (\<forall>j' < j. \<not> occurs s1 s2 l2 (Suc j'))"
        unfolding occurs_shift [symmetric] by (rule Suc.IH [OF Suc.prems])
      show ?thesis
      proof (cases "strstr_loop (shift s1) s2 l1 l2 (Suc i)")
        case None
        with ih have "\<not> occurs s1 s2 l2 j" if "j + l2 \<le> Suc l1" for j
          using that False by (cases j) auto
        with None e show ?thesis by simp
      next
        case (Some k)
        with ih obtain j where j: "k = Suc i + j" "j + l2 \<le> l1" "occurs s1 s2 l2 (Suc j)"
          "\<forall>j' < j. \<not> occurs s1 s2 l2 (Suc j')" by auto
        have "\<not> occurs s1 s2 l2 j'" if "j' < Suc j" for j'
          using that j(4) False by (cases j') auto
        with j Some e show ?thesis by (auto intro!: exI [of _ "Suc j"])
      qed
    qed
  qed
qed

section \<open>Copying\<close>

lemma memset_apply: "memset m p c n q = (if p \<le> q \<and> q < p + n then c else m q)"
proof (induction n arbitrary: m p)
  case (Suc n)
  show ?case unfolding memset.simps Suc.IH by auto
qed auto

lemma memcpy_apply:
  "dest \<le> src \<or> src + n \<le> dest \<Longrightarrow>
   memcpy m dest src n q = (if dest \<le> q \<and> q < dest + n then m (src + (q - dest)) else m q)"
proof (induction n arbitrary: m dest src)
  case (Suc n)
  have "Suc dest \<le> Suc src \<or> Suc src + n \<le> Suc dest" using Suc.prems by auto
  note ih = Suc.IH [OF this]
  have "Suc src + (q - Suc dest) = src + (q - dest)" if "Suc dest \<le> q" using that by simp
  then show ?case unfolding memcpy.simps ih using Suc.prems by (auto simp: le_Suc_eq not_less_eq_eq)
qed auto

lemma memcpy_down_apply:
  "src \<le> dest \<Longrightarrow>
   memcpy_down m dest src n q = (if dest \<le> q \<and> q < dest + n then m (src + (q - dest)) else m q)"
proof (induction n arbitrary: m)
  case (Suc n)
  show ?case unfolding memcpy_down.simps Suc.IH [OF Suc.prems] using Suc.prems by (auto simp: less_Suc_eq)
qed auto


text \<open>C31: \<^verbatim>\<open>memmove\<close> moves the bytes of the source area, also when the two areas
  overlap, and touches nothing else.\<close>

theorem memmove_correct:
  "memmove m dest src n q = (if dest \<le> q \<and> q < dest + n then m (src + (q - dest)) else m q)"
  unfolding memmove_def using memcpy_apply [of dest src n m q] memcpy_down_apply [of src dest m n q] by auto

lemma strcpy_run:
  assumes "cstr (at m src) xs" "dest + length xs < src \<or> src + length xs < dest"
  shows "\<exists>m'. strcpy m dest src = Some m' \<and>
    (\<forall>q. m' q = (if dest \<le> q \<and> q \<le> dest + length xs then m (src + (q - dest)) else m q))"
  using assms
proof (induction xs arbitrary: m dest src)
  case Nil
  then show ?case by (subst strcpy.simps) (auto simp: Let_def at_apply)
next
  case (Cons x xs)
  let ?m = "m(dest := m src)"
  have c: "cstr (at ?m (Suc src)) xs"
  proof -
    have "cstr (at m (Suc src)) xs" using Cons.prems(1) by (simp flip: shift_at)
    moreover have "at ?m (Suc src) i = at m (Suc src) i" if "i \<le> length xs" for i
      using that Cons.prems(2) by (auto simp: at_apply)
    ultimately show ?thesis using cstr_cong [of xs "at ?m (Suc src)" "at m (Suc src)"] by blast
  qed
  have "Suc dest + length xs < Suc src \<or> Suc src + length xs < Suc dest" using Cons.prems(2) by auto
  from Cons.IH [OF c this] obtain m' where m': "strcpy ?m (Suc dest) (Suc src) = Some m'"
    "\<And>q. m' q = (if Suc dest \<le> q \<and> q \<le> Suc dest + length xs then ?m (Suc src + (q - Suc dest)) else ?m q)"
    by blast
  have "m src \<noteq> 0" using Cons.prems(1) by (simp add: at_apply)
  then have run: "strcpy m dest src = Some m'" using m'(1) by (subst strcpy.simps) (simp add: Let_def)
  have sh: "Suc src + (q - Suc dest) = src + (q - dest)" if "Suc dest \<le> q" for q using that by simp
  have "m' q = (if dest \<le> q \<and> q \<le> dest + length (x # xs) then m (src + (q - dest)) else m q)" for q
  proof (cases "Suc dest \<le> q \<and> q \<le> Suc dest + length xs")
    case True
    then have "src + (q - dest) \<noteq> dest" using Cons.prems(2) by auto
    with True show ?thesis unfolding m'(2) sh [OF conjunct1 [OF True]] by auto
  next
    case False
    then show ?thesis unfolding m'(2) by (auto simp: not_less_eq_eq)
  qed
  with run show ?case by blast
qed

text \<open>\<^verbatim>\<open>strcpy\<close> of a string to an area that does not overlap it returns, leaves an
  equal string at the destination and changes nothing outside the area.\<close>

lemma strcpy_correct:
  assumes "cstr (at m src) xs" "dest + length xs < src \<or> src + length xs < dest"
  shows "\<exists>m'. strcpy m dest src = Some m' \<and> cstr (at m' dest) xs \<and>
    (\<forall>q. q < dest \<or> dest + length xs < q \<longrightarrow> m' q = m q)"
proof -
  from strcpy_run [OF assms] obtain m' where m': "strcpy m dest src = Some m'"
    "\<And>q. m' q = (if dest \<le> q \<and> q \<le> dest + length xs then m (src + (q - dest)) else m q)" by blast
  have "at m' dest i = at m src i" if "i \<le> length xs" for i using that by (simp add: m'(2) at_apply)
  then have "cstr (at m' dest) xs" using cstr_cong [of xs "at m' dest" "at m src"] assms(1) by blast
  then show ?thesis using m' by auto
qed

text \<open>C33: \<^verbatim>\<open>strlcpy\<close> into a buffer of \<open>sz\<close> bytes always leaves a terminated string:
  the source, cut to \<open>sz - 1\<close> bytes. It writes only inside the buffer and returns the length of
  the source.\<close>

theorem strlcpy_correct:
  assumes "cstr (at m src) xs" "0 < sz" "dest + sz \<le> src \<or> src + length xs < dest"
  shows "\<exists>m'. strlcpy m dest src sz = Some (length xs, m') \<and> cstr (at m' dest) (take (sz - 1) xs) \<and>
    (\<forall>q. q < dest \<or> dest + sz \<le> q \<longrightarrow> m' q = m q)"
proof -
  define len where "len = min (sz - 1) (length xs)"
  have le: "(if sz \<le> length xs then sz - 1 else length xs) = len" using assms(2) by (auto simp: len_def)
  define m' where "m' = (memcpy m dest src len)(dest + len := 0)"
  have ok: "dest \<le> src \<or> src + len \<le> dest" using assms(2,3) by (auto simp: len_def)
  have run: "strlcpy m dest src sz = Some (length xs, m')"
    using assms(2) strlen_cstr [OF assms(1)] by (simp add: strlcpy_def Let_def le m'_def)
  have b: "m' (dest + i) = xs ! i" if "i < len" for i
    using that cstr_nth [OF assms(1), of i] ok by (simp add: m'_def memcpy_apply at_apply) (simp add: len_def)
  have "cstr (at m' dest) (take (sz - 1) xs)"
    using assms(1) b by (auto simp: cstr_iff at_apply len_def dest: in_set_takeD) (simp add: m'_def len_def min.commute)
  moreover have "m' q = m q" if "q < dest \<or> dest + sz \<le> q" for q
  proof -
    have "len < sz" using assms(2) by (simp add: len_def)
    with that show ?thesis by (auto simp: m'_def memcpy_apply [OF ok])
  qed
  ultimately show ?thesis using run by blast
qed

lemma strncpy_run:
  assumes "cstr (at m src) xs" "dest + n \<le> src \<or> src + length xs < dest"
  shows "strncpy m dest src n q = (if dest \<le> q \<and> q < dest + n
    then (if q - dest < length xs then xs ! (q - dest) else 0) else m q)"
  using assms
proof (induction n arbitrary: m dest src xs)
  case (Suc n)
  let ?m = "m(dest := m src)"
  have keep: "at ?m s i = at m s i" if "src \<le> s" "i + s \<le> length xs + src" for s i
    using that Suc.prems(2) by (auto simp: at_apply)
  show ?case
  proof (cases xs)
    case Nil
    with Suc.prems have "m src = 0" by (simp add: at_apply)
    moreover have "cstr (at ?m src) []" using Nil Suc.prems(1) by (simp add: \<open>m src = 0\<close> at_apply)
    note ih = Suc.IH [OF this, of "Suc dest"]
    have "Suc dest + n \<le> src \<or> src + length ([] :: byte list) < Suc dest" using Suc.prems(2) by auto
    note ih = ih [OF this]
    show ?thesis using \<open>m src = 0\<close> Nil by (simp add: ih [unfolded \<open>m src = 0\<close>])
  next
    case (Cons x ys)
    then have x: "m src = x" "x \<noteq> 0" using Suc.prems(1) by (auto simp: at_apply)
    have "cstr (at m (Suc src)) ys" using Suc.prems(1) Cons by (simp flip: shift_at)
    then have c: "cstr (at ?m (Suc src)) ys"
      using cstr_cong [of ys "at ?m (Suc src)" "at m (Suc src)"] keep [of "Suc src"] Cons by simp
    have d: "Suc dest + n \<le> Suc src \<or> Suc src + length ys < Suc dest" using Suc.prems(2) Cons by auto
    have "strncpy m dest src (Suc n) q = strncpy ?m (Suc dest) (Suc src) n q" using x by simp
    also have "\<dots> = (if Suc dest \<le> q \<and> q < Suc dest + n
      then (if q - Suc dest < length ys then ys ! (q - Suc dest) else 0) else ?m q)"
      by (rule Suc.IH [OF c d])
    also have "\<dots> = (if dest \<le> q \<and> q < dest + Suc n
      then (if q - dest < length xs then xs ! (q - dest) else 0) else m q)"
      using x Cons by (cases "q - dest") (auto simp: nth_Cons' not_less_eq_eq diff_Suc)
    finally show ?thesis .
  qed
qed auto


text \<open>C32: comparing two terminated strings with \<^verbatim>\<open>strcmp\<close> returns, with zero exactly
  for equal strings; for ASCII strings the sign is that of their lexicographic order.\<close>

theorem strcmp_correct:
  assumes "cstr s xs" "cstr t ys"
  shows "\<exists>r. strcmp s t = Some r \<and> (r = 0 \<longleftrightarrow> xs = ys) \<and>
    ((\<forall>b \<in> set xs \<union> set ys. b < 128) \<longrightarrow> (r < 0 \<longleftrightarrow> str_less xs ys))"
  using strcmp_total [OF assms] strcmp_sign [OF assms] by auto

text \<open>On bytes above 127 the sign of \<^verbatim>\<open>strcmp\<close> is not that of the difference: the
  difference of the two characters is cut to a \<^verbatim>\<open>signed char\<close>.\<close>

lemma strcmp_sign_wraps:
  "\<exists>s t. cstr s [200] \<and> cstr t [50] \<and> strcmp s t = Some (- 106) \<and> str_less [50] [200]"
proof -
  let ?s = "\<lambda>i. if i = 0 then 200 else 0 :: byte" and ?t = "\<lambda>i. if i = 0 then 50 else 0 :: byte"
  have "strcmp ?s ?t = Some (sint (150 :: byte))" by (subst strcmp.simps) (simp add: Let_def)
  moreover have "sint (150 :: byte) = - 106" by code_simp
  moreover have "cstr ?s [200]" "cstr ?t [50]" by (simp_all add: shift_apply)
  moreover have "str_less [50] [200 :: byte]" by (simp add: word_less_nat_alt)
  ultimately show ?thesis by (intro exI [of _ ?s] exI [of _ ?t]) simp
qed


section \<open>Examples\<close>

definition hello_mem :: mem where
  "hello_mem = (\<lambda>q. if 100 \<le> q \<and> q < 105 then [104, 101, 108, 108, 111] ! (q - 100) else 0)"

lemma hello_cstr: "cstr (at hello_mem 100) [104, 101, 108, 108, 111]"
  by (simp add: hello_mem_def at_apply shift_apply)

lemma strcpy_hello:
  "\<exists>m'. strcpy hello_mem 200 100 = Some m' \<and> cstr (at m' 200) [104, 101, 108, 108, 111]"
  using strcpy_correct [OF hello_cstr, of 200] by auto

theorem strlcpy_correct_witness:
  "\<exists>m'. strlcpy hello_mem 200 100 4 = Some (5, m') \<and> cstr (at m' 200) [104, 101, 108]"
  using strlcpy_correct [OF hello_cstr, of 4 200] by (auto simp: numeral_eq_Suc)

theorem strcmp_correct_witness:
  "\<exists>r. strcmp (at hello_mem 100) (at hello_mem 101) = Some r \<and> r \<noteq> 0"
proof -
  have "cstr (at hello_mem 101) [101, 108, 108, 111]"
    by (simp add: hello_mem_def at_apply shift_apply)
  from strcmp_correct [OF hello_cstr this] show ?thesis by auto
qed


end
