(* ===== verification/Kitten_Pmem.thy ===== *)
theory Kitten_Pmem
  imports Kitten_Log2 Kitten_String
begin

text \<open>
  Physical memory management: \<^verbatim>\<open>kernel/mm/pmem.c\<close>, the system calls in front of it
  (\<^verbatim>\<open>kernel/lwk_syscalls/pmem_*.c\<close>) and the library functions built on it
  (\<^verbatim>\<open>user/liblwk/pmem.c\<close>).

  The state is the list of regions, the outcomes of the coming \<^verbatim>\<open>kmem_alloc\<close> calls,
  the calls made to map memory into the kernel or unmap it, in order, and the per-CPU flag
  \<^verbatim>\<open>umem_only\<close>. A region's name is its array of 32 bytes.
\<close>

section \<open>State\<close>

datatype pmem_type =
    PMEM_TYPE_BOOTMEM | PMEM_TYPE_BIGPHYSAREA | PMEM_TYPE_INITRD | PMEM_TYPE_INIT_TASK
  | PMEM_TYPE_KMEM | PMEM_TYPE_UMEM | PMEM_TYPE_FDT

record pmem_region =
  rgn_start :: paddr
  rgn_end :: paddr
  type_is_set :: bool
  rgn_type :: pmem_type
  numa_node_is_set :: bool
  numa_node :: u32
  allocated_is_set :: bool
  allocated :: bool
  name_is_set :: bool
  rgn_name :: "byte list"

datatype kernel_map = Map_into_kernel paddr paddr | Unmap_from_kernel paddr paddr

record pmem_state =
  pmem_list :: "pmem_region list"
  pmem_heap :: heap_oracle
  kernel_maps :: "kernel_map list"
  umem_only :: bool

section \<open>Regions\<close>

definition calc_overlap :: "pmem_region \<Rightarrow> pmem_region \<Rightarrow> (paddr \<times> paddr) option" where
  "calc_overlap a b =
     (if \<not> (rgn_start a < rgn_end b \<and> rgn_end a > rgn_start b) then None
      else Some (max (rgn_start a) (rgn_start b), min (rgn_end a) (rgn_end b)))"

definition regions_overlap :: "pmem_region \<Rightarrow> pmem_region \<Rightarrow> bool" where
  "regions_overlap a b \<longleftrightarrow> calc_overlap a b \<noteq> None"

definition region_is_unique :: "pmem_region list \<Rightarrow> pmem_region \<Rightarrow> bool" where
  "region_is_unique rs rgn = list_all (\<lambda>e. \<not> regions_overlap rgn e) rs"

definition region_is_sane :: "pmem_region \<Rightarrow> bool" where
  "region_is_sane rgn \<longleftrightarrow> \<not> rgn_end rgn \<le> rgn_start rgn \<and>
     (name_is_set rgn \<longrightarrow> list_ex (\<lambda>c. c = 0) (rgn_name rgn))"

fun known_loop :: "pmem_region \<Rightarrow> pmem_region list \<Rightarrow> u64 \<Rightarrow> u64" where
  "known_loop rgn [] sz = sz"
| "known_loop rgn (e # es) sz =
     (case calc_overlap rgn e of
        None \<Rightarrow> known_loop rgn es sz
      | Some (s, t) \<Rightarrow> known_loop rgn es (sz - (t - s)))"

definition region_is_known :: "pmem_region list \<Rightarrow> pmem_region \<Rightarrow> bool" where
  "region_is_known rs rgn \<longleftrightarrow> known_loop rgn rs (rgn_end rgn - rgn_start rgn) = 0"

definition insert_pmem_list_entry :: "pmem_region \<Rightarrow> pmem_region list \<Rightarrow> pmem_region list" where
  "insert_pmem_list_entry e rs = link_sorted rgn_start e rs"

text \<open>An array as the view a pointer to its first element has.\<close>

definition array_view :: "byte list \<Rightarrow> view" where
  "array_view xs = (\<lambda>i. if i < length xs then xs ! i else 0)"

definition names_differ :: "pmem_region \<Rightarrow> pmem_region \<Rightarrow> bool" where
  "names_differ a b \<longleftrightarrow> strncmp (array_view (rgn_name a)) (array_view (rgn_name b)) 32 \<noteq> 0"

definition regions_are_mergeable :: "pmem_region \<Rightarrow> pmem_region \<Rightarrow> bool" where
  "regions_are_mergeable a b \<longleftrightarrow>
     \<not> (rgn_end a \<noteq> rgn_start b \<and> rgn_end b \<noteq> rgn_start a) \<and>
     type_is_set a = type_is_set b \<and> \<not> (type_is_set a \<and> rgn_type a \<noteq> rgn_type b) \<and>
     numa_node_is_set a = numa_node_is_set b \<and> \<not> (numa_node_is_set a \<and> numa_node a \<noteq> numa_node b) \<and>
     allocated_is_set a = allocated_is_set b \<and> \<not> (allocated_is_set a \<and> allocated a \<noteq> allocated b) \<and>
     name_is_set a = name_is_set b \<and> \<not> (name_is_set a \<and> names_differ a b)"

definition region_matches :: "pmem_region \<Rightarrow> pmem_region \<Rightarrow> bool" where
  "region_matches query rgn \<longleftrightarrow>
     regions_overlap query rgn \<and>
     \<not> (type_is_set query \<and> (\<not> type_is_set rgn \<or> rgn_type rgn \<noteq> rgn_type query)) \<and>
     \<not> (numa_node_is_set query \<and> (\<not> numa_node_is_set rgn \<or> numa_node rgn \<noteq> numa_node query)) \<and>
     \<not> (allocated_is_set query \<and> (\<not> allocated_is_set rgn \<or> allocated rgn \<noteq> allocated query)) \<and>
     \<not> (name_is_set query \<and> (\<not> name_is_set rgn \<or> names_differ rgn query))"

fun merge_from :: "pmem_region \<Rightarrow> pmem_region list \<Rightarrow> pmem_region list" where
  "merge_from prev [] = [prev]"
| "merge_from prev (e # es) =
     (if regions_are_mergeable prev e then merge_from (prev\<lparr>rgn_end := rgn_end e\<rparr>) es
      else prev # merge_from e es)"

fun merge_pmem_list :: "pmem_region list \<Rightarrow> pmem_region list" where
  "merge_pmem_list [] = []"
| "merge_pmem_list (e # es) = merge_from e es"

section \<open>Adding, deleting and updating\<close>

definition pmem_add :: "pmem_state \<Rightarrow> pmem_region \<Rightarrow> status \<times> pmem_state" where
  "pmem_add s rgn =
     (if \<not> region_is_sane rgn then (Err EINVAL, s)
      else if \<not> region_is_unique (pmem_list s) rgn then (Err EEXIST, s)
      else let (ok, h) = take_alloc (pmem_heap s) in
        if \<not> ok then (Err ENOMEM, s\<lparr>pmem_heap := h\<rparr>)
        else (OK, s\<lparr>pmem_heap := h,
          kernel_maps := kernel_maps s @ [Map_into_kernel (rgn_start rgn) (rgn_end rgn)],
          pmem_list := merge_pmem_list (insert_pmem_list_entry rgn (pmem_list s))\<rparr>))"

text \<open>The pieces of an entry on either side of the overlap. The third component tells whether an
  allocation failed; the head is linked in even if the tail's allocation fails.\<close>

definition cut_entry ::
  "pmem_region \<Rightarrow> paddr \<Rightarrow> paddr \<Rightarrow> heap_oracle \<Rightarrow> pmem_region list \<times> pmem_region list \<times> bool \<times> heap_oracle"
where
  "cut_entry e os oe h =
     (let (hok, h1) = (if rgn_start e < os then take_alloc h else (True, h));
          hd = (if rgn_start e < os \<and> hok then [e\<lparr>rgn_end := os\<rparr>] else [])
      in if \<not> hok then ([], [], False, h1)
         else let (tok, h2) = (if rgn_end e > oe then take_alloc h1 else (True, h1));
                  tl = (if rgn_end e > oe \<and> tok then [e\<lparr>rgn_start := oe\<rparr>] else [])
              in (hd, tl, tok, h2))"

definition umem_denied :: "bool \<Rightarrow> pmem_region \<Rightarrow> pmem_region \<Rightarrow> bool" where
  "umem_denied uo e upd \<longleftrightarrow> uo \<and>
     (\<not> type_is_set e \<or> rgn_type e \<noteq> PMEM_TYPE_UMEM \<or>
      \<not> type_is_set upd \<or> rgn_type upd \<noteq> PMEM_TYPE_UMEM)"

fun pmem_del_loop :: "bool \<Rightarrow> pmem_region \<Rightarrow> pmem_region list \<Rightarrow> heap_oracle \<Rightarrow> kernel_map list \<Rightarrow>
  status \<times> pmem_region list \<times> heap_oracle \<times> kernel_map list"
where
  "pmem_del_loop uo upd [] h ms = (OK, [], h, ms)"
| "pmem_del_loop uo upd (e # es) h ms =
     (case calc_overlap upd e of
        None \<Rightarrow> (let (st, es', h', ms') = pmem_del_loop uo upd es h ms in (st, e # es', h', ms'))
      | Some (os, oe) \<Rightarrow>
          if umem_denied uo e upd then (Err EPERM, e # es, h, ms)
          else if \<not> allocated_is_set e then (Err EINVAL, e # es, h, ms)
          else if allocated e then (Err EBUSY, e # es, h, ms)
          else let (hd, tl, ok, h1) = cut_entry e os oe h in
            if \<not> ok then (Err ENOMEM, hd @ e # es, h1, ms)
            else let (st, es', h', ms') =
                       pmem_del_loop uo upd es h1 (ms @ [Unmap_from_kernel (rgn_start e) (rgn_end e)])
                 in (st, hd @ tl @ es', h', ms'))"

definition pmem_del :: "pmem_state \<Rightarrow> pmem_region \<Rightarrow> status \<times> pmem_state" where
  "pmem_del s upd =
     (if \<not> region_is_sane upd then (Err EINVAL, s)
      else if \<not> region_is_known (pmem_list s) upd then (Err ENOENT, s)
      else let (st, rs, h, ms) =
                 pmem_del_loop (umem_only s) upd (pmem_list s) (pmem_heap s) (kernel_maps s)
           in (st, s\<lparr>pmem_list := (if st = OK then merge_pmem_list rs else rs),
                     pmem_heap := h, kernel_maps := ms\<rparr>))"

text \<open>The loop of \<^verbatim>\<open>__pmem_update\<close> goes on to the entry that follows in the list, which
  is the tail piece it has just linked in, if there is one.\<close>

lemma cut_tail_no_overlap:
  assumes "calc_overlap upd e = Some (os, oe)" "oe < rgn_end e"
  shows "calc_overlap upd (e\<lparr>rgn_start := oe\<rparr>) = None"
  using assms by (auto simp: calc_overlap_def min_def split: if_splits)

function pmem_update_loop :: "bool \<Rightarrow> pmem_region \<Rightarrow> pmem_region list \<Rightarrow> heap_oracle \<Rightarrow>
  status \<times> pmem_region list \<times> heap_oracle"
where
  "pmem_update_loop uo upd [] h = (OK, [], h)"
| "pmem_update_loop uo upd (e # es) h =
     (case calc_overlap upd e of
        None \<Rightarrow> (let (st, es', h') = pmem_update_loop uo upd es h in (st, e # es', h'))
      | Some (os, oe) \<Rightarrow>
          if umem_denied uo e upd then (Err EPERM, e # es, h)
          else let (hd, tl, ok, h1) = cut_entry e os oe h in
            if \<not> ok then (Err ENOMEM, hd @ e # es, h1)
            else let (st, es', h') = pmem_update_loop uo upd (tl @ es) h1
                 in (st, hd @ upd\<lparr>rgn_start := os, rgn_end := oe\<rparr> # es', h'))"
  by pat_completeness auto
termination
  by (relation "measure (\<lambda>(uo, upd, rs, h).
        sum_list (map (\<lambda>e. if calc_overlap upd e = None then 1 else (2::nat)) rs))")
    (auto simp: cut_entry_def Let_def cut_tail_no_overlap split: prod.splits if_splits)

definition pmem_update :: "pmem_state \<Rightarrow> pmem_region \<Rightarrow> status \<times> pmem_state" where
  "pmem_update s upd =
     (if \<not> region_is_sane upd then (Err EINVAL, s)
      else if \<not> region_is_known (pmem_list s) upd then (Err ENOENT, s)
      else let (st, rs, h) = pmem_update_loop (umem_only s) upd (pmem_list s) (pmem_heap s)
           in (st, s\<lparr>pmem_list := (if st = OK then merge_pmem_list rs else rs), pmem_heap := h\<rparr>))"

section \<open>Querying and allocating\<close>

fun query_loop :: "pmem_region \<Rightarrow> pmem_region list \<Rightarrow> errno + pmem_region" where
  "query_loop query [] = Inl ENOENT"
| "query_loop query (rgn # rs) =
     (if \<not> region_matches query rgn then query_loop query rs
      else case calc_overlap query rgn of
             None \<Rightarrow> Inr rgn
           | Some (s, t) \<Rightarrow> Inr (rgn\<lparr>rgn_start := s, rgn_end := t\<rparr>))"

definition pmem_query :: "pmem_region list \<Rightarrow> pmem_region \<Rightarrow> errno + pmem_region" where
  "pmem_query rs query = (if \<not> region_is_sane query then Inl EINVAL else query_loop query rs)"

lemma query_loop_SomeD:
  "query_loop query rs = Inr c \<Longrightarrow> \<exists>e \<in> set rs. region_matches query e \<and>
     rgn_start query < rgn_end e \<and> rgn_start e < rgn_end query \<and>
     c = e\<lparr>rgn_start := max (rgn_start query) (rgn_start e), rgn_end := min (rgn_end query) (rgn_end e)\<rparr>"
proof (induction rs)
  case (Cons e rs)
  show ?case
  proof (cases "region_matches query e")
    case True
    then have "rgn_start query < rgn_end e \<and> rgn_start e < rgn_end query"
      by (auto simp: region_matches_def regions_overlap_def calc_overlap_def split: if_splits)
    with True Cons.prems show ?thesis by (intro bexI [of _ e]) (simp_all add: calc_overlap_def)
  next
    case False
    with Cons show ?thesis by auto
  qed
qed simp

lemma pmem_query_bounds:
  assumes "pmem_query rs query = Inr c"
  shows "rgn_start query < rgn_end c" "rgn_end c \<le> rgn_end query"
proof -
  from assms have q: "rgn_start query < rgn_end query" "query_loop query rs = Inr c"
    by (auto simp: pmem_query_def region_is_sane_def split: if_splits)
  from query_loop_SomeD [OF q(2)] q(1) show "rgn_start query < rgn_end c" "rgn_end c \<le> rgn_end query"
    by auto
qed

lemma pmem_query_progress:
  "pmem_query rs query = Inr c \<Longrightarrow>
   unat (rgn_end query) - unat (rgn_end c) < unat (rgn_end query) - unat (rgn_start query)"
  using pmem_query_bounds [of rs query c] by (simp add: word64_cmp)

definition align_candidate :: "u64 \<Rightarrow> pmem_region \<Rightarrow> pmem_region" where
  "align_candidate alignment c =
     (if alignment \<noteq> 0 then
        let st = round_up (rgn_start c) alignment
        in c\<lparr>rgn_start := (if rgn_end c \<le> st then rgn_end c else st)\<rparr>
      else c)"

text \<open>The search loop of \<^verbatim>\<open>__pmem_alloc\<close>; the result is \<^term>\<open>None\<close> when one of its
  two \<^verbatim>\<open>BUG_ON\<close> checks fails.\<close>

function pmem_alloc_loop ::
  "pmem_state \<Rightarrow> u64 \<Rightarrow> u64 \<Rightarrow> pmem_region \<Rightarrow> ((errno + pmem_region) \<times> pmem_state) option"
where
  "pmem_alloc_loop s sz alignment query =
     (case pmem_query (pmem_list s) query of
        Inl e \<Rightarrow> if e \<noteq> ENOENT then None else Some (Inl ENOMEM, s)
      | Inr c \<Rightarrow>
          let candidate = align_candidate alignment c in
          if rgn_end candidate - rgn_start candidate \<ge> sz then
            let candidate = candidate\<lparr>rgn_end := rgn_start candidate + sz,
                                      allocated_is_set := True, allocated := True\<rparr>;
                (st, s') = pmem_update s candidate
            in if st \<noteq> OK then None else Some (Inr candidate, s')
          else pmem_alloc_loop s sz alignment (query\<lparr>rgn_start := rgn_end candidate\<rparr>))"
  by pat_completeness auto
termination
  by (relation "measure (\<lambda>(s, sz, al, query). unat (rgn_end query) - unat (rgn_start query))")
    (simp_all add: align_candidate_def Let_def pmem_query_progress split: if_splits)

declare pmem_alloc_loop.simps [simp del]

definition pmem_alloc ::
  "pmem_state \<Rightarrow> u64 \<Rightarrow> u64 \<Rightarrow> pmem_region \<Rightarrow> ((errno + pmem_region) \<times> pmem_state) option"
where
  "pmem_alloc s sz alignment constraint =
     (if sz = 0 then Some (Inl EINVAL, s)
      else if alignment \<noteq> 0 \<and> \<not> is_power_of_2 alignment then Some (Inl EINVAL, s)
      else if \<not> region_is_sane constraint then Some (Inl EINVAL, s)
      else if allocated_is_set constraint \<and> allocated constraint then Some (Inl EINVAL, s)
      else pmem_alloc_loop s sz alignment constraint)"

text \<open>The memory at kernel addresses, by byte.\<close>

definition pmem_zero :: "u64 \<Rightarrow> (u64 \<Rightarrow> byte) \<Rightarrow> pmem_region \<Rightarrow> status \<times> (u64 \<Rightarrow> byte)" where
  "pmem_zero page_offset m rgn =
     (if \<not> region_is_sane rgn then (Err EINVAL, m)
      else (OK, \<lambda>a. if a - (rgn_start rgn + page_offset) < rgn_end rgn - rgn_start rgn then 0 else m a))"

section \<open>System calls\<close>

text \<open>\<open>arg\<close> is the structure read by \<^verbatim>\<open>copy_from_user\<close>, or \<^term>\<open>None\<close> if that
  faults; \<open>out_ok\<close> tells whether the result pointer is \<^verbatim>\<open>NULL\<close> or writable.\<close>

definition sys_pmem_add :: "u32 \<Rightarrow> pmem_state \<Rightarrow> pmem_region option \<Rightarrow> status \<times> pmem_state" where
  "sys_pmem_add uid s arg =
     (if uid \<noteq> 0 then (Err EPERM, s)
      else case arg of None \<Rightarrow> (Err EINVAL, s) | Some rgn \<Rightarrow> pmem_add s rgn)"

definition sys_pmem_del :: "u32 \<Rightarrow> pmem_state \<Rightarrow> pmem_region option \<Rightarrow> status \<times> pmem_state" where
  "sys_pmem_del uid s arg =
     (if uid \<noteq> 0 then (Err EPERM, s)
      else case arg of None \<Rightarrow> (Err EINVAL, s) | Some rgn \<Rightarrow> pmem_del s rgn)"

definition sys_pmem_update :: "u32 \<Rightarrow> pmem_state \<Rightarrow> pmem_region option \<Rightarrow> status \<times> pmem_state" where
  "sys_pmem_update uid s arg =
     (if uid \<noteq> 0 then (Err EPERM, s)
      else case arg of None \<Rightarrow> (Err EINVAL, s)
        | Some upd \<Rightarrow>
            let (st, s') = pmem_update (s\<lparr>umem_only := True\<rparr>) upd
            in (st, s'\<lparr>umem_only := False\<rparr>))"

definition sys_pmem_query ::
  "u32 \<Rightarrow> pmem_state \<Rightarrow> pmem_region option \<Rightarrow> bool \<Rightarrow> errno + pmem_region"
where
  "sys_pmem_query uid s arg out_ok =
     (if uid \<noteq> 0 then Inl EPERM
      else case arg of None \<Rightarrow> Inl EINVAL
        | Some q \<Rightarrow> (case pmem_query (pmem_list s) q of
            Inl e \<Rightarrow> Inl e
          | Inr r \<Rightarrow> if \<not> out_ok then Inl EINVAL else Inr r))"

definition sys_pmem_alloc :: "u32 \<Rightarrow> pmem_state \<Rightarrow> u64 \<Rightarrow> u64 \<Rightarrow> pmem_region option \<Rightarrow> bool \<Rightarrow>
  ((errno + pmem_region) \<times> pmem_state) option"
where
  "sys_pmem_alloc uid s sz alignment arg out_ok =
     (if uid \<noteq> 0 then Some (Inl EPERM, s)
      else case arg of None \<Rightarrow> Some (Inl EINVAL, s)
        | Some c \<Rightarrow> do {
            (r, s') \<leftarrow> pmem_alloc s sz alignment c;
            (case r of
               Inl e \<Rightarrow> Some (Inl e, s')
             | Inr rgn \<Rightarrow> if \<not> out_ok then Some (Inl EINVAL, s') else Some (Inr rgn, s'))
          })"

definition sys_pmem_zero ::
  "u32 \<Rightarrow> u64 \<Rightarrow> (u64 \<Rightarrow> byte) \<Rightarrow> pmem_region option \<Rightarrow> status \<times> (u64 \<Rightarrow> byte)"
where
  "sys_pmem_zero uid page_offset m arg =
     (if uid \<noteq> 0 then (Err EPERM, m)
      else case arg of None \<Rightarrow> (Err EINVAL, m) | Some rgn \<Rightarrow> pmem_zero page_offset m rgn)"

section \<open>Library functions\<close>

definition pmem_region_unset_all :: "pmem_region \<Rightarrow> pmem_region" where
  "pmem_region_unset_all rgn = rgn\<lparr>type_is_set := False, numa_node_is_set := False,
     allocated_is_set := False, name_is_set := False\<rparr>"

definition umem_constraint :: "pmem_region \<Rightarrow> pmem_region" where
  "umem_constraint c = (pmem_region_unset_all c)\<lparr>rgn_start := 0, rgn_end := - 1,
     rgn_type := PMEM_TYPE_UMEM, type_is_set := True, allocated := False, allocated_is_set := True\<rparr>"

text \<open>\<open>junk\<close> is the uninitialised content of the local variable.\<close>

definition pmem_alloc_umem ::
  "pmem_region \<Rightarrow> pmem_state \<Rightarrow> u64 \<Rightarrow> u64 \<Rightarrow> ((errno + pmem_region) \<times> pmem_state) option"
where
  "pmem_alloc_umem junk s sz alignment = do {
     (r, s') \<leftarrow> pmem_alloc s sz alignment (umem_constraint junk);
     (case r of Inl _ \<Rightarrow> Some (Inl ENOMEM, s') | Inr rgn \<Rightarrow> Some (Inr rgn, s'))
   }"

definition pmem_free_umem :: "pmem_state \<Rightarrow> pmem_region \<Rightarrow> status \<times> pmem_state" where
  "pmem_free_umem s rgn =
     (if \<not> type_is_set rgn \<or> rgn_type rgn \<noteq> PMEM_TYPE_UMEM \<or> \<not> allocated_is_set rgn then (Err EINVAL, s)
      else pmem_update s (rgn\<lparr>allocated := False\<rparr>))"

function pmem_is_type_loop :: "pmem_region list \<Rightarrow> pmem_region \<Rightarrow> bool" where
  "pmem_is_type_loop rs query =
     (case pmem_query rs query of
        Inl _ \<Rightarrow> False
      | Inr result \<Rightarrow>
          if rgn_start result \<noteq> rgn_start query then False
          else if rgn_end result = rgn_end query then True
          else pmem_is_type_loop rs (query\<lparr>rgn_start := rgn_end result\<rparr>))"
  by pat_completeness auto
termination
  by (relation "measure (\<lambda>(rs, query). unat (rgn_end query) - unat (rgn_start query))")
    (simp_all add: pmem_query_progress)

declare pmem_is_type_loop.simps [simp del]

definition pmem_is_type :: "pmem_region \<Rightarrow> pmem_region list \<Rightarrow> pmem_type \<Rightarrow> paddr \<Rightarrow> u64 \<Rightarrow> bool" where
  "pmem_is_type junk rs ty start extent =
     pmem_is_type_loop rs ((pmem_region_unset_all junk)\<lparr>rgn_start := start, rgn_end := start + extent,
       rgn_type := ty, type_is_set := True\<rparr>)"

section \<open>The memory map a list of regions stands for\<close>

definition covers :: "pmem_region \<Rightarrow> nat \<Rightarrow> bool" where
  "covers r x \<longleftrightarrow> unat (rgn_start r) \<le> x \<and> x < unat (rgn_end r)"

text \<open>The attributes a region gives to its addresses. Names count up to the first
  \<^verbatim>\<open>NUL\<close>.\<close>

record pmem_attr =
  at_type :: "pmem_type option"
  at_numa :: "u32 option"
  at_alloc :: "bool option"
  at_name :: "byte list option"

definition cname :: "pmem_region \<Rightarrow> byte list" where
  "cname r = takeWhile (\<lambda>c. c \<noteq> 0) (rgn_name r)"

definition rgn_attr :: "pmem_region \<Rightarrow> pmem_attr" where
  "rgn_attr r = \<lparr>at_type = (if type_is_set r then Some (rgn_type r) else None),
     at_numa = (if numa_node_is_set r then Some (numa_node r) else None),
     at_alloc = (if allocated_is_set r then Some (allocated r) else None),
     at_name = (if name_is_set r then Some (cname r) else None)\<rparr>"

fun pmem_at :: "pmem_region list \<Rightarrow> nat \<Rightarrow> pmem_attr option" where
  "pmem_at [] x = None"
| "pmem_at (r # rs) x = (if covers r x then Some (rgn_attr r) else pmem_at rs x)"

definition region_ok :: "pmem_region \<Rightarrow> bool" where
  "region_ok r \<longleftrightarrow> rgn_start r < rgn_end r \<and> length (rgn_name r) = 32 \<and>
     (name_is_set r \<longrightarrow> 0 \<in> set (rgn_name r))"

definition before :: "pmem_region \<Rightarrow> pmem_region \<Rightarrow> bool" where
  "before a b \<longleftrightarrow> rgn_end a \<le> rgn_start b"

definition pmem_ok :: "pmem_region list \<Rightarrow> bool" where
  "pmem_ok rs \<longleftrightarrow> (\<forall>r \<in> set rs. region_ok r) \<and> sorted_wrt before rs"

definition within :: "pmem_region \<Rightarrow> pmem_region \<Rightarrow> bool" where
  "within r e \<longleftrightarrow> rgn_start e \<le> rgn_start r \<and> rgn_end r \<le> rgn_end e"

lemma region_ok_updates [simp]:
  "region_ok (r\<lparr>rgn_start := a, rgn_end := b\<rparr>) \<longleftrightarrow> a < b \<and> length (rgn_name r) = 32 \<and>
     (name_is_set r \<longrightarrow> 0 \<in> set (rgn_name r))"
  "region_ok (r\<lparr>rgn_start := a\<rparr>) \<longleftrightarrow> a < rgn_end r \<and> length (rgn_name r) = 32 \<and>
     (name_is_set r \<longrightarrow> 0 \<in> set (rgn_name r))"
  "region_ok (r\<lparr>rgn_end := b\<rparr>) \<longleftrightarrow> rgn_start r < b \<and> length (rgn_name r) = 32 \<and>
     (name_is_set r \<longrightarrow> 0 \<in> set (rgn_name r))"
  by (auto simp: region_ok_def)

lemma rgn_attr_updates [simp]:
  "rgn_attr (r\<lparr>rgn_start := a\<rparr>) = rgn_attr r" "rgn_attr (r\<lparr>rgn_end := b\<rparr>) = rgn_attr r"
  by (simp_all add: rgn_attr_def cname_def)

lemma rgn_attr_sel:
  "at_type (rgn_attr r) = (if type_is_set r then Some (rgn_type r) else None)"
  "at_numa (rgn_attr r) = (if numa_node_is_set r then Some (numa_node r) else None)"
  "at_alloc (rgn_attr r) = (if allocated_is_set r then Some (allocated r) else None)"
  "at_name (rgn_attr r) = (if name_is_set r then Some (cname r) else None)"
  by (simp_all add: rgn_attr_def)

lemma sane_iff_ok: "length (rgn_name r) = 32 \<Longrightarrow> region_is_sane r \<longleftrightarrow> region_ok r"
  by (auto simp: region_is_sane_def region_ok_def list_ex_iff not_le)

lemma pmem_at_append: "pmem_at (xs @ ys) x = (case pmem_at xs x of None \<Rightarrow> pmem_at ys x | Some a \<Rightarrow> Some a)"
  by (induction xs) auto

lemma pmem_at_None: "pmem_at rs x = None \<longleftrightarrow> (\<forall>r \<in> set rs. \<not> covers r x)"
  by (induction rs) auto

lemma pmem_ok_Cons: "pmem_ok (r # rs) \<longleftrightarrow> region_ok r \<and> (\<forall>q \<in> set rs. before r q) \<and> pmem_ok rs"
  by (auto simp: pmem_ok_def)

lemma pmem_ok_Nil [simp]: "pmem_ok []"
  by (simp add: pmem_ok_def)

lemma pmem_ok_append:
  "pmem_ok (xs @ ys) \<longleftrightarrow> pmem_ok xs \<and> pmem_ok ys \<and> (\<forall>a \<in> set xs. \<forall>b \<in> set ys. before a b)"
  by (auto simp: pmem_ok_def sorted_wrt_append)

lemma before_not_covers: "before a b \<Longrightarrow> covers a x \<Longrightarrow> \<not> covers b x"
  by (auto simp: before_def covers_def word64_le_unat)

lemma within_covers: "within r e \<Longrightarrow> covers r x \<Longrightarrow> covers e x"
  by (auto simp: within_def covers_def word64_le_unat)

lemma pmem_at_hd: "pmem_ok (r # rs) \<Longrightarrow> covers r x \<Longrightarrow> pmem_at rs x = None"
  by (auto simp: pmem_ok_Cons pmem_at_None dest: before_not_covers)

lemma pmem_at_mem:
  assumes "pmem_ok rs" "r \<in> set rs" "covers r x" shows "pmem_at rs x = Some (rgn_attr r)"
  using assms by (induction rs) (auto simp: pmem_ok_Cons dest: before_not_covers)

lemma pmem_at_SomeD: "pmem_at rs x = Some a \<Longrightarrow> \<exists>r \<in> set rs. covers r x \<and> rgn_attr r = a"
  by (induction rs) (auto split: if_splits)

text \<open>The order of the list does not matter for the map, only the set of regions does.\<close>

lemma pmem_at_cong:
  assumes "pmem_ok rs" "\<And>r. r \<in> set rs' \<Longrightarrow> r \<in> set rs" "\<And>r. r \<in> set rs \<Longrightarrow> r \<in> set rs'"
  shows "pmem_at rs' x = pmem_at rs x"
proof (cases "pmem_at rs' x")
  case None
  then have "pmem_at rs x = None" using assms(3) by (simp add: pmem_at_None)
  with None show ?thesis by simp
next
  case (Some a)
  then obtain r where "r \<in> set rs'" "covers r x" "rgn_attr r = a" using pmem_at_SomeD by blast
  with pmem_at_mem [OF assms(1) assms(2)] Some show ?thesis by simp
qed

section \<open>Names and merging\<close>

lemma cstr_array:
  assumes "0 \<in> set xs" shows "cstr (array_view xs) (takeWhile (\<lambda>c. c \<noteq> 0) xs)"
proof -
  let ?t = "takeWhile (\<lambda>c. c \<noteq> 0) xs"
  have lt: "length ?t < length xs" using assms by (induction xs) auto
  have "array_view xs i = ?t ! i" if "i < length ?t" for i
    using that lt by (simp add: array_view_def takeWhile_nth)
  moreover have "array_view xs (length ?t) = 0"
    using lt nth_length_takeWhile [OF lt] by (simp add: array_view_def)
  ultimately show ?thesis by (auto simp: cstr_iff dest: set_takeWhileD)
qed

lemma names_differ_iff:
  assumes "region_ok a" "region_ok b" "name_is_set a" "name_is_set b"
  shows "names_differ a b \<longleftrightarrow> cname a \<noteq> cname b"
proof -
  have z: "0 \<in> set (rgn_name a)" "0 \<in> set (rgn_name b)" "length (rgn_name a) = 32" "length (rgn_name b) = 32"
    using assms by (auto simp: region_ok_def)
  have l: "length (cname r) \<le> 32" if "length (rgn_name r) = 32" for r
    using length_takeWhile_le [of "\<lambda>c. c \<noteq> 0" "rgn_name r"] that by (simp add: cname_def)
  have "take 32 (cname a) = cname a" "take 32 (cname b) = cname b" using l z by simp_all
  then show ?thesis
    using strncmp_zero [OF cstr_array [OF z(1)] cstr_array [OF z(2)], of 32]
    by (simp add: names_differ_def cname_def)
qed

lemma mergeable_attr:
  assumes "regions_are_mergeable a b" "region_ok a" "region_ok b" "before a b"
  shows "rgn_end a = rgn_start b" "rgn_attr a = rgn_attr b"
proof -
  show "rgn_end a = rgn_start b"
  proof -
    have "rgn_end a = rgn_start b \<or> rgn_end b = rgn_start a"
      using assms(1) unfolding regions_are_mergeable_def by blast
    then show ?thesis using assms(2-4) by (auto simp: region_ok_def before_def)
  qed
  show "rgn_attr a = rgn_attr b"
    using assms(1) names_differ_iff [OF assms(2,3)]
    by (cases "name_is_set a"; simp add: regions_are_mergeable_def rgn_attr_def)
qed

lemma merge_from_ok:
  assumes "pmem_ok (p # es)"
  shows "pmem_ok (merge_from p es)" "pmem_at (merge_from p es) x = pmem_at (p # es) x"
    "\<forall>r \<in> set (merge_from p es). rgn_start p \<le> rgn_start r"
proof -
  have "pmem_ok (merge_from p es) \<and> (\<forall>x. pmem_at (merge_from p es) x = pmem_at (p # es) x) \<and>
    (\<forall>r \<in> set (merge_from p es). rgn_start p \<le> rgn_start r)"
    using assms
  proof (induction p es rule: merge_from.induct)
    case (2 p e es)
    note ok = 2(3) [unfolded pmem_ok_Cons]
    have pe: "before p e" "region_ok p" "region_ok e" using ok by (auto simp: pmem_ok_Cons)
    show ?case
    proof (cases "regions_are_mergeable p e")
      case True
      note m = mergeable_attr [OF True pe(2,3,1)]
      let ?p = "p\<lparr>rgn_end := rgn_end e\<rparr>"
      have "pmem_ok (?p # es)"
        using ok m(1) by (auto simp: pmem_ok_Cons region_ok_def before_def)
      note ih = 2(1) [OF True this]
      have "pmem_at (?p # es) x = pmem_at (p # e # es) x" for x
        using m pe by (auto simp: covers_def region_ok_def word64_cmp)
      with ih True show ?thesis by simp
    next
      case False
      have "pmem_ok (e # es)" using ok by (simp add: pmem_ok_Cons)
      note ih = 2(2) [OF False this]
      have le: "rgn_end p \<le> rgn_start r" if "r \<in> set (merge_from e es)" for r
        using ih that pe(1) by (auto simp: before_def intro: order_trans)
      have "rgn_start p \<le> rgn_start r" if "r \<in> set (merge_from e es)" for r
        using le [OF that] pe(2) by (simp add: region_ok_def word64_cmp)
      with False ih le pe(2) show ?thesis by (auto simp: pmem_ok_Cons before_def)
    qed
  qed (auto simp: pmem_ok_Cons)
  then show "pmem_ok (merge_from p es)" "pmem_at (merge_from p es) x = pmem_at (p # es) x"
    "\<forall>r \<in> set (merge_from p es). rgn_start p \<le> rgn_start r" by simp_all
qed

lemma merge_ok:
  assumes "pmem_ok rs"
  shows "pmem_ok (merge_pmem_list rs)" "pmem_at (merge_pmem_list rs) x = pmem_at rs x"
  using assms merge_from_ok by (cases rs; simp)+


section \<open>Adding a region\<close>

lemma overlap_iff:
  "calc_overlap a b = None \<longleftrightarrow> \<not> (rgn_start a < rgn_end b \<and> rgn_start b < rgn_end a)"
  by (auto simp: calc_overlap_def)

lemma no_overlap_before:
  "region_ok a \<Longrightarrow> region_ok b \<Longrightarrow> calc_overlap a b = None \<longleftrightarrow> before a b \<or> before b a"
  by (auto simp: overlap_iff before_def not_less)

lemma overlap_covers:
  assumes "calc_overlap a b \<noteq> None" "region_ok a" "region_ok b"
  shows "\<exists>x. covers a x \<and> covers b x"
  using assms by (intro exI [of _ "max (unat (rgn_start a)) (unat (rgn_start b))"])
    (auto simp: overlap_iff covers_def region_ok_def word64_cmp)

lemma insert_ok:
  assumes "pmem_ok rs" "region_ok r" "region_is_unique rs r"
  shows "pmem_ok (insert_pmem_list_entry r rs)"
    "pmem_at (insert_pmem_list_entry r rs) x = (if covers r x then Some (rgn_attr r) else pmem_at rs x)"
proof -
  have nb: "before r e \<or> before e r" if "e \<in> set rs" for e
    using that assms no_overlap_before [OF assms(2), of e]
    by (auto simp: region_is_unique_def regions_overlap_def list_all_iff pmem_ok_def)
  have lt: "before r e" if "e \<in> set rs" "rgn_start r < rgn_start e" for e
  proof (rule ccontr)
    assume "\<not> before r e"
    with nb [OF that(1)] have "rgn_end e \<le> rgn_start r" by (simp add: before_def)
    moreover have "rgn_start e < rgn_end e" using that(1) assms(1) by (simp add: pmem_ok_def region_ok_def)
    ultimately show False using that(2) by (simp add: word64_cmp)
  qed
  have ge: "before e r" if "e \<in> set rs" "\<not> rgn_start r < rgn_start e" for e
  proof (rule ccontr)
    assume "\<not> before e r"
    with nb [OF that(1)] have "rgn_end r \<le> rgn_start e" by (simp add: before_def)
    moreover have "rgn_start r < rgn_end r" using assms(2) by (simp add: region_ok_def)
    ultimately show False using that(2) by (simp add: word64_cmp)
  qed
  show ok: "pmem_ok (insert_pmem_list_entry r rs)"
    using assms(1) lt ge unfolding insert_pmem_list_entry_def
  proof (induction rs)
    case (Cons e es)
    show ?case
    proof (cases "rgn_start r < rgn_start e")
      case True
      have "before r q" if "q \<in> set (e # es)" for q
      proof -
        have "rgn_start e \<le> rgn_start q" if "q \<in> set es"
          using Cons.prems(1) that by (auto simp: pmem_ok_Cons before_def region_ok_def word64_cmp)
        with that True have "rgn_start r < rgn_start q" by (auto simp: word64_cmp)
        with Cons.prems(2) that show ?thesis by blast
      qed
      with True Cons.prems(1) assms(2) show ?thesis by (simp add: pmem_ok_Cons [of r])
    next
      case False
      have "pmem_ok (link_sorted rgn_start r es)"
        by (rule Cons.IH) (use Cons.prems in \<open>auto simp: pmem_ok_Cons\<close>)
      moreover have "before e r" using Cons.prems(3) False by simp
      ultimately show ?thesis using False Cons.prems(1) by (auto simp: pmem_ok_Cons)
    qed
  qed (simp add: assms(2) pmem_ok_Cons)
  show "pmem_at (insert_pmem_list_entry r rs) x = (if covers r x then Some (rgn_attr r) else pmem_at rs x)"
  proof -
    have "pmem_at (r # rs) x = pmem_at (insert_pmem_list_entry r rs) x"
      by (rule pmem_at_cong [OF ok]) (auto simp: insert_pmem_list_entry_def)
    then show ?thesis by simp
  qed
qed

section \<open>Which addresses are known\<close>

definition span :: "pmem_region \<Rightarrow> nat set" where
  "span r = {unat (rgn_start r) ..< unat (rgn_end r)}"

lemma span_iff: "x \<in> span r \<longleftrightarrow> covers r x"
  by (simp add: span_def covers_def)

lemma card_overlap:
  assumes "calc_overlap a b = Some (s, t)" "region_ok a" "region_ok b"
  shows "t - s = of_nat (card (span a \<inter> span b))"
proof -
  have o: "rgn_start a < rgn_end b" "rgn_start b < rgn_end a" "s = max (rgn_start a) (rgn_start b)"
    "t = min (rgn_end a) (rgn_end b)"
    using assms by (auto simp: calc_overlap_def split: if_splits)
  have st: "unat s \<le> unat t" using o assms(2,3) by (auto simp: region_ok_def max_def min_def word64_cmp)
  have "span a \<inter> span b = {unat s ..< unat t}"
    using o by (auto simp: span_def max_def min_def word64_cmp)
  then have "of_nat (card (span a \<inter> span b)) = (of_nat (unat t - unat s) :: u64)" by simp
  also have "\<dots> = t - s" using st by (simp add: of_nat_diff)
  finally show ?thesis ..
qed

lemma known_loop_eq:
  assumes "pmem_ok rs" "region_ok r"
  shows "known_loop r rs sz = sz - of_nat (card (span r \<inter> \<Union> (span ` set rs)))"
  using assms(1)
proof (induction rs arbitrary: sz)
  case (Cons e es)
  have e: "region_ok e" "pmem_ok es" using Cons.prems by (auto simp: pmem_ok_Cons)
  have disj: "span e \<inter> \<Union> (span ` set es) = {}"
    using Cons.prems before_not_covers [of e] unfolding pmem_ok_Cons by (auto simp: span_iff)
  have fin: "finite (span q)" for q by (simp add: span_def)
  have "span r \<inter> \<Union> (span ` set (e # es)) = (span r \<inter> span e) \<union> (span r \<inter> \<Union> (span ` set es))" by auto
  then have c: "card (span r \<inter> \<Union> (span ` set (e # es))) =
      card (span r \<inter> span e) + card (span r \<inter> \<Union> (span ` set es))"
    using disj fin by (simp add: card_Un_disjoint disjoint_iff)
  show ?case
  proof (cases "calc_overlap r e")
    case None
    then have "span r \<inter> span e = {}"
      by (auto simp: span_def overlap_iff word64_cmp)
    with None c Cons.IH [OF e(2)] show ?thesis by simp
  next
    case (Some p)
    obtain a b where p: "p = (a, b)" by (cases p)
    note card = card_overlap [OF Some [unfolded p] assms(2) e(1)]
    have "known_loop r (e # es) sz = known_loop r es (sz - (b - a))" using Some p by simp
    also have "\<dots> = sz - (b - a) - of_nat (card (span r \<inter> \<Union> (span ` set es)))"
      by (rule Cons.IH [OF e(2)])
    finally show ?thesis unfolding c card of_nat_add diff_diff_eq .
  qed
qed simp

lemma region_is_known_iff:
  assumes "pmem_ok rs" "region_ok r"
  shows "region_is_known rs r \<longleftrightarrow> (\<forall>x. covers r x \<longrightarrow> pmem_at rs x \<noteq> None)"
proof -
  let ?K = "span r \<inter> \<Union> (span ` set rs)"
  have fin: "finite (span r)" by (simp add: span_def)
  have le: "card ?K \<le> card (span r)" using fin by (simp add: card_mono)
  have cs: "card (span r) = unat (rgn_end r) - unat (rgn_start r)" by (simp add: span_def)
  have "unat (rgn_start r) \<le> unat (rgn_end r)" using assms(2) by (simp add: region_ok_def word64_cmp)
  then have sz: "rgn_end r - rgn_start r = of_nat (card (span r))" unfolding cs by (simp add: of_nat_diff)
  have cl: "card (span r) < 2 ^ 64"
    unfolding cs by (rule order_le_less_trans [OF diff_le_self unat64_less])
  have "region_is_known rs r \<longleftrightarrow> (of_nat (card (span r)) :: u64) = of_nat (card ?K)"
    unfolding region_is_known_def known_loop_eq [OF assms] sz by simp
  also have "\<dots> \<longleftrightarrow> card (span r) = card ?K"
    unfolding word64_eq_iff_unat unat64_of_nat [OF cl] unat64_of_nat [OF order_le_less_trans [OF le cl]] ..
  also have "\<dots> \<longleftrightarrow> ?K = span r"
    by (rule iffI, rule card_subset_eq [OF fin Int_lower1], erule sym, simp only:)
  also have "\<dots> \<longleftrightarrow> (\<forall>x. covers r x \<longrightarrow> pmem_at rs x \<noteq> None)"
    unfolding pmem_at_None span_iff [symmetric] by blast
  finally show ?thesis .
qed

section \<open>Updating a range\<close>

text \<open>What cutting an entry leaves: pieces of it, disjoint and in order.\<close>

lemma overlap_bounds:
  assumes "calc_overlap u e = Some (os, oe)" "region_ok e" "region_ok u"
  shows "rgn_start e \<le> os" "os < oe" "oe \<le> rgn_end e" "rgn_start u \<le> os" "oe \<le> rgn_end u"
    "covers u x \<and> covers e x \<longleftrightarrow> unat os \<le> x \<and> x < unat oe"
proof -
  have o: "rgn_start u < rgn_end e" "rgn_start e < rgn_end u" "os = max (rgn_start u) (rgn_start e)"
    "oe = min (rgn_end u) (rgn_end e)"
    using assms by (auto simp: calc_overlap_def split: if_splits)
  then show "rgn_start e \<le> os" "oe \<le> rgn_end e" "rgn_start u \<le> os" "oe \<le> rgn_end u" by simp_all
  show "os < oe" using o assms(2,3) by (auto simp: region_ok_def max_def min_def)
  show "covers u x \<and> covers e x \<longleftrightarrow> unat os \<le> x \<and> x < unat oe"
    by (auto simp: o(3,4) covers_def max_def min_def word64_cmp)
qed

lemma cut_entry_pieces:
  assumes "cut_entry e os oe h = (hs, ts, True, h')"
  shows "hs = (if rgn_start e < os then [e\<lparr>rgn_end := os\<rparr>] else [])"
    "ts = (if oe < rgn_end e then [e\<lparr>rgn_start := oe\<rparr>] else [])"
  using assms by (auto simp: cut_entry_def Let_def split: if_splits prod.splits)


text \<open>The pieces around an overlap, by address.\<close>

lemma cut_at:
  assumes "calc_overlap u e = Some (os, oe)" "region_ok e" "region_ok u"
    and hs: "hs = (if rgn_start e < os then [e\<lparr>rgn_end := os\<rparr>] else [])"
    and ts: "ts = (if oe < rgn_end e then [e\<lparr>rgn_start := oe\<rparr>] else [])"
  shows "pmem_at hs x = (if covers e x \<and> x < unat os then Some (rgn_attr e) else None)"
    "pmem_at ts x = (if covers e x \<and> unat oe \<le> x then Some (rgn_attr e) else None)"
    "\<forall>r \<in> set hs. region_ok r \<and> within r e \<and> rgn_end r = os"
    "\<forall>r \<in> set ts. region_ok r \<and> within r e \<and> rgn_start r = oe"
    "pmem_ok hs" "pmem_ok ts"
  using overlap_bounds(1-5) [OF assms(1-3)] assms(2)
  by (auto simp: hs ts covers_def within_def region_ok_def pmem_ok_Cons word64_cmp)

definition umem_attr :: "pmem_attr \<Rightarrow> bool" where
  "umem_attr a \<longleftrightarrow> at_type a = Some PMEM_TYPE_UMEM"

text \<open>What an interrupted or completed change of the range \<open>u\<close> does at one address: nothing, or,
  if the old attributes permit, the address becomes \<open>m\<close>.\<close>

definition updated_at ::
  "(pmem_attr \<Rightarrow> bool) \<Rightarrow> pmem_attr option \<Rightarrow> pmem_region \<Rightarrow> pmem_attr option \<Rightarrow> pmem_attr option \<Rightarrow> nat \<Rightarrow> bool"
where
  "updated_at perm m u old new x \<longleftrightarrow>
     new = old \<or> (covers u x \<and> (\<exists>a. old = Some a \<and> perm a) \<and> new = m)"

definition update_spec ::
  "(pmem_attr \<Rightarrow> bool) \<Rightarrow> pmem_attr option \<Rightarrow> pmem_region \<Rightarrow> pmem_region list \<Rightarrow> status \<Rightarrow> pmem_region list \<Rightarrow> bool"
where
  "update_spec perm m u rs st rs' \<longleftrightarrow> pmem_ok rs' \<and> (\<forall>r \<in> set rs'. \<exists>e \<in> set rs. within r e) \<and>
     (\<forall>x. updated_at perm m u (pmem_at rs x) (pmem_at rs' x) x) \<and>
     (st = OK \<longrightarrow> (\<forall>x. covers u x \<longrightarrow> pmem_at rs x \<noteq> None \<longrightarrow> pmem_at rs' x = m))"

lemma within_refl [simp]: "within r r"
  by (simp add: within_def)

lemma before_within: "before a b \<Longrightarrow> within c b \<Longrightarrow> before a c"
  by (auto simp: before_def within_def)

lemma within_before: "within c a \<Longrightarrow> before a b \<Longrightarrow> before c b"
  by (auto simp: before_def within_def)

lemma update_spec_stop: "pmem_ok rs \<Longrightarrow> st \<noteq> OK \<Longrightarrow> update_spec perm m u rs st rs"
  using within_refl unfolding update_spec_def updated_at_def by blast

lemma update_spec_skip:
  assumes ok: "pmem_ok (e # es)" and no: "calc_overlap u e = None" and u: "region_ok u"
    and sp: "update_spec perm m u es st es'"
  shows "update_spec perm m u (e # es) st (e # es')"
proof -
  have e: "region_ok e" "\<And>q. q \<in> set es \<Longrightarrow> before e q" using ok by (auto simp: pmem_ok_Cons)
  have out: "\<not> covers u x" if "covers e x" for x
    using no that by (auto simp: overlap_iff covers_def word64_cmp)
  have "before e r" if "r \<in> set es'" for r
    using sp that e(2) before_within unfolding update_spec_def by blast
  then have "pmem_ok (e # es')" using sp e(1) by (simp add: pmem_ok_Cons update_spec_def)
  then show ?thesis using sp out by (auto simp: update_spec_def updated_at_def)
qed

lemma update_spec_cut:
  assumes ok: "pmem_ok (e # es)" and ov: "calc_overlap u e = Some (os, oe)" and u: "region_ok u"
    and pe: "perm (rgn_attr e)"
    and hs: "hs = (if rgn_start e < os then [e\<lparr>rgn_end := os\<rparr>] else [])"
    and ts: "ts = (if oe < rgn_end e then [e\<lparr>rgn_start := oe\<rparr>] else [])"
    and sp: "update_spec perm m u (ts @ es) st es'"
    and mid_ok: "pmem_ok us" "\<And>r. r \<in> set us \<Longrightarrow> os \<le> rgn_start r \<and> rgn_end r \<le> oe"
    and mid_at: "\<And>x. pmem_at us x = (if unat os \<le> x \<and> x < unat oe then m else None)"
  shows "update_spec perm m u (e # es) st (hs @ us @ es')"
proof -
  have e: "region_ok e" "\<And>q. q \<in> set es \<Longrightarrow> before e q" using ok by (auto simp: pmem_ok_Cons)
  note b = overlap_bounds [OF ov e(1) u] and c = cut_at [OF ov e(1) u hs ts]
  have wu: "within r e" if "r \<in> set us" for r
    using mid_ok(2) [OF that] b(1,3) by (auto simp: within_def)
  have up: "oe \<le> rgn_start r" if r: "r \<in> set es'" for r
  proof -
    from sp r obtain q where q: "q \<in> set (ts @ es)" "within r q" unfolding update_spec_def by blast
    have "oe \<le> rgn_start q"
    proof (cases "q \<in> set ts")
      case False
      then have "rgn_end e \<le> rgn_start q" using q(1) e(2) by (auto simp: before_def)
      with b(3) show ?thesis by simp
    qed (use c(4) in simp)
    also have "rgn_start q \<le> rgn_start r" using q(2) by (simp add: within_def)
    finally show ?thesis .
  qed
  have hu: "before r q" if "r \<in> set hs" "q \<in> set us" for r q
    using c(3) that(1) mid_ok(2) [OF that(2)] by (simp add: before_def)
  have ue: "before r q" if "r \<in> set us" "q \<in> set es'" for r q
    using mid_ok(2) [OF that(1)] up [OF that(2)] by (auto simp: before_def)
  have he: "before r q" if "r \<in> set hs" "q \<in> set es'" for r q
  proof -
    have "rgn_end r = os" "oe \<le> rgn_start q" using c(3) that(1) up [OF that(2)] by simp_all
    with b(2) show ?thesis by (simp add: before_def word64_cmp)
  qed
  have ok': "pmem_ok (hs @ us @ es')"
    using c(5) mid_ok(1) sp hu ue he by (auto simp: pmem_ok_append update_spec_def)
  have wi: "\<exists>q \<in> set (e # es). within r q" if r: "r \<in> set (hs @ us @ es')" for r
  proof (cases "r \<in> set es'")
    case True
    with sp obtain q where q: "q \<in> set (ts @ es)" "within r q" unfolding update_spec_def by blast
    show ?thesis
    proof (cases "q \<in> set ts")
      case True
      then have "within q e" using c(4) by blast
      with q(2) show ?thesis by (auto simp: within_def)
    qed (use q in auto)
  next
    case False
    then show ?thesis using r c(3) wu by auto
  qed
  have old: "pmem_at (ts @ es) x = (if covers e x \<and> x < unat oe then None else pmem_at (e # es) x)" for x
    using c(2) [of x] pmem_at_hd [OF ok, of x] by (auto simp: pmem_at_append)
  have es': "pmem_at es' x = None" if "covers e x" "x < unat oe" for x
  proof -
    have "updated_at perm m u (pmem_at (ts @ es) x) (pmem_at es' x) x" using sp by (simp add: update_spec_def)
    with old [of x] that show ?thesis by (simp add: updated_at_def)
  qed
  have mid: "covers u x \<and> covers e x" if "unat os \<le> x" "x < unat oe" for x using b(6) [of x] that by simp
  have new: "pmem_at (hs @ us @ es') x =
    (if covers e x \<and> x < unat os then Some (rgn_attr e)
     else if unat os \<le> x \<and> x < unat oe then m else pmem_at es' x)" for x
    using c(1) [of x] mid_at [of x] es' [of x] mid [of x]
    by (cases m) (auto simp: pmem_at_append)
  have lo: "\<not> covers u x" if "covers e x" "x < unat os" for x using b(6) [of x] that by auto
  have "updated_at perm m u (pmem_at (e # es) x) (pmem_at (hs @ us @ es') x) x \<and>
    (st = OK \<longrightarrow> covers u x \<longrightarrow> pmem_at (e # es) x \<noteq> None \<longrightarrow> pmem_at (hs @ us @ es') x = m)" for x
  proof -
    consider "covers e x" "x < unat os" | "unat os \<le> x" "x < unat oe" | "\<not> (covers e x \<and> x < unat oe)"
      by force
    then show ?thesis
    proof cases
      case 1
      then show ?thesis using new [of x] lo by (auto simp: updated_at_def)
    next
      case 2
      then show ?thesis using new [of x] mid [OF 2] pe by (auto simp: updated_at_def)
    next
      case 3
      then have "\<not> (covers e x \<and> x < unat os)" "\<not> (unat os \<le> x \<and> x < unat oe)"
        using b(2) b(6) [of x] by (auto simp: word64_cmp)
      then have "pmem_at (hs @ us @ es') x = pmem_at es' x" using new [of x] by auto
      moreover have "pmem_at (ts @ es) x = pmem_at (e # es) x" using old [of x] 3 by auto
      ultimately show ?thesis using sp unfolding update_spec_def by metis
    qed
  qed
  with ok' wi show ?thesis unfolding update_spec_def by blast
qed

definition update_perm :: "bool \<Rightarrow> pmem_region \<Rightarrow> pmem_attr \<Rightarrow> bool" where
  "update_perm uo u a \<longleftrightarrow> (uo \<longrightarrow> umem_attr a \<and> umem_attr (rgn_attr u))"

lemma umem_denied_iff: "umem_denied uo e u \<longleftrightarrow> \<not> update_perm uo u (rgn_attr e)"
  by (auto simp: umem_denied_def umem_attr_def update_perm_def rgn_attr_def)

lemma pmem_update_loop_spec:
  "pmem_update_loop uo u rs h = (st, rs', h') \<Longrightarrow> pmem_ok rs \<Longrightarrow> region_ok u \<Longrightarrow> st \<noteq> Err ENOMEM \<Longrightarrow>
   update_spec (update_perm uo u) (Some (rgn_attr u)) u rs st rs'"
proof (induction uo u rs h arbitrary: st rs' h' rule: pmem_update_loop.induct)
  case (1 uo u h)
  then show ?case by (simp add: update_spec_def updated_at_def)
next
  case (2 uo u e es h)
  show ?case
  proof (cases "calc_overlap u e")
    case None
    obtain es' where r: "pmem_update_loop uo u es h = (st, es', h')" "rs' = e # es'"
      using "2.prems"(1) None by (auto split: prod.splits)
    have "update_spec (update_perm uo u) (Some (rgn_attr u)) u es st es'"
      by (rule 2(1) [OF None r(1)]) (use "2.prems" in \<open>simp_all add: pmem_ok_Cons\<close>)
    then show ?thesis unfolding r(2) by (rule update_spec_skip [OF "2.prems"(2) None "2.prems"(3)])
  next
    case (Some p)
    obtain os oe where p: "p = (os, oe)" by (cases p)
    note ov = Some [unfolded p]
    show ?thesis
    proof (cases "umem_denied uo e u")
      case True
      with "2.prems"(1) ov have "rs' = e # es" "st = Err EPERM" by auto
      then show ?thesis using update_spec_stop [OF "2.prems"(2)] by simp
    next
      case False
      obtain hs ts ok h1 where cut: "cut_entry e os oe h = (hs, ts, ok, h1)" by (metis prod_cases4)
      have ok: ok using "2.prems"(1,4) ov False cut by (auto split: if_splits)
      obtain es' where r: "pmem_update_loop uo u (ts @ es) h1 = (st, es', h')"
          "rs' = hs @ u\<lparr>rgn_start := os, rgn_end := oe\<rparr> # es'"
        using "2.prems"(1) ov False cut ok by (auto split: prod.splits)
      have cut': "cut_entry e os oe h = (hs, ts, True, h1)" using cut ok by simp
      note pc = cut_entry_pieces [OF cut']
      have e: "region_ok e" using "2.prems"(2) by (simp add: pmem_ok_Cons)
      note c = cut_at [OF ov e "2.prems"(3) pc]
      have "before a b" if "a \<in> set ts" "b \<in> set es" for a b
        by (rule within_before [of a e]) (use c(4) that "2.prems"(2) in \<open>auto simp: pmem_ok_Cons\<close>)
      then have tes: "pmem_ok (ts @ es)" using c(6) "2.prems"(2) by (simp add: pmem_ok_append pmem_ok_Cons)
      have "update_spec (update_perm uo u) (Some (rgn_attr u)) u (ts @ es) st es'"
        by (rule 2(2) [OF ov refl False refl cut [symmetric] refl refl _ r(1) tes "2.prems"(3,4)]) (simp add: ok)
      moreover have "update_perm uo u (rgn_attr e)" using False by (simp add: umem_denied_iff)
      moreover note b = overlap_bounds [OF ov e "2.prems"(3)]
      ultimately have "update_spec (update_perm uo u) (Some (rgn_attr u)) u (e # es) st
          (hs @ [u\<lparr>rgn_start := os, rgn_end := oe\<rparr>] @ es')"
        by (intro update_spec_cut [OF "2.prems"(2) ov "2.prems"(3) _ pc])
          (use "2.prems"(3) b(2) in \<open>auto simp: pmem_ok_Cons region_ok_def covers_def rgn_attr_def cname_def\<close>)
      then show ?thesis unfolding r(2) by simp
    qed
  qed
qed


definition del_perm :: "bool \<Rightarrow> pmem_region \<Rightarrow> pmem_attr \<Rightarrow> bool" where
  "del_perm uo u a \<longleftrightarrow> update_perm uo u a \<and> at_alloc a = Some False"

lemma pmem_del_loop_spec:
  "pmem_del_loop uo u rs h ms = (st, rs', h', ms') \<Longrightarrow> pmem_ok rs \<Longrightarrow> region_ok u \<Longrightarrow> st \<noteq> Err ENOMEM \<Longrightarrow>
   update_spec (del_perm uo u) None u rs st rs'"
proof (induction rs arbitrary: st rs' h h' ms ms')
  case Nil
  then show ?case by (simp add: update_spec_def updated_at_def)
next
  case (Cons e es)
  have oks: "region_ok e" "pmem_ok es" using Cons.prems(2) by (auto simp: pmem_ok_Cons)
  show ?case
  proof (cases "calc_overlap u e")
    case None
    obtain es' where r: "pmem_del_loop uo u es h ms = (st, es', h', ms')" "rs' = e # es'"
      using Cons.prems(1) None by (auto split: prod.splits)
    from Cons.IH [OF r(1) oks(2) Cons.prems(3,4)] show ?thesis
      unfolding r(2) by (rule update_spec_skip [OF Cons.prems(2) None Cons.prems(3)])
  next
    case (Some p)
    obtain os oe where p: "p = (os, oe)" by (cases p)
    note ov = Some [unfolded p]
    show ?thesis
    proof (cases "umem_denied uo e u \<or> \<not> allocated_is_set e \<or> allocated e")
      case True
      with Cons.prems(1) ov have "rs' = e # es" "st \<noteq> OK" by (auto split: if_splits)
      then show ?thesis using update_spec_stop [OF Cons.prems(2)] by simp
    next
      case False
      obtain hs ts ok h1 where cut: "cut_entry e os oe h = (hs, ts, ok, h1)" by (metis prod_cases4)
      have ok: ok using Cons.prems(1,4) ov False cut by (auto split: if_splits)
      obtain es' ms1 where r: "pmem_del_loop uo u es h1 ms1 = (st, es', h', ms')" "rs' = hs @ ts @ es'"
        using Cons.prems(1) ov False cut ok by (auto split: prod.splits)
      have "cut_entry e os oe h = (hs, ts, True, h1)" using cut ok by simp
      note pc = cut_entry_pieces [OF this]
      note c = cut_at [OF ov oks(1) Cons.prems(3) pc]
      note sp = Cons.IH [OF r(1) oks(2) Cons.prems(3,4)]
      have sp': "update_spec (del_perm uo u) None u (ts @ es) st (ts @ es')"
      proof (cases "oe < rgn_end e")
        case True
        let ?t = "e\<lparr>rgn_start := oe\<rparr>"
        have "before ?t q" if "q \<in> set es" for q using Cons.prems(2) that by (auto simp: pmem_ok_Cons before_def)
        then have "pmem_ok (?t # es)" using c(4) True oks(2) pc(2) by (auto simp: pmem_ok_Cons)
        from update_spec_skip [OF this cut_tail_no_overlap [OF ov True] Cons.prems(3) sp] show ?thesis
          using True pc(2) by simp
      qed (use pc(2) sp in simp)
      have pe: "del_perm uo u (rgn_attr e)"
        using False by (simp add: umem_denied_iff del_perm_def rgn_attr_sel)
      have "update_spec (del_perm uo u) None u (e # es) st (hs @ [] @ ts @ es')"
        by (rule update_spec_cut [where us = "[]", OF Cons.prems(2) ov Cons.prems(3) pe pc sp']) simp_all
      then show ?thesis unfolding r(2) by simp
    qed
  qed
qed


section \<open>The operations\<close>

lemma merge_update_spec:
  assumes "update_spec perm m u rs OK rs'"
  shows "pmem_ok (merge_pmem_list rs')"
    "(\<forall>x. covers u x \<longrightarrow> pmem_at rs x \<noteq> None) \<Longrightarrow>
       pmem_at (merge_pmem_list rs') x = (if covers u x then m else pmem_at rs x)"
proof -
  have ok: "pmem_ok rs'" using assms by (simp add: update_spec_def)
  show "pmem_ok (merge_pmem_list rs')" by (rule merge_ok(1) [OF ok])
  assume k: "\<forall>x. covers u x \<longrightarrow> pmem_at rs x \<noteq> None"
  have "pmem_at rs' x = (if covers u x then m else pmem_at rs x)"
    using assms k unfolding update_spec_def updated_at_def by metis
  then show "pmem_at (merge_pmem_list rs') x = (if covers u x then m else pmem_at rs x)"
    by (simp add: merge_ok(2) [OF ok])
qed

lemma pmem_update_OK:
  assumes "pmem_ok (pmem_list s)" "length (rgn_name u) = 32" "pmem_update s u = (OK, s')"
  shows "region_ok u" "\<forall>x. covers u x \<longrightarrow> pmem_at (pmem_list s) x \<noteq> None" "pmem_ok (pmem_list s')"
    "pmem_at (pmem_list s') x = (if covers u x then Some (rgn_attr u) else pmem_at (pmem_list s) x)"
proof -
  show u: "region_ok u"
    using assms(2,3) sane_iff_ok [of u] by (auto simp: pmem_update_def split: if_splits)
  show k: "\<forall>x. covers u x \<longrightarrow> pmem_at (pmem_list s) x \<noteq> None"
    using assms(3) region_is_known_iff [OF assms(1) u] by (auto simp: pmem_update_def split: if_splits)
  from assms(3) obtain rs h where l: "pmem_update_loop (umem_only s) u (pmem_list s) (pmem_heap s) = (OK, rs, h)"
    "s' = s\<lparr>pmem_list := merge_pmem_list rs, pmem_heap := h\<rparr>"
    by (auto simp: pmem_update_def split: if_splits prod.splits)
  note sp = pmem_update_loop_spec [OF l(1) assms(1) u, simplified]
  show "pmem_ok (pmem_list s')" using merge_update_spec(1) [OF sp] l(2) by simp
  show "pmem_at (pmem_list s') x = (if covers u x then Some (rgn_attr u) else pmem_at (pmem_list s) x)"
    using merge_update_spec(2) [OF sp k] l(2) by simp
qed

text \<open>C11: adding a region. It is refused exactly when it is malformed or meets known memory, and then
  nothing changes; otherwise its addresses get its attributes, all others keep theirs, the list
  stays sorted, disjoint and merged, and the memory is mapped into the kernel.\<close>

theorem pmem_add_correct:
  assumes "pmem_ok (pmem_list s)" "length (rgn_name r) = 32" "pmem_heap s = True # h"
  shows "case pmem_add s r of
     (Err EINVAL, s') \<Rightarrow> \<not> region_ok r \<and> s' = s
   | (Err EEXIST, s') \<Rightarrow> (\<exists>x. covers r x \<and> pmem_at (pmem_list s) x \<noteq> None) \<and> s' = s
   | (Err _, s') \<Rightarrow> False
   | (OK, s') \<Rightarrow> region_ok r \<and> pmem_ok (pmem_list s') \<and>
       (\<forall>x. covers r x \<longrightarrow> pmem_at (pmem_list s) x = None) \<and>
       (\<forall>x. pmem_at (pmem_list s') x = (if covers r x then Some (rgn_attr r) else pmem_at (pmem_list s) x)) \<and>
       kernel_maps s' = kernel_maps s @ [Map_into_kernel (rgn_start r) (rgn_end r)]"
proof (cases "region_ok r")
  case False
  then show ?thesis using sane_iff_ok [OF assms(2)] by (simp add: pmem_add_def)
next
  case ok: True
  then have sane: "region_is_sane r" using sane_iff_ok [OF assms(2)] by simp
  show ?thesis
  proof (cases "region_is_unique (pmem_list s) r")
    case True
    note ins = insert_ok [OF assms(1) ok True]
    have "pmem_at (pmem_list s) x = None" if "covers r x" for x
    proof (rule ccontr)
      assume "pmem_at (pmem_list s) x \<noteq> None"
      then obtain e where "e \<in> set (pmem_list s)" "covers e x" by (auto simp: pmem_at_None)
      with that True show False
        by (auto simp: region_is_unique_def list_all_iff regions_overlap_def overlap_iff covers_def word64_cmp)
    qed
    then show ?thesis using sane ok True ins(1) merge_ok [OF ins(1)] ins(2) assms(3)
      by (simp add: pmem_add_def)
  next
    case False
    then obtain e where e: "e \<in> set (pmem_list s)" "calc_overlap r e \<noteq> None"
      by (auto simp: region_is_unique_def list_all_iff regions_overlap_def)
    moreover have "region_ok e" using e(1) assms(1) by (simp add: pmem_ok_def)
    ultimately obtain x where "covers r x" "covers e x" using overlap_covers [OF _ ok] by blast
    with e(1) have "\<exists>x. covers r x \<and> pmem_at (pmem_list s) x \<noteq> None" by (auto simp: pmem_at_None)
    with False sane show ?thesis by (simp add: pmem_add_def)
  qed
qed

text \<open>C10: a successful update gives exactly the addresses of the range the new attributes. It succeeds
  only on memory that is known throughout.\<close>

theorem pmem_update_correct:
  assumes "pmem_ok (pmem_list s)" "length (rgn_name u) = 32" "pmem_update s u = (OK, s')"
  shows "pmem_ok (pmem_list s') \<and> (\<forall>x. covers u x \<longrightarrow> pmem_at (pmem_list s) x \<noteq> None) \<and>
    (\<forall>x. pmem_at (pmem_list s') x = (if covers u x then Some (rgn_attr u) else pmem_at (pmem_list s) x))"
  using pmem_update_OK [OF assms] by blast

text \<open>C12: a successful delete removes exactly the addresses of the range, all of which were known and
  free.\<close>

theorem pmem_del_correct:
  assumes "pmem_ok (pmem_list s)" "length (rgn_name u) = 32" "pmem_del s u = (OK, s')"
  shows "pmem_ok (pmem_list s') \<and>
    (\<forall>x. covers u x \<longrightarrow> (\<exists>a. pmem_at (pmem_list s) x = Some a \<and> at_alloc a = Some False)) \<and>
    (\<forall>x. pmem_at (pmem_list s') x = (if covers u x then None else pmem_at (pmem_list s) x))"
proof -
  have u: "region_ok u"
    using assms(2,3) sane_iff_ok [of u] by (auto simp: pmem_del_def split: if_splits)
  have k: "\<forall>x. covers u x \<longrightarrow> pmem_at (pmem_list s) x \<noteq> None"
    using assms(3) region_is_known_iff [OF assms(1) u] by (auto simp: pmem_del_def split: if_splits)
  from assms(3) obtain rs h ms where
    l: "pmem_del_loop (umem_only s) u (pmem_list s) (pmem_heap s) (kernel_maps s) = (OK, rs, h, ms)"
    "pmem_list s' = merge_pmem_list rs"
    by (auto simp: pmem_del_def split: if_splits prod.splits)
  note sp = pmem_del_loop_spec [OF l(1) assms(1) u, simplified]
  note m = merge_update_spec [OF sp]
  have "\<exists>a. pmem_at (pmem_list s) x = Some a \<and> at_alloc a = Some False" if "covers u x" for x
  proof -
    have "updated_at (del_perm (umem_only s) u) None u (pmem_at (pmem_list s) x) (pmem_at rs x) x"
      "pmem_at rs x = None" using sp k that unfolding update_spec_def by blast+
    with k that show ?thesis by (auto simp: updated_at_def del_perm_def)
  qed
  with m(1) m(2) [OF k] l(2) show ?thesis by simp
qed



end
