(* ===== verification/Kitten_Pmem_Alloc.thy ===== *)
theory Kitten_Pmem_Alloc
  imports Kitten_Pmem
begin

text \<open>
  Correctness of physical memory allocation (\<^verbatim>\<open>__pmem_alloc\<close>) and of the library
  functions that use it, on top of the region lists of \<^verbatim>\<open>Kitten_Pmem\<close>: what an
  allocation delivers, that it finds a place whenever there is one, that freeing undoes it, and
  what \<^verbatim>\<open>pmem_is_type\<close> decides. The last section shows inputs on which the code of
  \<^verbatim>\<open>pmem.c\<close> stops the kernel or leaves a list or mapping it should not.
\<close>

section \<open>Allocation\<close>

definition aligned_to :: "u64 \<Rightarrow> nat \<Rightarrow> bool" where
  "aligned_to al p \<longleftrightarrow> al \<noteq> 0 \<longrightarrow> unat al dvd p"

text \<open>\<open>p\<close> is a place for \<open>sz\<close> bytes inside both \<open>q\<close> and \<open>e\<close>.\<close>

definition placement :: "u64 \<Rightarrow> u64 \<Rightarrow> pmem_region \<Rightarrow> pmem_region \<Rightarrow> nat \<Rightarrow> bool" where
  "placement al sz q e p \<longleftrightarrow> aligned_to al p \<and>
     unat (rgn_start q) \<le> p \<and> unat (rgn_start e) \<le> p \<and>
     p + unat sz \<le> unat (rgn_end q) \<and> p + unat sz \<le> unat (rgn_end e)"

lemma align_candidate_end [simp]: "rgn_end (align_candidate al c) = rgn_end c"
  by (simp add: align_candidate_def Let_def)

lemma align_candidate_place:
  assumes al: "al = 0 \<or> is_power_of_2 al" and wrap: "unat (rgn_end c) + unat al \<le> 2 ^ 64"
    and c: "rgn_start c < rgn_end c" and sz: "sz \<noteq> 0"
  defines "c' \<equiv> align_candidate al c"
  shows "sz \<le> rgn_end c' - rgn_start c' \<longleftrightarrow>
      (\<exists>p. aligned_to al p \<and> unat (rgn_start c) \<le> p \<and> p + unat sz \<le> unat (rgn_end c))"
    and "sz \<le> rgn_end c' - rgn_start c' \<Longrightarrow> aligned_to al (unat (rgn_start c')) \<and>
      rgn_start c \<le> rgn_start c' \<and> unat (rgn_start c') + unat sz \<le> unat (rgn_end c)"
proof -
  define st where "st = (if al = 0 then rgn_start c else round_up (rgn_start c) al)"
  have st: "aligned_to al (unat st)" "unat (rgn_start c) \<le> unat st"
    "\<And>p. aligned_to al p \<Longrightarrow> unat (rgn_start c) \<le> p \<Longrightarrow> unat st \<le> p"
  proof -
    have "aligned_to al (unat st) \<and> unat (rgn_start c) \<le> unat st \<and>
      (\<forall>p. aligned_to al p \<longrightarrow> unat (rgn_start c) \<le> p \<longrightarrow> unat st \<le> p)"
    proof (cases "al = 0")
      case True
      then show ?thesis by (simp add: st_def aligned_to_def)
    next
      case False
      then obtain k where k: "k < 64" "al = 2 ^ k" using al by (auto simp: is_power_of_2_iff)
      then have u: "unat al = 2 ^ k" by (simp add: unat64_pow2)
      have w: "unat (rgn_start c) + (2 ^ k - 1) < 2 ^ 64"
        using wrap c u by (simp add: word64_cmp)
      from round_up_aligned [OF k(1) w] round_up_least [OF k(1) w] False show ?thesis
        by (simp add: st_def k(2) aligned_to_def unat64_pow2 k(1))
    qed
    then show "aligned_to al (unat st)" "unat (rgn_start c) \<le> unat st"
      "\<And>p. aligned_to al p \<Longrightarrow> unat (rgn_start c) \<le> p \<Longrightarrow> unat st \<le> p" by blast+
  qed
  have e: "rgn_end c' = rgn_end c" by (simp add: c'_def)
  have s: "rgn_start c' = (if rgn_end c \<le> st then rgn_end c else st)"
    using c by (auto simp: c'_def align_candidate_def st_def Let_def)
  have sz0: "0 < unat sz" using sz by (simp add: unat_gt_0)
  have fit: "sz \<le> rgn_end c' - rgn_start c' \<longleftrightarrow> unat st + unat sz \<le> unat (rgn_end c)"
  proof (cases "rgn_end c \<le> st")
    case True
    then show ?thesis using sz sz0 by (simp add: s e word64_cmp)
  next
    case False
    then have "unat (rgn_end c - st) = unat (rgn_end c) - unat st" by (simp add: unat64_sub)
    with False show ?thesis by (auto simp: s e word64_cmp)
  qed
  show "sz \<le> rgn_end c' - rgn_start c' \<longleftrightarrow>
      (\<exists>p. aligned_to al p \<and> unat (rgn_start c) \<le> p \<and> p + unat sz \<le> unat (rgn_end c))"
    unfolding fit using st by (meson add_le_cancel_right le_trans)
  assume "sz \<le> rgn_end c' - rgn_start c'"
  then have f: "unat st + unat sz \<le> unat (rgn_end c)" by (simp add: fit)
  then have "rgn_start c' = st" using sz0 by (simp add: s word64_cmp)
  then show "aligned_to al (unat (rgn_start c')) \<and>
      rgn_start c \<le> rgn_start c' \<and> unat (rgn_start c') + unat sz \<le> unat (rgn_end c)"
    using st f by (simp add: word64_cmp)
qed

text \<open>The part of a match that does not look at the range.\<close>

definition attrs_match :: "pmem_region \<Rightarrow> pmem_region \<Rightarrow> bool" where
  "attrs_match q e \<longleftrightarrow>
     \<not> (type_is_set q \<and> (\<not> type_is_set e \<or> rgn_type e \<noteq> rgn_type q)) \<and>
     \<not> (numa_node_is_set q \<and> (\<not> numa_node_is_set e \<or> numa_node e \<noteq> numa_node q)) \<and>
     \<not> (allocated_is_set q \<and> (\<not> allocated_is_set e \<or> allocated e \<noteq> allocated q)) \<and>
     \<not> (name_is_set q \<and> (\<not> name_is_set e \<or> names_differ e q))"

lemma region_matches_iff: "region_matches q e \<longleftrightarrow> regions_overlap q e \<and> attrs_match q e"
  unfolding region_matches_def attrs_match_def by blast

lemma attrs_match_start [simp]: "attrs_match (q\<lparr>rgn_start := a\<rparr>) e = attrs_match q e"
  by (simp add: attrs_match_def names_differ_def)

lemma query_loop_split:
  assumes "query_loop q rs = Inr c"
  obtains xs e ys where "rs = xs @ e # ys" "\<forall>x \<in> set xs. \<not> region_matches q x" "region_matches q e"
    "c = e\<lparr>rgn_start := max (rgn_start q) (rgn_start e), rgn_end := min (rgn_end q) (rgn_end e)\<rparr>"
  using assms
proof (induction rs arbitrary: thesis)
  case (Cons e rs)
  show ?case
  proof (cases "region_matches q e")
    case True
    then have "calc_overlap q e = Some (max (rgn_start q) (rgn_start e), min (rgn_end q) (rgn_end e))"
      by (auto simp: region_matches_iff regions_overlap_def calc_overlap_def split: if_splits)
    with True Cons.prems show ?thesis by (intro Cons.prems(1) [of "[]" e rs]) simp_all
  next
    case False
    with Cons.prems(2) have "query_loop q rs = Inr c" by simp
    from Cons.IH [OF _ this] obtain xs d ys where "rs = xs @ d # ys"
      "\<forall>x \<in> set xs. \<not> region_matches q x" "region_matches q d"
      "c = d\<lparr>rgn_start := max (rgn_start q) (rgn_start d), rgn_end := min (rgn_end q) (rgn_end d)\<rparr>"
      by blast
    with False show ?thesis by (intro Cons.prems(1) [of "e # xs" d ys]) simp_all
  qed
qed simp

lemma query_loop_none: "query_loop q rs = Inl e \<Longrightarrow> e = ENOENT \<and> (\<forall>x \<in> set rs. \<not> region_matches q x)"
  by (induction rs) (auto split: if_splits option.splits)

text \<open>An update inside one region needs at most two list entries.\<close>

lemma update_loop_no_overlap:
  "\<forall>e \<in> set rs. calc_overlap u e = None \<Longrightarrow> pmem_update_loop uo u rs h = (OK, rs, h)"
  by (induction rs) auto

lemma update_loop_append:
  "\<forall>e \<in> set xs. calc_overlap u e = None \<Longrightarrow> pmem_update_loop uo u ys h = (st, rs, h') \<Longrightarrow>
   pmem_update_loop uo u (xs @ ys) h = (st, xs @ rs, h')"
  by (induction xs) auto

lemma pmem_update_inside:
  assumes ok: "pmem_ok (pmem_list s)" and u: "region_ok u"
    and e: "e \<in> set (pmem_list s)" "within u e"
    and env: "\<not> umem_only s" "pmem_heap s = True # True # h"
  shows "\<exists>s'. pmem_update s u = (OK, s')"
proof -
  from e(1) obtain xs ys where sp: "pmem_list s = xs @ e # ys" by (auto simp: in_set_conv_decomp)
  have oke: "region_ok e" "\<And>x. x \<in> set xs \<Longrightarrow> before x e" "\<And>y. y \<in> set ys \<Longrightarrow> before e y"
    using ok by (auto simp: sp pmem_ok_append pmem_ok_Cons)
  have nx: "calc_overlap u x = None" if "x \<in> set xs" for x
    using oke(2) [OF that] e(2) by (auto simp: overlap_iff before_def within_def)
  have ny: "calc_overlap u y = None" if "y \<in> set ys" for y
    using oke(3) [OF that] e(2) by (auto simp: overlap_iff before_def within_def)
  have "rgn_start u < rgn_end e" "rgn_start e < rgn_end u"
    using e(2) u by (simp_all add: within_def region_ok_def word64_cmp)
  then obtain os oe where ov: "calc_overlap u e = Some (os, oe)" by (simp add: calc_overlap_def)
  obtain hs ts h1 where cut: "cut_entry e os oe (True # True # h) = (hs, ts, True, h1)"
    by (cases "rgn_start e < os"; cases "oe < rgn_end e") (simp_all add: cut_entry_def Let_def)
  have nt: "\<forall>y \<in> set (ts @ ys). calc_overlap u y = None"
    using ny cut_tail_no_overlap [OF ov] cut_entry_pieces(2) [OF cut] by auto
  have "pmem_update_loop False u (e # ys) (True # True # h) =
      (OK, hs @ u\<lparr>rgn_start := os, rgn_end := oe\<rparr> # ts @ ys, h1)"
    using ov cut update_loop_no_overlap [OF nt] by (simp add: umem_denied_def)
  from update_loop_append [OF _ this, of xs] nx
  have run: "\<exists>rs h'. pmem_update_loop False u (pmem_list s) (pmem_heap s) = (OK, rs, h')"
    by (simp add: sp env)
  have "region_is_known (pmem_list s) u"
    unfolding region_is_known_iff [OF ok u] pmem_at_None using within_covers [OF e(2)] e(1) by blast
  moreover have "region_is_sane u"
    using u by (auto simp: region_is_sane_def region_ok_def list_ex_iff)
  ultimately show ?thesis using run env(1) by (auto simp: pmem_update_def)
qed


text \<open>What a successful allocation delivers.\<close>

definition alloc_result ::
  "pmem_state \<Rightarrow> u64 \<Rightarrow> u64 \<Rightarrow> pmem_region \<Rightarrow> pmem_region \<Rightarrow> pmem_state \<Rightarrow> bool"
where
  "alloc_result s sz al q c s' \<longleftrightarrow>
     (\<exists>e \<in> set (pmem_list s). attrs_match q e \<and> placement al sz q e (unat (rgn_start c)) \<and>
        rgn_attr c = (rgn_attr e)\<lparr>at_alloc := Some True\<rparr>) \<and>
     unat (rgn_end c) = unat (rgn_start c) + unat sz \<and> pmem_ok (pmem_list s') \<and>
     (\<forall>x. pmem_at (pmem_list s') x = (if covers c x then Some (rgn_attr c) else pmem_at (pmem_list s) x))"

lemma alloc_step:
  assumes ok: "pmem_ok (pmem_list s)" and sz: "sz \<noteq> 0" and al: "al = 0 \<or> is_power_of_2 al"
    and e: "e \<in> set (pmem_list s)" "region_matches q e"
    and wrap: "unat (rgn_end e) + unat al \<le> 2 ^ 64" and q: "rgn_start q < rgn_end q"
    and env: "\<not> umem_only s" "pmem_heap s = True # True # h"
    and c: "c = align_candidate al (e\<lparr>rgn_start := max (rgn_start q) (rgn_start e),
              rgn_end := min (rgn_end q) (rgn_end e)\<rparr>)"
  shows "sz \<le> rgn_end c - rgn_start c \<longleftrightarrow> (\<exists>p. placement al sz q e p)"
    and "sz \<le> rgn_end c - rgn_start c \<Longrightarrow>
      \<exists>s'. pmem_update s (c\<lparr>rgn_end := rgn_start c + sz, allocated_is_set := True, allocated := True\<rparr>) = (OK, s') \<and>
        alloc_result s sz al q (c\<lparr>rgn_end := rgn_start c + sz, allocated_is_set := True, allocated := True\<rparr>) s'"
proof -
  let ?b = "e\<lparr>rgn_start := max (rgn_start q) (rgn_start e), rgn_end := min (rgn_end q) (rgn_end e)\<rparr>"
  let ?c = "c\<lparr>rgn_end := rgn_start c + sz, allocated_is_set := True, allocated := True\<rparr>"
  have oke: "region_ok e" using ok e(1) by (simp add: pmem_ok_def)
  have ov: "rgn_start q < rgn_end e" "rgn_start e < rgn_end q" and am: "attrs_match q e"
    using e(2) by (auto simp: region_matches_iff regions_overlap_def calc_overlap_def split: if_splits)
  have b: "rgn_start ?b < rgn_end ?b" using ov oke q by (simp add: region_ok_def)
  have w: "unat (rgn_end ?b) + unat al \<le> 2 ^ 64"
    using wrap by (auto simp: min_def word64_cmp)
  note pl = align_candidate_place [OF al w b sz, folded c]
  have pi: "placement al sz q e p \<longleftrightarrow> aligned_to al p \<and> unat (rgn_start ?b) \<le> p \<and> p + unat sz \<le> unat (rgn_end ?b)" for p
    by (auto simp: placement_def max_def min_def word64_cmp)
  show "sz \<le> rgn_end c - rgn_start c \<longleftrightarrow> (\<exists>p. placement al sz q e p)" unfolding pl(1) pi ..
  assume "sz \<le> rgn_end c - rgn_start c"
  note f = pl(2) [OF this]
  then have place: "placement al sz q e (unat (rgn_start c))" unfolding pi by (simp add: word64_cmp)
  have ee: "unat (rgn_start c + sz) = unat (rgn_start c) + unat sz"
  proof -
    have "unat (rgn_start c) + unat sz < 2 ^ 64"
      using f unat64_less [of "rgn_end ?b"] by linarith
    then show ?thesis by (rule unat64_add)
  qed
  have nm: "rgn_name c = rgn_name e" "name_is_set c = name_is_set e" and
    at: "rgn_attr ?c = (rgn_attr e)\<lparr>at_alloc := Some True\<rparr>"
    by (simp_all add: c align_candidate_def Let_def rgn_attr_def cname_def)
  have szn: "0 < unat sz" using sz by (simp add: unat_gt_0)
  have okc: "region_ok ?c" using oke ee nm szn by (simp add: region_ok_def word64_cmp)
  have wi: "within ?c e" using place ee by (simp add: within_def placement_def word64_cmp)
  from pmem_update_inside [OF ok okc e(1) wi env] obtain s' where run: "pmem_update s ?c = (OK, s')" by blast
  have len: "length (rgn_name ?c) = 32" using okc by (simp add: region_ok_def)
  note up = pmem_update_OK [OF ok len run]
  have "alloc_result s sz al q ?c s'"
    unfolding alloc_result_def using e(1) am place at ee up(3,4) by auto
  with run show "\<exists>s'. pmem_update s ?c = (OK, s') \<and> alloc_result s sz al q ?c s'" by blast
qed

text \<open>The search skips only places where nothing fits.\<close>

lemma alloc_search:
  assumes ok: "pmem_ok (xs @ e # ys)" and sz: "sz \<noteq> 0"
    and skip: "\<forall>x \<in> set xs. \<not> region_matches q x" and low: "\<forall>d \<in> set (xs @ e # ys). rgn_end d < rgn_end q"
    and d: "d \<in> set (xs @ e # ys)" "d \<noteq> e" "attrs_match q d" "placement al sz q d p"
  shows "placement al sz (q\<lparr>rgn_start := rgn_end e\<rparr>) d p"
proof (cases "d \<in> set xs")
  case True
  then have "\<not> regions_overlap q d" using skip d(3) by (auto simp: region_matches_iff)
  moreover have "rgn_start d < rgn_end q"
  proof -
    have "region_ok d" "rgn_end d < rgn_end q" using ok low d(1) unfolding pmem_ok_def by blast+
    then show ?thesis by (simp add: region_ok_def word64_cmp)
  qed
  ultimately have "rgn_end d \<le> rgn_start q"
    by (auto simp: regions_overlap_def calc_overlap_def split: if_splits)
  then have "unat (rgn_end d) \<le> unat (rgn_start q)" by (simp add: word64_cmp)
  moreover have "0 < unat sz" using sz by (simp add: unat_gt_0)
  ultimately have False using d(4) unfolding placement_def by linarith
  then show ?thesis ..
next
  case False
  then have "before e d" using d(1,2) ok by (auto simp: pmem_ok_append pmem_ok_Cons)
  then show ?thesis using d(4) by (auto simp: placement_def before_def word64_cmp)
qed

lemma placement_mono:
  "placement al sz (q\<lparr>rgn_start := a\<rparr>) e p \<Longrightarrow> rgn_start q \<le> a \<Longrightarrow> placement al sz q e p"
  by (auto simp: placement_def word64_cmp)

lemma alloc_result_mono:
  "alloc_result s sz al (q\<lparr>rgn_start := a\<rparr>) c s' \<Longrightarrow> rgn_start q \<le> a \<Longrightarrow> alloc_result s sz al q c s'"
  unfolding alloc_result_def using placement_mono by fastforce

lemma pmem_alloc_loop_correct:
  assumes "pmem_ok (pmem_list s)" "sz \<noteq> 0" "al = 0 \<or> is_power_of_2 al"
    and "\<forall>e \<in> set (pmem_list s). unat (rgn_end e) + unat al \<le> 2 ^ 64 \<and> rgn_end e < rgn_end q"
    and "\<not> umem_only s" "pmem_heap s = True # True # h" "region_is_sane q"
  shows "(\<exists>c s'. pmem_alloc_loop s sz al q = Some (Inr c, s') \<and> alloc_result s sz al q c s') \<or>
    pmem_alloc_loop s sz al q = Some (Inl ENOMEM, s) \<and>
    (\<forall>e \<in> set (pmem_list s). attrs_match q e \<longrightarrow> \<not> (\<exists>p. placement al sz q e p))"
  using assms
proof (induction s sz al q rule: pmem_alloc_loop.induct)
  case (1 s sz al q)
  have q: "rgn_start q < rgn_end q" using "1.prems"(7) by (simp add: region_is_sane_def not_le)
  show ?case
  proof (cases "pmem_query (pmem_list s) q")
    case (Inl e)
    then have "query_loop q (pmem_list s) = Inl e" using "1.prems"(7) by (simp add: pmem_query_def)
    note n = query_loop_none [OF this]
    have "\<not> placement al sz q d p" if d: "d \<in> set (pmem_list s)" "attrs_match q d" for d p
    proof
      assume pl: "placement al sz q d p"
      have "0 < unat sz" using "1.prems"(2) by (simp add: unat_gt_0)
      with pl have "unat (rgn_start q) < unat (rgn_end d)" "unat (rgn_start d) < unat (rgn_end q)"
        unfolding placement_def by linarith+
      then have "regions_overlap q d" by (simp add: regions_overlap_def calc_overlap_def word64_cmp)
      with n d show False by (auto simp: region_matches_iff)
    qed
    moreover have "pmem_alloc_loop s sz al q = Some (Inl ENOMEM, s)"
      using Inl n by (subst pmem_alloc_loop.simps) simp
    ultimately show ?thesis by blast
  next
    case (Inr c)
    then have "query_loop q (pmem_list s) = Inr c" using "1.prems"(7) by (simp add: pmem_query_def)
    then obtain xs e ys where sp: "pmem_list s = xs @ e # ys" "\<forall>x \<in> set xs. \<not> region_matches q x"
      "region_matches q e"
      "c = e\<lparr>rgn_start := max (rgn_start q) (rgn_start e), rgn_end := min (rgn_end q) (rgn_end e)\<rparr>"
      by (rule query_loop_split)
    define c' where "c' = align_candidate al c"
    have e: "e \<in> set (pmem_list s)" by (simp add: sp(1))
    have we: "unat (rgn_end e) + unat al \<le> 2 ^ 64" "rgn_end e < rgn_end q" using "1.prems"(4) e by auto
    note st = alloc_step [OF "1.prems"(1-3) e sp(3) we(1) q "1.prems"(5,6) c'_def [unfolded sp(4)]]
    show ?thesis
    proof (cases "sz \<le> rgn_end c' - rgn_start c'")
      case True
      from st(2) [OF True] Inr True show ?thesis
        by (subst (1) pmem_alloc_loop.simps) (auto simp: Let_def c'_def [symmetric])
    next
      case False
      let ?q = "q\<lparr>rgn_start := rgn_end c'\<rparr>"
      have re: "rgn_end c' = rgn_end e" using we(2) by (simp add: c'_def sp(4) min.absorb2 less_imp_le)
      have qe: "rgn_start q \<le> rgn_end e"
        using sp(3) by (auto simp: region_matches_iff regions_overlap_def calc_overlap_def split: if_splits)
      have sane: "region_is_sane ?q" using "1.prems"(7) we(2) by (simp add: region_is_sane_def re)
      have run: "pmem_alloc_loop s sz al q = pmem_alloc_loop s sz al ?q"
        using Inr False by (subst pmem_alloc_loop.simps) (simp add: Let_def c'_def)
      have ih: "(\<exists>c s'. pmem_alloc_loop s sz al ?q = Some (Inr c, s') \<and> alloc_result s sz al ?q c s') \<or>
        pmem_alloc_loop s sz al ?q = Some (Inl ENOMEM, s) \<and>
        (\<forall>e \<in> set (pmem_list s). attrs_match ?q e \<longrightarrow> \<not> (\<exists>p. placement al sz ?q e p))"
        by (rule "1.IH" [OF Inr c'_def False]) (use "1.prems" sane in auto)
      have none: "\<not> (\<exists>p. placement al sz q e p)" using st(1) False by simp
      have "\<exists>p. placement al sz ?q d p" if "d \<in> set (pmem_list s)" "attrs_match q d" "placement al sz q d p" for d p
        using alloc_search [of xs e ys sz q d al p] that none "1.prems"(1,2,4) sp(1,2) by (auto simp: re)
      with ih alloc_result_mono [of s sz al "rgn_end c'" q] qe show ?thesis
        unfolding run by (simp add: re) blast
    qed
  qed
qed

text \<open>C9: allocating physical memory. If every region ends below the end of the constraint and two list
  entries can be allocated, the allocator returns. On success the result has the size and alignment
  asked for, lies in the constraint and in one region whose attributes match it, gets exactly its
  attributes with the allocated flag set, and no other address changes; if the constraint asks for free
  memory, all of it was free. Out of memory is reported only if no matching region has an aligned
  place of that size.\<close>

theorem pmem_alloc_correct:
  assumes "pmem_ok (pmem_list s)" "sz \<noteq> 0" "al = 0 \<or> is_power_of_2 al"
    and "\<forall>e \<in> set (pmem_list s). unat (rgn_end e) + unat al \<le> 2 ^ 64 \<and> rgn_end e < rgn_end q"
    and "\<not> umem_only s" "pmem_heap s = True # True # h" "region_is_sane q"
    and "allocated_is_set q" "\<not> allocated q"
  shows "(\<exists>c s'. pmem_alloc s sz al q = Some (Inr c, s') \<and> alloc_result s sz al q c s' \<and>
      (\<forall>x. covers c x \<longrightarrow> covers q x \<and> (\<exists>a. pmem_at (pmem_list s) x = Some a \<and> at_alloc a = Some False))) \<or>
    pmem_alloc s sz al q = Some (Inl ENOMEM, s) \<and>
    (\<forall>e \<in> set (pmem_list s). attrs_match q e \<longrightarrow> \<not> (\<exists>p. placement al sz q e p))"
proof -
  have run: "pmem_alloc s sz al q = pmem_alloc_loop s sz al q"
    using assms(2,3,7-9) by (auto simp: pmem_alloc_def)
  have "covers q x \<and> (\<exists>a. pmem_at (pmem_list s) x = Some a \<and> at_alloc a = Some False)"
    if r: "alloc_result s sz al q c s'" "covers c x" for c s' x
  proof -
    from r(1) obtain e where e: "e \<in> set (pmem_list s)" "attrs_match q e"
      "placement al sz q e (unat (rgn_start c))" "unat (rgn_end c) = unat (rgn_start c) + unat sz"
      unfolding alloc_result_def by blast
    then have "covers e x" "covers q x" using r(2) by (auto simp: covers_def placement_def)
    moreover have "at_alloc (rgn_attr e) = Some False"
      using e(2) assms(8,9) by (auto simp: attrs_match_def rgn_attr_sel)
    ultimately show ?thesis using pmem_at_mem [OF assms(1) e(1)] by blast
  qed
  with pmem_alloc_loop_correct [OF assms(1-7)] show ?thesis unfolding run by blast
qed



lemma pmem_is_type_loop_correct:
  assumes "pmem_ok rs" "rgn_start q < rgn_end q" "type_is_set q" "\<not> numa_node_is_set q"
    "\<not> allocated_is_set q" "\<not> name_is_set q"
  shows "pmem_is_type_loop rs q \<longleftrightarrow>
    (\<forall>x. covers q x \<longrightarrow> (\<exists>a. pmem_at rs x = Some a \<and> at_type a = Some (rgn_type q)))"
  using assms
proof (induction rs q rule: pmem_is_type_loop.induct)
  case (1 rs q)
  have sane: "region_is_sane q" using "1.prems" by (simp add: region_is_sane_def not_le)
  have am: "attrs_match q e \<longleftrightarrow> at_type (rgn_attr e) = Some (rgn_type q)" for e
    using "1.prems" by (auto simp: attrs_match_def rgn_attr_sel)
  have first: "covers q (unat (rgn_start q))" using "1.prems"(2) by (simp add: covers_def word64_cmp)
  show ?case
  proof (cases "pmem_query rs q")
    case (Inl e)
    then have n: "\<forall>e \<in> set rs. \<not> region_matches q e"
      using query_loop_none sane by (simp add: pmem_query_def)
    have "pmem_at rs (unat (rgn_start q)) = Some a \<longrightarrow> at_type a \<noteq> Some (rgn_type q)" for a
    proof
      assume "pmem_at rs (unat (rgn_start q)) = Some a"
      then obtain e where e: "e \<in> set rs" "covers e (unat (rgn_start q))" "rgn_attr e = a"
        using pmem_at_SomeD by blast
      have "regions_overlap q e" using e(2) "1.prems"(2)
        by (auto simp: regions_overlap_def calc_overlap_def covers_def word64_cmp)
      with n e(1,3) am show "at_type a \<noteq> Some (rgn_type q)" by (auto simp: region_matches_iff)
    qed
    with Inl first show ?thesis by (subst pmem_is_type_loop.simps) auto
  next
    case (Inr c)
    then have "query_loop q rs = Inr c" using sane by (simp add: pmem_query_def)
    then obtain xs e ys where sp: "rs = xs @ e # ys" "\<forall>x \<in> set xs. \<not> region_matches q x" "region_matches q e"
      "c = e\<lparr>rgn_start := max (rgn_start q) (rgn_start e), rgn_end := min (rgn_end q) (rgn_end e)\<rparr>"
      by (rule query_loop_split)
    have ov: "rgn_start q < rgn_end e" "rgn_start e < rgn_end q" and te: "at_type (rgn_attr e) = Some (rgn_type q)"
      using sp(3) am by (auto simp: region_matches_iff regions_overlap_def calc_overlap_def split: if_splits)
    have e: "e \<in> set rs" by (simp add: sp(1))
    show ?thesis
    proof (cases "rgn_start e \<le> rgn_start q")
      case False
      have "pmem_at rs (unat (rgn_start q)) = Some a \<longrightarrow> at_type a \<noteq> Some (rgn_type q)" for a
      proof
        assume "pmem_at rs (unat (rgn_start q)) = Some a"
        then obtain d where d: "d \<in> set rs" "covers d (unat (rgn_start q))" "rgn_attr d = a"
          using pmem_at_SomeD by blast
        have "d \<noteq> e" using d(2) False by (auto simp: covers_def word64_cmp)
        moreover have "\<not> before e d"
          using d(2) ov(1) by (auto simp: covers_def before_def word64_cmp)
        ultimately have "d \<in> set xs" using d(1) "1.prems"(1) by (auto simp: sp(1) pmem_ok_append pmem_ok_Cons)
        moreover have "regions_overlap q d" using d(2) "1.prems"(2)
          by (auto simp: regions_overlap_def calc_overlap_def covers_def word64_cmp)
        ultimately show "at_type a \<noteq> Some (rgn_type q)" using sp(2) d(3) am by (auto simp: region_matches_iff)
      qed
      moreover have "rgn_start c \<noteq> rgn_start q" using False by (auto simp: sp(4) max_def word64_cmp)
      ultimately show ?thesis using Inr first by (subst pmem_is_type_loop.simps) auto
    next
      case True
      then have sc: "rgn_start c = rgn_start q" by (simp add: sp(4) max_def)
      have here: "\<exists>a. pmem_at rs x = Some a \<and> at_type a = Some (rgn_type q)"
        if "unat (rgn_start q) \<le> x" "x < unat (rgn_end c)" for x
      proof -
        have "covers e x" using that True by (auto simp: covers_def sp(4) min_def word64_cmp split: if_splits)
        then show ?thesis using pmem_at_mem [OF "1.prems"(1) e] te by blast
      qed
      show ?thesis
      proof (cases "rgn_end c = rgn_end q")
        case True
        then show ?thesis using Inr sc here by (subst pmem_is_type_loop.simps) (auto simp: covers_def)
      next
        case False
        let ?q = "q\<lparr>rgn_start := rgn_end c\<rparr>"
        have lt: "rgn_end c < rgn_end q" using pmem_query_bounds(2) [OF Inr] False by simp
        have run: "pmem_is_type_loop rs q = pmem_is_type_loop rs ?q"
          using Inr sc False by (subst pmem_is_type_loop.simps) simp
        have "pmem_is_type_loop rs ?q \<longleftrightarrow>
          (\<forall>x. covers ?q x \<longrightarrow> (\<exists>a. pmem_at rs x = Some a \<and> at_type a = Some (rgn_type ?q)))"
          by (rule "1.IH" [OF Inr]) (use sc False lt "1.prems" in simp_all)
        moreover have "covers q x \<longleftrightarrow> unat (rgn_start q) \<le> x \<and> x < unat (rgn_end c) \<or> covers ?q x" for x
          using pmem_query_bounds [OF Inr] by (auto simp: covers_def word64_cmp)
        ultimately show ?thesis unfolding run using here by auto
      qed
    qed
  qed
qed

text \<open>C15: \<^verbatim>\<open>pmem_is_type\<close> answers yes exactly when every address of a non-empty range is
  known and has the type.\<close>

theorem pmem_is_type_correct:
  assumes "pmem_ok rs" "start < start + extent"
  shows "pmem_is_type junk rs ty start extent \<longleftrightarrow>
    (\<forall>x. unat start \<le> x \<and> x < unat (start + extent) \<longrightarrow>
       (\<exists>a. pmem_at rs x = Some a \<and> at_type a = Some ty))"
  unfolding pmem_is_type_def
  by (subst pmem_is_type_loop_correct [OF assms(1)])
    (use assms(2) in \<open>simp_all add: pmem_region_unset_all_def covers_def\<close>)

section \<open>Examples\<close>

definition umem_region :: "paddr \<Rightarrow> paddr \<Rightarrow> bool \<Rightarrow> pmem_region" where
  "umem_region a b al = \<lparr>rgn_start = a, rgn_end = b, type_is_set = True, rgn_type = PMEM_TYPE_UMEM,
     numa_node_is_set = False, numa_node = 0, allocated_is_set = True, allocated = al,
     name_is_set = False, rgn_name = replicate 32 0\<rparr>"

definition pmem_start :: "pmem_region list \<Rightarrow> heap_oracle \<Rightarrow> pmem_state" where
  "pmem_start rs h = \<lparr>pmem_list = rs, pmem_heap = h, kernel_maps = [], umem_only = False\<rparr>"

lemma umem_region_ok: "region_ok (umem_region a b al) \<longleftrightarrow> a < b"
  by (simp add: region_ok_def umem_region_def)

lemma umem_region_sel [simp]:
  "rgn_start (umem_region a b al) = a" "rgn_end (umem_region a b al) = b"
  "length (rgn_name (umem_region a b al)) = 32"
  by (simp_all add: umem_region_def)

lemma pmem_start_sel [simp]:
  "pmem_list (pmem_start rs h) = rs" "pmem_heap (pmem_start rs h) = h" "\<not> umem_only (pmem_start rs h)"
  by (simp_all add: pmem_start_def)

lemma umem_pair_ok: "pmem_ok [umem_region 0 100 False, umem_region 100 200 True]"
  by (simp add: pmem_ok_Cons umem_region_ok before_def word64_cmp)

lemma umem_one_ok: "pmem_ok [umem_region 0 100 False]"
  by (simp add: pmem_ok_Cons umem_region_ok word64_cmp)

theorem pmem_add_correct_witness:
  "\<exists>s'. pmem_add (pmem_start [umem_region 0 100 False] [True]) (umem_region 200 300 False) = (OK, s') \<and>
    pmem_ok (pmem_list s') \<and> pmem_at (pmem_list s') 250 \<noteq> None"
proof -
  let ?s = "pmem_start [umem_region 0 100 False] [True]" and ?r = "umem_region 200 300 False"
  have "fst (pmem_add ?s ?r) = OK" by code_simp
  then obtain s' where s': "pmem_add ?s ?r = (OK, s')" by (metis prod.collapse)
  have "covers ?r 250" by (simp add: covers_def)
  with pmem_add_correct [of ?s ?r "[]"] s' umem_one_ok show ?thesis by simp
qed

theorem pmem_update_correct_witness:
  "\<exists>s'. pmem_update (pmem_start [umem_region 0 100 False] [True, True]) (umem_region 10 20 True) = (OK, s') \<and>
    pmem_at (pmem_list s') 15 = Some (rgn_attr (umem_region 10 20 True)) \<and>
    pmem_at (pmem_list s') 25 = pmem_at [umem_region 0 100 False] 25"
proof -
  let ?s = "pmem_start [umem_region 0 100 False] [True, True]" and ?r = "umem_region 10 20 True"
  have "fst (pmem_update ?s ?r) = OK" by code_simp
  then obtain s' where s': "pmem_update ?s ?r = (OK, s')" by (metis prod.collapse)
  have "covers ?r 15" "\<not> covers ?r 25" by (simp_all add: covers_def)
  with pmem_update_correct [OF _ _ s'] s' umem_one_ok show ?thesis by simp
qed

theorem pmem_del_correct_witness:
  "\<exists>s'. pmem_del (pmem_start [umem_region 0 100 False] [True, True]) (umem_region 10 20 False) = (OK, s') \<and>
    pmem_at (pmem_list s') 15 = None \<and> pmem_at (pmem_list s') 25 \<noteq> None"
proof -
  let ?s = "pmem_start [umem_region 0 100 False] [True, True]" and ?r = "umem_region 10 20 False"
  have "fst (pmem_del ?s ?r) = OK" by code_simp
  then obtain s' where s': "pmem_del ?s ?r = (OK, s')" by (metis prod.collapse)
  have "covers ?r 15" "\<not> covers ?r 25" "covers (umem_region 0 100 False) 25" by (simp_all add: covers_def)
  with pmem_del_correct [OF _ _ s'] s' umem_one_ok show ?thesis by simp
qed

definition kmem_region :: pmem_region where
  "kmem_region = (umem_region 100 200 False)\<lparr>rgn_type := PMEM_TYPE_KMEM\<rparr>"


definition free_constraint :: pmem_region where
  "free_constraint = umem_region 0 (2 ^ 40) False"

definition alloc_start :: pmem_state where
  "alloc_start = pmem_start [umem_region 0 100 False] [True, True, True, True]"

lemma alloc_run: "map_option fst (pmem_alloc alloc_start 32 16 free_constraint) = Some (Inr (umem_region 0 32 True))"
  by code_simp

theorem pmem_alloc_correct_witness:
  "\<exists>c s'. pmem_alloc alloc_start 32 16 free_constraint = Some (Inr c, s') \<and>
    alloc_result alloc_start 32 16 free_constraint c s'"
proof -
  have "is_power_of_2 16" by code_simp
  with pmem_alloc_correct [of alloc_start 32 16 free_constraint "[True, True]"] alloc_run umem_one_ok
  show ?thesis by (force simp: alloc_start_def free_constraint_def region_is_sane_def umem_region_def word64_cmp)
qed


definition alloc_done :: pmem_state where
  "alloc_done = snd (the (pmem_alloc alloc_start 32 16 (umem_constraint free_constraint)))"


theorem pmem_is_type_correct_witness:
  "pmem_is_type kmem_region [umem_region 0 100 False, umem_region 100 200 True] PMEM_TYPE_UMEM 50 100 \<and>
   (\<exists>a. pmem_at [umem_region 0 100 False, umem_region 100 200 True] 120 = Some a \<and>
        at_type a = Some PMEM_TYPE_UMEM)"
proof -
  have "pmem_is_type kmem_region [umem_region 0 100 False, umem_region 100 200 True] PMEM_TYPE_UMEM 50 100"
    by code_simp
  with pmem_is_type_correct [OF umem_pair_ok, of 50 100 kmem_region PMEM_TYPE_UMEM] show ?thesis
    by (auto simp: word64_cmp dest!: spec [of _ 120])
qed

section \<open>Limits of the code\<close>

text \<open>If the search ends exactly at the end of the constraint without success, the next query has an
  empty range, its error is not the one expected, and the kernel stops.\<close>

lemma pmem_alloc_panics_at_constraint_end:
  "pmem_alloc (pmem_start [umem_region 0 100 False] [True, True]) 60 0 (umem_region 0 50 False) = None"
  by code_simp

text \<open>An update that runs out of list entries between the head and the tail piece of a region leaves
  two overlapping regions behind.\<close>

lemma pmem_update_nomem_overlaps:
  "\<exists>s'. pmem_update (pmem_start [umem_region 0 100 False] [True, False]) (umem_region 10 20 True) =
     (Err ENOMEM, s') \<and> pmem_list s' = [umem_region 0 10 False, umem_region 0 100 False] \<and>
     \<not> pmem_ok (pmem_list s')"
proof -
  let ?r = "pmem_update (pmem_start [umem_region 0 100 False] [True, False]) (umem_region 10 20 True)"
  have a: "fst ?r = Err ENOMEM" by code_simp
  have b: "pmem_list (snd ?r) = [umem_region 0 10 False, umem_region 0 100 False]" by code_simp
  have "\<not> pmem_ok [umem_region 0 10 False, umem_region 0 100 False]"
    by (simp add: pmem_ok_Cons before_def word64_cmp)
  with a b show ?thesis by (metis prod.collapse)
qed

text \<open>A delete that meets allocated memory reports it after it has already deleted the free memory in
  front of it.\<close>

lemma pmem_del_not_atomic:
  "\<exists>s'. pmem_del (pmem_start [umem_region 0 100 False, umem_region 100 200 True] []) (umem_region 0 200 False) =
     (Err EBUSY, s') \<and> pmem_list s' = [umem_region 100 200 True]"
proof -
  let ?r = "pmem_del (pmem_start [umem_region 0 100 False, umem_region 100 200 True] []) (umem_region 0 200 False)"
  have "fst ?r = Err EBUSY" by code_simp
  moreover have "pmem_list (snd ?r) = [umem_region 100 200 True]" by code_simp
  ultimately show ?thesis by (metis prod.collapse)
qed

text \<open>Deleting the middle of a region unmaps all of the region from the kernel, also the pieces that
  stay in the list.\<close>

lemma pmem_del_unmaps_kept_memory:
  "\<exists>s'. pmem_del (pmem_start [umem_region 0 100 False] [True, True]) (umem_region 10 20 False) = (OK, s') \<and>
     pmem_list s' = [umem_region 0 10 False, umem_region 20 100 False] \<and>
     kernel_maps s' = [Unmap_from_kernel 0 100]"
proof -
  let ?r = "pmem_del (pmem_start [umem_region 0 100 False] [True, True]) (umem_region 10 20 False)"
  have "fst ?r = OK" by code_simp
  moreover have "pmem_list (snd ?r) = [umem_region 0 10 False, umem_region 20 100 False]" by code_simp
  moreover have "kernel_maps (snd ?r) = [Unmap_from_kernel 0 100]" by code_simp
  ultimately show ?thesis by (metis prod.collapse)
qed

end
