(* ===== verification/Kitten_Region.thy ===== *)
theory Kitten_Region
  imports Kitten_Htable Kitten_PageMap Kitten_Pmem_Alloc
begin

text \<open>
  One address space of \<^verbatim>\<open>kernel/mm/aspace.c\<close>: its list of regions and the operations that work on
  a locked \<^verbatim>\<open>struct aspace\<close>. The functions whose names start with two underscores in the source start
  with \<^verbatim>\<open>raw_\<close> here; their test for a \<^verbatim>\<open>NULL\<close> address space is made by the callers that look the
  address space up. Region objects are allocated from the heap that also holds the page tables; the
  address of the object is part of the record. \<^verbatim>\<open>cpu_info[0].pagesz_mask\<close>, the set of page sizes of the
  machine, is an argument.

  The properties: the list stays sorted, disjoint and well formed under every operation; a hole is
  found if there is one and is the lowest; mapping and unmapping memory over a range has the effect
  on every address that the page-by-page loops are meant to have.
\<close>

section \<open>Regions and address spaces\<close>

record region =
  vr_ptr :: u64
  vr_start :: vaddr
  vr_end :: vaddr
  vr_flags :: u64
  vr_pagesz :: u64
  vr_smartmap :: id_t
  vr_name :: string

record aspace =
  as_ptr :: u64
  refcnt :: int
  exiting :: bool
  reaped :: bool
  as_id :: id_t
  as_rank :: id_t
  as_name :: string
  as_parent :: u64
  child_list :: "u64 list"
  region_list :: "region list"
  task_list :: "u64 list"
  next_task_id :: id_t
  cpu_mask :: bitmap
  next_cpu_id :: id_t
  hio_syscall_mask :: bitmap
  exit_status :: int
  heap_start :: vaddr
  heap_end :: vaddr
  brk :: vaddr
  mmap_brk :: vaddr
  arch_pgd :: u64

definition ULONG_MAX :: u64 where "ULONG_MAX = - 1"
definition PAGE_SIZE :: u64 where "PAGE_SIZE = 4096"

text \<open>\<^verbatim>\<open>sizeof(struct region)\<close>: two pointers of the list head, the back pointer, four words, the id and
  the name, padded to a multiple of eight.\<close>

definition sizeof_region :: u64 where "sizeof_region = 80"

definition calc_end :: "vaddr \<Rightarrow> u64 \<Rightarrow> vaddr" where
  "calc_end start extent = (let finish = start + extent in if finish = 0 then ULONG_MAX else finish)"

definition find_region :: "aspace \<Rightarrow> vaddr \<Rightarrow> region option" where
  "find_region a addr = find (\<lambda>rgn. vr_start rgn \<le> addr \<and> vr_end rgn > addr) (region_list a)"

definition find_overlapping_region :: "aspace \<Rightarrow> vaddr \<Rightarrow> vaddr \<Rightarrow> region option" where
  "find_overlapping_region a start finish =
     find (\<lambda>rgn. start < vr_end rgn \<and> finish > vr_start rgn) (region_list a)"

definition find_smartmap_region :: "aspace \<Rightarrow> id_t \<Rightarrow> region option" where
  "find_smartmap_region a src_aspace =
     find (\<lambda>rgn. vr_flags rgn AND VM_SMARTMAP \<noteq> 0 \<and> vr_smartmap rgn = src_aspace) (region_list a)"

section \<open>Operations on a locked address space\<close>

text \<open>The search loop of \<^verbatim>\<open>__aspace_find_hole\<close>; \<^term>\<open>None\<close> is a loop that does not end.\<close>

partial_function (option) find_hole_loop :: "aspace \<Rightarrow> vaddr \<Rightarrow> u64 \<Rightarrow> u64 \<Rightarrow> (errno + vaddr) option" where
  "find_hole_loop a hole extent alignment =
     (case find_overlapping_region a hole (hole + extent) of
        None \<Rightarrow> Some (Inr hole)
      | Some rgn \<Rightarrow>
          if vr_end rgn = ULONG_MAX then Some (Inl ENOENT)
          else find_hole_loop a (round_up (vr_end rgn) alignment) extent alignment)"

definition raw_aspace_find_hole :: "aspace \<Rightarrow> vaddr \<Rightarrow> u64 \<Rightarrow> u64 \<Rightarrow> (errno + vaddr) option" where
  "raw_aspace_find_hole a start_hint extent alignment =
     (if extent = 0 \<or> \<not> is_power_of_2 alignment then Some (Inl EINVAL)
      else let start_hint = (if start_hint = 0 then 1 else start_hint)
           in find_hole_loop a (round_up start_hint alignment) extent alignment)"

definition raw_aspace_add_region ::
    "u64 \<Rightarrow> kmem_state \<Rightarrow> aspace \<Rightarrow> vaddr \<Rightarrow> u64 \<Rightarrow> u64 \<Rightarrow> u64 \<Rightarrow> string option \<Rightarrow>
     (status \<times> aspace \<times> kmem_state) option" where
  "raw_aspace_add_region pagesz_mask s a start extent flags pagesz name =
     (let finish = calc_end start extent; sz = pagesz AND pagesz_mask
      in if start = 0 then Some (Err EINVAL, a, s)
         else if extent = 0 then Some (Err EINVAL, a, s)
         else if start \<ge> finish then Some (Err EINVAL, a, s)
         else if pagesz AND pagesz_mask = 0 then Some (Err EINVAL, a, s)
         else if \<not> is_power_of_2 sz then Some (Err EINVAL, a, s)
         else if start AND (sz - 1) \<noteq> 0 \<or> finish \<noteq> ULONG_MAX \<and> finish AND (sz - 1) \<noteq> 0 then Some (Err EINVAL, a, s)
         else if list_ex (\<lambda>cur. start < vr_end cur \<and> finish > vr_start cur) (region_list a) then Some (Err ENOTUNIQ, a, s)
         else do {
           (p, s) \<leftarrow> kmem_alloc s sizeof_region;
           if p = 0 then Some (Err ENOMEM, a, s)
           else
             let rgn = \<lparr>vr_ptr = p, vr_start = start, vr_end = finish, vr_flags = flags, vr_pagesz = sz,
                        vr_smartmap = 0, vr_name = (case name of None \<Rightarrow> [] | Some n \<Rightarrow> take 15 n)\<rparr>;
                 a = (if flags AND VM_HEAP \<noteq> 0
                      then a\<lparr>heap_start := start, heap_end := finish, brk := start, mmap_brk := finish\<rparr> else a)
             in Some (OK, a\<lparr>region_list := link_sorted vr_start rgn (region_list a)\<rparr>, s)
         })"

text \<open>\<^verbatim>\<open>__aspace_unmap_pmem\<close>: the loop over the pages of one region, and the loop over the regions.\<close>

partial_function (option) unmap_pages ::
    "kmem_state \<Rightarrow> u64 \<Rightarrow> region \<Rightarrow> vaddr \<Rightarrow> u64 \<Rightarrow> (kmem_state \<times> vaddr \<times> u64) option" where
  "unmap_pages s pgd rgn start extent =
     (if extent \<noteq> 0 \<and> start < vr_end rgn then
        Option.bind (arch_aspace_unmap_page s pgd start (vr_pagesz rgn))
          (\<lambda>s. unmap_pages s pgd rgn (start + vr_pagesz rgn) (extent - vr_pagesz rgn))
      else Some (s, start, extent))"

partial_function (option) raw_aspace_unmap_pmem ::
    "kmem_state \<Rightarrow> aspace \<Rightarrow> vaddr \<Rightarrow> u64 \<Rightarrow> (status \<times> kmem_state) option" where
  "raw_aspace_unmap_pmem s a start extent =
     (if extent = 0 then Some (OK, s)
      else case find_region a start of
        None \<Rightarrow> Some (Err EINVAL, s)
      | Some rgn \<Rightarrow>
          if vr_flags rgn AND VM_KERNEL \<noteq> 0 \<or> vr_flags rgn AND VM_SMARTMAP \<noteq> 0 then Some (Err EINVAL, s)
          else if start AND (vr_pagesz rgn - 1) \<noteq> 0 then Some (Err EINVAL, s)
          else if extent AND (vr_pagesz rgn - 1) \<noteq> 0 then Some (Err EINVAL, s)
          else Option.bind (unmap_pages s (arch_pgd a) rgn start extent)
                 (\<lambda>(s, start, extent). raw_aspace_unmap_pmem s a start extent))"

text \<open>\<^verbatim>\<open>__aspace_map_pmem\<close>: the loop over the pages of one region, the loop over the regions, and the
  function, which first tests the type of the physical memory.\<close>

partial_function (option) map_pages ::
    "kmem_state \<Rightarrow> u64 \<Rightarrow> region \<Rightarrow> paddr \<Rightarrow> vaddr \<Rightarrow> u64 \<Rightarrow> (status \<times> kmem_state \<times> paddr \<times> vaddr \<times> u64) option" where
  "map_pages s pgd rgn pmem start extent =
     (if extent \<noteq> 0 \<and> start < vr_end rgn then
        Option.bind (arch_aspace_map_page s pgd start pmem (vr_flags rgn) (vr_pagesz rgn))
          (\<lambda>(st, s). if st \<noteq> OK then Some (st, s, pmem, start, extent)
             else map_pages s pgd rgn (pmem + vr_pagesz rgn) (start + vr_pagesz rgn) (extent - vr_pagesz rgn))
      else Some (OK, s, pmem, start, extent))"

partial_function (option) map_pmem_loop ::
    "kmem_state \<Rightarrow> aspace \<Rightarrow> paddr \<Rightarrow> vaddr \<Rightarrow> u64 \<Rightarrow> (status \<times> kmem_state) option" where
  "map_pmem_loop s a pmem start extent =
     (if extent = 0 then Some (OK, s)
      else case find_region a start of
        None \<Rightarrow> Some (Err EINVAL, s)
      | Some rgn \<Rightarrow>
          if vr_flags rgn AND VM_KERNEL \<noteq> 0 \<or> vr_flags rgn AND VM_SMARTMAP \<noteq> 0 then Some (Err EINVAL, s)
          else if start AND (vr_pagesz rgn - 1) \<noteq> 0 \<or> pmem AND (vr_pagesz rgn - 1) \<noteq> 0 then Some (Err EINVAL, s)
          else Option.bind (map_pages s (arch_pgd a) rgn pmem start extent)
                 (\<lambda>(st, s, pmem, start, extent).
                    if st \<noteq> OK then Some (st, s) else map_pmem_loop s a pmem start extent))"

definition raw_aspace_map_pmem ::
    "pmem_region \<Rightarrow> pmem_state \<Rightarrow> kmem_state \<Rightarrow> aspace \<Rightarrow> paddr \<Rightarrow> vaddr \<Rightarrow> u64 \<Rightarrow> (status \<times> kmem_state) option" where
  "raw_aspace_map_pmem junk ps s a pmem start extent =
     (if umem_only ps \<and> \<not> pmem_is_type junk (pmem_list ps) PMEM_TYPE_UMEM pmem extent \<and>
         \<not> pmem_is_type junk (pmem_list ps) PMEM_TYPE_INIT_TASK pmem extent
      then Some (Err EPERM, s)
      else map_pmem_loop s a pmem start extent)"

definition raw_aspace_del_region ::
    "kmem_state \<Rightarrow> aspace \<Rightarrow> vaddr \<Rightarrow> u64 \<Rightarrow> (status \<times> aspace \<times> kmem_state) option" where
  "raw_aspace_del_region s a start extent =
     (let finish = calc_end start extent
      in case find_region a start of
           None \<Rightarrow> Some (Err EINVAL, a, s)
         | Some rgn \<Rightarrow>
             if vr_start rgn \<noteq> start \<or> vr_end rgn \<noteq> finish \<or> vr_flags rgn AND VM_KERNEL \<noteq> 0
             then Some (Err EINVAL, a, s)
             else do {
               (st, s) \<leftarrow> (if vr_flags rgn AND VM_SMARTMAP = 0 then raw_aspace_unmap_pmem s a start extent
                          else Some (OK, s));
               if st \<noteq> OK then Some (st, a, s)
               else do {
                 s \<leftarrow> kmem_free s (vr_ptr rgn);
                 Some (OK, a\<lparr>region_list := remove1 rgn (region_list a)\<rparr>, s)
               }
             })"

definition raw_aspace_virt_to_phys :: "kmem_state \<Rightarrow> aspace \<Rightarrow> vaddr \<Rightarrow> errno + paddr" where
  "raw_aspace_virt_to_phys s a vaddr = arch_aspace_virt_to_phys s (arch_pgd a) vaddr"

record aspace_mapping =
  mapping_start :: vaddr
  mapping_end :: vaddr
  mapping_paddr :: paddr
  mapping_flags :: u64

text \<open>\<^verbatim>\<open>__aspace_lookup_mapping\<close> stores the bounds and flags also when the translation fails.\<close>

definition raw_aspace_lookup_mapping ::
    "kmem_state \<Rightarrow> aspace \<Rightarrow> vaddr \<Rightarrow> aspace_mapping \<Rightarrow> status \<times> aspace_mapping" where
  "raw_aspace_lookup_mapping s a vaddr mapping =
     (case find_region a vaddr of
        None \<Rightarrow> (Err EINVAL, mapping)
      | Some rgn \<Rightarrow>
          let mapping = mapping\<lparr>mapping_start := vr_start rgn, mapping_end := vr_end rgn, mapping_flags := vr_flags rgn\<rparr>
          in case raw_aspace_virt_to_phys s a (vr_start rgn) of
               Inl e \<Rightarrow> (Err e, mapping)
             | Inr paddr \<Rightarrow> (OK, mapping\<lparr>mapping_paddr := paddr\<rparr>))"

text \<open>\<^verbatim>\<open>__aspace_smartmap\<close>. The source and the destination may be the same address space; the model has
  them as two arguments and returns both, the destination with its new region.\<close>

definition set_smartmap :: "aspace \<Rightarrow> vaddr \<Rightarrow> id_t \<Rightarrow> aspace option" where
  "set_smartmap a start src =
     (case find_region a start of
        None \<Rightarrow> None
      | Some rgn \<Rightarrow> Some (a\<lparr>region_list :=
          map (\<lambda>r. if r = rgn then r\<lparr>vr_smartmap := src\<rparr> else r) (region_list a)\<rparr>))"

definition raw_aspace_smartmap ::
    "u64 \<Rightarrow> (id_t \<Rightarrow> string) \<Rightarrow> kmem_state \<Rightarrow> aspace \<Rightarrow> aspace \<Rightarrow> vaddr \<Rightarrow> u64 \<Rightarrow>
     (status \<times> aspace \<times> aspace \<times> kmem_state) option" where
  "raw_aspace_smartmap pagesz_mask smartmap_name s src dst start extent =
     (let finish = start + extent
      in if find_smartmap_region dst (as_id src) \<noteq> None then Some (Err EINVAL, src, dst, s)
         else if start \<ge> finish then Some (Err EINVAL, src, dst, s)
         else if start AND (SMARTMAP_ALIGN - 1) \<noteq> 0 \<or> finish AND (SMARTMAP_ALIGN - 1) \<noteq> 0
         then Some (Err EINVAL, src, dst, s)
         else do {
           (st, dst, s) \<leftarrow> raw_aspace_add_region pagesz_mask s dst start extent VM_SMARTMAP PAGE_SIZE
                             (Some (smartmap_name (as_id src)));
           if st \<noteq> OK then Some (st, src, dst, s)
           else do {
             (st, s) \<leftarrow> arch_aspace_smartmap s (arch_pgd src) (arch_pgd dst) start extent;
             if st \<noteq> OK then do {
               (st', dst, s) \<leftarrow> raw_aspace_del_region s dst start extent;
               if st' \<noteq> OK then None else Some (st, src, dst, s)
             }
             else do {
               dst \<leftarrow> set_smartmap dst start (as_id src);
               Some (OK, src\<lparr>refcnt := refcnt src + 1\<rparr>, dst, s)
             }
           }
         })"

definition raw_aspace_unsmartmap ::
    "kmem_state \<Rightarrow> aspace \<Rightarrow> aspace \<Rightarrow> (status \<times> aspace \<times> aspace \<times> kmem_state) option" where
  "raw_aspace_unsmartmap s src dst =
     (case find_smartmap_region dst (as_id src) of
        None \<Rightarrow> Some (Err EINVAL, src, dst, s)
      | Some rgn \<Rightarrow>
          let extent = vr_end rgn - vr_start rgn;
              s = arch_aspace_unsmartmap s (arch_pgd dst) (vr_start rgn) extent
          in do {
            (st, dst, s) \<leftarrow> raw_aspace_del_region s dst (vr_start rgn) extent;
            if st \<noteq> OK then None
            else Some (OK, src\<lparr>refcnt := refcnt src - 1\<rparr>, dst, s)
          })"

section \<open>The region list\<close>

definition rgn_ok :: "u64 \<Rightarrow> region \<Rightarrow> bool" where
  "rgn_ok pagesz_mask r \<longleftrightarrow> vr_start r \<noteq> 0 \<and> vr_start r < vr_end r \<and> is_power_of_2 (vr_pagesz r) \<and>
     vr_pagesz r AND pagesz_mask = vr_pagesz r \<and> vr_start r AND (vr_pagesz r - 1) = 0 \<and>
     (vr_end r = ULONG_MAX \<or> vr_end r AND (vr_pagesz r - 1) = 0)"

definition regions_ok :: "u64 \<Rightarrow> region list \<Rightarrow> bool" where
  "regions_ok pagesz_mask rs \<longleftrightarrow> (\<forall>r \<in> set rs. rgn_ok pagesz_mask r) \<and> sorted_wrt (\<lambda>r q. vr_end r \<le> vr_start q) rs"

definition in_region :: "region \<Rightarrow> vaddr \<Rightarrow> bool" where
  "in_region r v \<longleftrightarrow> vr_start r \<le> v \<and> v < vr_end r"

lemma find_region_eq: "find_region a v = find (\<lambda>r. in_region r v) (region_list a)"
  by (simp add: find_region_def in_region_def)

lemma find_region_SomeD: "find_region a v = Some r \<Longrightarrow> r \<in> set (region_list a) \<and> in_region r v"
  unfolding find_region_eq by (metis (no_types, lifting) find_Some_iff nth_mem)

lemma regions_disjoint:
  assumes "regions_ok m rs" "r \<in> set rs" "q \<in> set rs" "in_region r v" "in_region q v"
  shows "r = q"
proof -
  obtain i j where ij: "i < length rs" "rs ! i = r" "j < length rs" "rs ! j = q"
    using assms(2,3) by (auto simp: in_set_conv_nth)
  have s: "vr_end (rs ! i) \<le> vr_start (rs ! j)" if "i < j" "j < length rs" for i j
    using assms(1) that by (auto simp: regions_ok_def sorted_wrt_iff_nth_less)
  consider "i < j" | "i = j" | "j < i" by linarith
  then show ?thesis
  proof cases
    case 1
    then show ?thesis using s [of i j] ij assms(4,5) by (simp add: in_region_def) (meson le_less_trans less_le_trans not_less_iff_gr_or_eq)
  next
    case 3
    then show ?thesis using s [of j i] ij assms(4,5) by (simp add: in_region_def) (meson le_less_trans less_le_trans not_less_iff_gr_or_eq)
  qed (use ij in simp)
qed

lemma find_region_member:
  assumes "regions_ok m (region_list a)" "r \<in> set (region_list a)" "in_region r v"
  shows "find_region a v = Some r"
proof (cases "find_region a v")
  case None
  then show ?thesis using assms(2,3) by (auto simp: find_region_eq find_None_iff)
next
  case (Some q)
  then show ?thesis using find_region_SomeD [OF Some] regions_disjoint [OF assms(1)] assms(2,3) by blast
qed

lemma regions_ok_sorted: "regions_ok m rs \<Longrightarrow> sorted (map vr_start rs)"
  unfolding regions_ok_def sorted_map
  by (elim conjE, rule sorted_wrt_mono_rel) (auto simp: rgn_ok_def dest: less_imp_le order_trans)

text \<open>A region that overlaps none of the list is linked in at its place.\<close>

lemma link_region_ok:
  assumes ok: "regions_ok m rs" and r: "rgn_ok m r"
    and free: "\<And>q. q \<in> set rs \<Longrightarrow> vr_end q \<le> vr_start r \<or> vr_end r \<le> vr_start q"
  shows "regions_ok m (link_sorted vr_start r rs)"
proof -
  let ?l = "filter (\<lambda>q. vr_start q \<le> vr_start r) rs" and ?g = "filter (\<lambda>q. vr_start r < vr_start q) rs"
  have eq: "link_sorted vr_start r rs = ?l @ r # ?g" by (rule link_sorted_split [OF regions_ok_sorted [OF ok]])
  have pos: "vr_start q < vr_end q" if "q \<in> set rs" for q using ok that by (auto simp: regions_ok_def rgn_ok_def)
  have rp: "vr_start r < vr_end r" using r by (simp add: rgn_ok_def)
  have l: "vr_end q \<le> vr_start r" if "q \<in> set rs" "vr_start q \<le> vr_start r" for q
    using free [OF that(1)] that(2) rp by (meson less_le_trans not_le order_trans)
  have g: "vr_end r \<le> vr_start q" if "q \<in> set rs" "vr_start r < vr_start q" for q
    using free [OF that(1)] that(2) pos [OF that(1)] by (meson less_le_trans less_trans not_le)
  have lg: "vr_end p \<le> vr_start q" if "p \<in> set rs" "q \<in> set rs" "vr_start p \<le> vr_start r" "vr_start r < vr_start q" for p q
    using l [OF that(1,3)] that(4) by (meson less_imp_le order_trans)
  have "sorted_wrt (\<lambda>r q. vr_end r \<le> vr_start q) (?l @ r # ?g)"
    unfolding sorted_wrt_append using ok l g lg by (auto simp: regions_ok_def sorted_wrt_filter)
  then show ?thesis using ok r unfolding eq by (auto simp: regions_ok_def)
qed

lemma add_region_cases:
  assumes "raw_aspace_add_region m s a start extent flags pagesz name = Some (st, a', s')" "regions_ok m (region_list a)"
  obtains (err) "st \<noteq> OK" "a' = a"
  | (added) r where "st = OK" "region_list a' = link_sorted vr_start r (region_list a)" "rgn_ok m r"
      "vr_start r = start" "vr_end r = calc_end start extent" "vr_flags r = flags" "vr_pagesz r = pagesz AND m"
      "\<And>q. q \<in> set (region_list a) \<Longrightarrow> vr_end q \<le> start \<or> calc_end start extent \<le> vr_start q"
      "arch_pgd a' = arch_pgd a" "as_id a' = as_id a" "vr_smartmap r = 0"
proof (cases "st = OK")
  case False
  then have "a' = a" using assms(1)
    by (auto simp: raw_aspace_add_region_def Let_def bind_eq_Some_conv split: if_splits)
  then show thesis using False by (rule err [rotated])
next
  case True
  let ?f = "calc_end start extent" and ?sz = "pagesz AND m"
  obtain p where run: "kmem_alloc s sizeof_region = Some (p, s')" "p \<noteq> 0" "start \<noteq> 0" "start < ?f" "is_power_of_2 ?sz"
    "start AND (?sz - 1) = 0" "?f = ULONG_MAX \<or> ?f AND (?sz - 1) = 0"
    "\<not> list_ex (\<lambda>cur. start < vr_end cur \<and> ?f > vr_start cur) (region_list a)"
    and a': "region_list a' = link_sorted vr_start \<lparr>vr_ptr = p, vr_start = start, vr_end = ?f, vr_flags = flags, vr_pagesz = ?sz,
       vr_smartmap = 0, vr_name = (case name of None \<Rightarrow> [] | Some n \<Rightarrow> take 15 n)\<rparr> (region_list a)"
       "arch_pgd a' = arch_pgd a" "as_id a' = as_id a"
    using assms(1) True
    by (auto simp: raw_aspace_add_region_def Let_def bind_eq_Some_conv not_le split: if_splits)
  have "vr_end q \<le> start \<or> ?f \<le> vr_start q" if "q \<in> set (region_list a)" for q
    using run(8) that by (auto simp: list_ex_iff not_less)
  moreover have "?sz AND m = ?sz" by (simp add: and.assoc)
  ultimately show thesis using True run(3-7) a'
    by (intro added [OF True a'(1)]) (simp_all add: rgn_ok_def)
qed

lemma sorted_wrt_remove1: "sorted_wrt R xs \<Longrightarrow> sorted_wrt R (remove1 x xs)"
  by (induction xs) (auto dest: in_set_remove1 [THEN iffD1, rotated] simp: notin_set_remove1)

lemma regions_ok_remove1: "regions_ok m rs \<Longrightarrow> regions_ok m (remove1 r rs)"
  unfolding regions_ok_def using set_remove1_subset [of r rs] by (auto intro: sorted_wrt_remove1)

lemma regions_ok_smartmap:
  assumes "regions_ok m rs" "\<And>r. vr_start (f r) = vr_start r \<and> vr_end (f r) = vr_end r \<and> vr_pagesz (f r) = vr_pagesz r"
  shows "regions_ok m (map f rs)"
  using assms by (simp add: regions_ok_def rgn_ok_def sorted_wrt_map)

lemma del_region_cases:
  assumes "raw_aspace_del_region s a start extent = Some (st, a', s')"
  obtains (err) "st \<noteq> OK" "a' = a"
  | (deleted) r where "st = OK" "find_region a start = Some r" "vr_start r = start" "vr_end r = calc_end start extent"
      "vr_flags r AND VM_KERNEL = 0" "a' = a\<lparr>region_list := remove1 r (region_list a)\<rparr>"
proof (cases "st = OK")
  case False
  then show thesis using assms
    by (intro err) (auto simp: raw_aspace_del_region_def Let_def bind_eq_Some_conv split: if_splits option.splits)
next
  case True
  then show thesis using assms
    by (auto simp: raw_aspace_del_region_def Let_def bind_eq_Some_conv split: if_splits option.splits intro: deleted)
qed

lemma add_region_keeps_ok:
  assumes "regions_ok m (region_list a)" "raw_aspace_add_region m s a start extent flags pagesz name = Some (st, a', s')"
  shows "regions_ok m (region_list a')"
  using assms(2,1)
proof (cases rule: add_region_cases)
  case (added r)
  then show ?thesis using link_region_ok [OF assms(1), of r] by simp
qed (use assms in simp)

lemma del_region_keeps_ok:
  assumes "regions_ok m (region_list a)" "raw_aspace_del_region s a start extent = Some (st, a', s')"
  shows "regions_ok m (region_list a')"
  using assms(2)
proof (cases rule: del_region_cases)
  case (deleted r)
  then show ?thesis using regions_ok_remove1 [OF assms(1)] by simp
qed (use assms in simp)

text \<open>The life of one address space between its creation and its destruction: the operations on its own
  regions and memory, the SMARTMAP operations in either role, and, for everything else that happens in
  the system, an arbitrary change of the heap and of the fields other than the list of regions.\<close>

inductive as_reach :: "u64 \<Rightarrow> aspace \<Rightarrow> kmem_state \<Rightarrow> bool" for m :: u64 where
  new: "region_list a = [] \<Longrightarrow> as_reach m a s"
| other: "as_reach m a s \<Longrightarrow> region_list a' = region_list a \<Longrightarrow> as_reach m a' s'"
| add: "as_reach m a s \<Longrightarrow> raw_aspace_add_region m s a start extent flags pagesz name = Some (st, a', s') \<Longrightarrow> as_reach m a' s'"
| del: "as_reach m a s \<Longrightarrow> raw_aspace_del_region s a start extent = Some (st, a', s') \<Longrightarrow> as_reach m a' s'"
| map: "as_reach m a s \<Longrightarrow> raw_aspace_map_pmem junk ps s a pmem start extent = Some (st, s') \<Longrightarrow> as_reach m a s'"
| unmap: "as_reach m a s \<Longrightarrow> raw_aspace_unmap_pmem s a start extent = Some (st, s') \<Longrightarrow> as_reach m a s'"
| smartmap_dst: "as_reach m dst s \<Longrightarrow> raw_aspace_smartmap m nm s src dst start extent = Some (st, src', dst', s') \<Longrightarrow>
    as_reach m dst' s'"
| smartmap_src: "as_reach m src s \<Longrightarrow> raw_aspace_smartmap m nm s src dst start extent = Some (st, src', dst', s') \<Longrightarrow>
    as_reach m src' s'"
| unsmartmap_dst: "as_reach m dst s \<Longrightarrow> raw_aspace_unsmartmap s src dst = Some (st, src', dst', s') \<Longrightarrow> as_reach m dst' s'"
| unsmartmap_src: "as_reach m src s \<Longrightarrow> raw_aspace_unsmartmap s src dst = Some (st, src', dst', s') \<Longrightarrow> as_reach m src' s'"

lemma set_smartmap_ok:
  "set_smartmap a start src = Some a' \<Longrightarrow> regions_ok m (region_list a) \<Longrightarrow> regions_ok m (region_list a')"
  by (auto simp: set_smartmap_def split: option.splits intro!: regions_ok_smartmap)

lemma smartmap_keeps_ok:
  assumes "raw_aspace_smartmap m nm s src dst start extent = Some (st, src', dst', s')"
  shows "regions_ok m (region_list dst) \<Longrightarrow> regions_ok m (region_list dst')" "region_list src' = region_list src"
proof -
  show "region_list src' = region_list src" using assms
    by (auto simp: raw_aspace_smartmap_def Let_def bind_eq_Some_conv split: if_splits)
  assume ok: "regions_ok m (region_list dst)"
  show "regions_ok m (region_list dst')" using assms ok
    by (auto simp: raw_aspace_smartmap_def Let_def bind_eq_Some_conv split: if_splits
        dest: set_smartmap_ok add_region_keeps_ok [OF ok] del_region_keeps_ok)
qed

lemma unsmartmap_keeps_ok:
  assumes "raw_aspace_unsmartmap s src dst = Some (st, src', dst', s')"
  shows "regions_ok m (region_list dst) \<Longrightarrow> regions_ok m (region_list dst')" "region_list src' = region_list src"
  using assms del_region_keeps_ok
  by (auto simp: raw_aspace_unsmartmap_def Let_def bind_eq_Some_conv split: if_splits option.splits)

lemma as_reach_regions_ok: "as_reach m a s \<Longrightarrow> regions_ok m (region_list a)"
proof (induction rule: as_reach.induct)
  case (new a s)
  then show ?case by (simp add: regions_ok_def)
qed (auto dest: add_region_keeps_ok del_region_keeps_ok smartmap_keeps_ok unsmartmap_keeps_ok)

text \<open>C21: Whatever sequence of operations an address space goes through, failed ones included, its region
  list stays sorted and its regions non-empty, aligned, of one page size the machine has and pairwise
  disjoint, so that looking an address up finds a region exactly when one contains the address, and finds
  the only one.\<close>

theorem aspace_regions_invariant:
  assumes "as_reach pagesz_mask a s"
  shows "regions_ok pagesz_mask (region_list a) \<and>
    (\<forall>v r. find_region a v = Some r \<longleftrightarrow> r \<in> set (region_list a) \<and> vr_start r \<le> v \<and> v < vr_end r)"
proof -
  have ok: "regions_ok pagesz_mask (region_list a)" by (rule as_reach_regions_ok [OF assms])
  moreover have "find_region a v = Some r \<longleftrightarrow> r \<in> set (region_list a) \<and> vr_start r \<le> v \<and> v < vr_end r" for v r
    using find_region_SomeD find_region_member [OF ok] unfolding in_region_def by blast
  ultimately show ?thesis by blast
qed

section \<open>Holes\<close>

text \<open>No region overlaps the \<^verbatim>\<open>extent\<close> bytes from \<^verbatim>\<open>x\<close> on.\<close>

definition hole_at :: "aspace \<Rightarrow> vaddr \<Rightarrow> u64 \<Rightarrow> bool" where
  "hole_at a x extent \<longleftrightarrow> (\<forall>r \<in> set (region_list a).
     unat x + unat extent \<le> unat (vr_start r) \<or> unat (vr_end r) \<le> unat x)"

text \<open>The region of the kernel, at the top of every address space.\<close>

definition has_kernel_region :: "aspace \<Rightarrow> bool" where
  "has_kernel_region a \<longleftrightarrow> (\<exists>k \<in> set (region_list a). vr_start k = PAGE_OFFSET \<and> vr_end k = ULONG_MAX)"

lemma ULONG_MAX_unat: "unat ULONG_MAX = 2 ^ 64 - 1"
  by (simp add: ULONG_MAX_def unsigned_minus_1_eq_mask mask_eq_exp_minus_1)

lemma overlap_sound:
  assumes "unat hole + unat extent < 2 ^ 64"
  shows "find_overlapping_region a hole (hole + extent) = None \<longleftrightarrow> hole_at a hole extent"
    "find_overlapping_region a hole (hole + extent) = Some r \<Longrightarrow>
      r \<in> set (region_list a) \<and> unat hole < unat (vr_end r) \<and> unat (vr_start r) < unat hole + unat extent"
proof -
  have u: "unat (hole + extent) = unat hole + unat extent" using assms by (rule unat64_add)
  show "find_overlapping_region a hole (hole + extent) = None \<longleftrightarrow> hole_at a hole extent"
    unfolding find_overlapping_region_def find_None_iff hole_at_def
    by (auto simp: word64_less_unat u not_less not_le)
  show "find_overlapping_region a hole (hole + extent) = Some r \<Longrightarrow>
      r \<in> set (region_list a) \<and> unat hole < unat (vr_end r) \<and> unat (vr_start r) < unat hole + unat extent"
    unfolding find_overlapping_region_def find_Some_iff by (auto simp: word64_less_unat u)
qed

lemma below_kernel:
  assumes "regions_ok m (region_list a)" "has_kernel_region a" "r \<in> set (region_list a)"
  shows "if vr_end r = ULONG_MAX then vr_start r = PAGE_OFFSET else unat (vr_end r) \<le> unat PAGE_OFFSET"
proof -
  obtain k where k: "k \<in> set (region_list a)" "vr_start k = PAGE_OFFSET" "vr_end k = ULONG_MAX"
    using assms(2) by (auto simp: has_kernel_region_def)
  have pos: "vr_start r < vr_end r" using assms(1,3) by (auto simp: regions_ok_def rgn_ok_def)
  show ?thesis
  proof (cases "unat (vr_end r) \<le> unat PAGE_OFFSET")
    case True
    then show ?thesis using ULONG_MAX_unat by (auto simp: PAGE_OFFSET_def)
  next
    case False
    let ?v = "if vr_start r \<le> PAGE_OFFSET then PAGE_OFFSET else vr_start r"
    have lt: "vr_start r < ULONG_MAX" 
      using pos unat64_less [of "vr_end r"] unfolding word64_less_unat ULONG_MAX_unat by linarith
    have "in_region r ?v" using False pos by (auto simp: in_region_def word64_cmp)
    moreover have "in_region k ?v" using k lt by (auto simp: in_region_def word64_cmp ULONG_MAX_unat PAGE_OFFSET_def)
    ultimately have "r = k" by (rule regions_disjoint [OF assms(1,3) k(1)])
    then show ?thesis using k by simp
  qed
qed

lemma find_hole_loop_correct:
  assumes ok: "regions_ok m (region_list a)" and ker: "has_kernel_region a" and k: "k < 47"
    and ext: "0 < unat extent" "2 ^ k + unat extent \<le> 0x7f0000000000"
    and hole: "2 ^ k dvd unat hole" "unat hole < unat PAGE_OFFSET + 2 ^ k"
  shows "\<exists>r. find_hole_loop a hole extent (2 ^ k) = Some r \<and>
    (case r of
       Inr x \<Rightarrow> unat hole \<le> unat x \<and> 2 ^ k dvd unat x \<and> hole_at a x extent \<and>
         (\<forall>y. unat hole \<le> unat y \<and> unat y < unat x \<and> 2 ^ k dvd unat y \<longrightarrow> \<not> hole_at a y extent)
     | Inl e \<Rightarrow> e = ENOENT \<and> (\<forall>y. unat hole \<le> unat y \<and> unat y + unat extent < 2 ^ 64 \<and> 2 ^ k dvd unat y \<longrightarrow>
         \<not> hole_at a y extent))"
  using hole
proof (induction "2 ^ 64 - unat hole" arbitrary: hole rule: less_induct)
  case less
  have po: "unat PAGE_OFFSET + 0x7f0000000000 = 2 ^ 64" by (simp add: PAGE_OFFSET_def)
  have nw: "unat hole + unat extent < 2 ^ 64" using less(3) ext po by linarith
  show ?case
  proof (cases "find_overlapping_region a hole (hole + extent)")
    case None
    then have "hole_at a hole extent" using overlap_sound(1) [OF nw, of a] by simp
    then show ?thesis using less(2) None
      by (subst find_hole_loop.simps) (intro exI [of _ "Inr hole"], auto)
  next
    case (Some r)
    note r = overlap_sound(2) [OF nw Some]
    have rm: "r \<in> set (region_list a)" using r by simp
    note bk = below_kernel [OF ok ker rm]
    show ?thesis
    proof (cases "vr_end r = ULONG_MAX")
      case True
      then have st: "vr_start r = PAGE_OFFSET" using bk by simp
      have "\<not> hole_at a y extent" if "unat hole \<le> unat y" "unat y + unat extent < 2 ^ 64" for y
      proof
        assume "hole_at a y extent"
        then have "unat y + unat extent \<le> unat PAGE_OFFSET \<or> 2 ^ 64 - 1 \<le> unat y"
          using rm st True by (auto simp: hole_at_def ULONG_MAX_unat)
        then show False using r that ext(1) st by auto
      qed
      then show ?thesis using True Some
        by (subst find_hole_loop.simps) (intro exI [of _ "Inl ENOENT"], simp)
    next
      case False
      let ?h = "round_up (vr_end r) (2 ^ k)"
      have e: "unat (vr_end r) \<le> unat PAGE_OFFSET" using bk False by simp
      have k64: "k < 64" using k by simp
      have fit: "unat (vr_end r) + (2 ^ k - 1) < 2 ^ 64" using e ext po by linarith
      note ru = round_up_aligned [OF k64 fit]
      have dec: "2 ^ 64 - unat ?h < 2 ^ 64 - unat hole" using r ru(2) unat64_less [of hole] by linarith
      have bound: "unat ?h < unat PAGE_OFFSET + 2 ^ k" using ru(3) e by linarith
      obtain res where res: "find_hole_loop a ?h extent (2 ^ k) = Some res"
        "case res of
           Inr x \<Rightarrow> unat ?h \<le> unat x \<and> 2 ^ k dvd unat x \<and> hole_at a x extent \<and>
             (\<forall>y. unat ?h \<le> unat y \<and> unat y < unat x \<and> 2 ^ k dvd unat y \<longrightarrow> \<not> hole_at a y extent)
         | Inl e \<Rightarrow> e = ENOENT \<and> (\<forall>y. unat ?h \<le> unat y \<and> unat y + unat extent < 2 ^ 64 \<and> 2 ^ k dvd unat y \<longrightarrow>
             \<not> hole_at a y extent)"
        using less(1) [OF dec ru(1) bound] by blast
      have skip: "\<not> hole_at a y extent" if "unat hole \<le> unat y" "2 ^ k dvd unat y" "\<not> unat ?h \<le> unat y" for y
      proof
        assume h: "hole_at a y extent"
        have "unat y < unat (vr_end r)" using round_up_least [OF k64 fit that(2)] that(3) by linarith
        then show False using h rm r that(1) by (auto simp: hole_at_def)
      qed
      have "find_hole_loop a hole extent (2 ^ k) = Some res"
        using Some False res(1) by (subst find_hole_loop.simps) simp
      moreover have "unat hole \<le> unat ?h" using dec by linarith
      ultimately show ?thesis using res(2) skip
        by (intro exI [of _ res]) (auto split: sum.splits intro: order_trans)
    qed
  qed
qed

text \<open>C23: In an address space with the kernel region, and for requests below 127 TB, the search for a hole
  ends. If it finds one, the hole is aligned, not below the hint, free of regions and the lowest such
  address; if it reports \<^verbatim>\<open>ENOENT\<close>, there is none.\<close>

theorem aspace_find_hole_correct:
  assumes "regions_ok pagesz_mask (region_list a)" "has_kernel_region a" "extent \<noteq> 0" "is_power_of_2 alignment"
    and "unat alignment + unat extent \<le> 0x7f0000000000" "start_hint \<le> PAGE_OFFSET"
  shows "\<exists>r. raw_aspace_find_hole a start_hint extent alignment = Some r \<and>
    (case r of
       Inr x \<Rightarrow> max 1 start_hint \<le> x \<and> unat alignment dvd unat x \<and> hole_at a x extent \<and>
         (\<forall>y. max 1 start_hint \<le> y \<and> y < x \<and> unat alignment dvd unat y \<longrightarrow> \<not> hole_at a y extent)
     | Inl e \<Rightarrow> e = ENOENT \<and>
         (\<forall>y. max 1 start_hint \<le> y \<and> unat y + unat extent < 2 ^ 64 \<and> unat alignment dvd unat y \<longrightarrow>
            \<not> hole_at a y extent))"
proof -
  obtain k where k: "k < 64" "alignment = 2 ^ k" using assms(4) is_power_of_2_iff by blast
  have ua: "unat alignment = 2 ^ k" using k by (simp add: unat64_pow2)
  have k47: "k < 47"
  proof (rule ccontr)
    assume "\<not> k < 47"
    then have "(2::nat) ^ 47 \<le> 2 ^ k" by (intro power_increasing) simp_all
    then show False using assms(5) ua by simp
  qed
  let ?h = "max 1 start_hint"
  have h: "unat ?h \<le> unat PAGE_OFFSET" using assms(6) by (auto simp: max_def word64_le_unat PAGE_OFFSET_def)
  have po: "unat PAGE_OFFSET + 0x7f0000000000 = 2 ^ 64" by (simp add: PAGE_OFFSET_def)
  have e: "0 < unat extent" using assms(3) by (simp add: unat_gt_0)
  have fit: "unat ?h + (2 ^ k - 1) < 2 ^ 64" using h po assms(5) ua e by linarith
  note ru = round_up_aligned [OF k(1) fit]
  let ?r = "round_up ?h alignment"
  have "unat ?r < unat PAGE_OFFSET + 2 ^ k" using ru(3) h k(2) by simp
  then obtain r where r: "find_hole_loop a ?r extent (2 ^ k) = Some r"
    "case r of
       Inr x \<Rightarrow> unat ?r \<le> unat x \<and> 2 ^ k dvd unat x \<and> hole_at a x extent \<and>
         (\<forall>y. unat ?r \<le> unat y \<and> unat y < unat x \<and> 2 ^ k dvd unat y \<longrightarrow> \<not> hole_at a y extent)
     | Inl e \<Rightarrow> e = ENOENT \<and> (\<forall>y. unat ?r \<le> unat y \<and> unat y + unat extent < 2 ^ 64 \<and> 2 ^ k dvd unat y \<longrightarrow>
         \<not> hole_at a y extent)"
    using find_hole_loop_correct [OF assms(1,2) k47 e, of ?r] assms(5) ua ru(1) k(2) by auto
  have run: "raw_aspace_find_hole a start_hint extent alignment = Some r"
  proof -
    have "?h = (if start_hint = 0 then 1 else start_hint)" by (auto simp: max_def word64_cmp)
    then show ?thesis using r(1) assms(3,4) k(2) by (simp add: raw_aspace_find_hole_def)
  qed
  have least: "unat ?r \<le> unat y" if "?h \<le> y" "2 ^ k dvd unat y" for y
    using round_up_least [OF k(1) fit that(2)] that(1) k(2) by (simp add: word64_le_unat)
  have le: "?h \<le> x" if "unat ?r \<le> unat x" for x using ru(2) k(2) that by (simp add: word64_le_unat)
  show ?thesis
  proof (cases r)
    case (Inl err)
    have "\<not> hole_at a y extent" if "?h \<le> y \<and> unat y + unat extent < 2 ^ 64 \<and> 2 ^ k dvd unat y" for y
      using r(2) Inl least [of y] that by simp
    moreover have "err = ENOENT" using r(2) Inl by simp
    ultimately show ?thesis
      by (intro exI [of _ r] conjI run) (simp only: Inl sum.case ua, intro conjI allI impI refl)
  next
    case (Inr x)
    then have x: "unat ?r \<le> unat x" "2 ^ k dvd unat x" "hole_at a x extent" using r(2) by simp_all
    have "\<not> hole_at a y extent" if "?h \<le> y \<and> y < x \<and> 2 ^ k dvd unat y" for y
      using r(2) Inr least [of y] that by (simp add: word64_less_unat)
    then show ?thesis using le [OF x(1)] x(2,3)
      by (intro exI [of _ r] conjI run) (simp only: Inr sum.case ua, intro conjI allI impI TrueI)
  qed
qed

text \<open>Outside these bounds the search can go wrong: \<^verbatim>\<open>hole + extent\<close> wraps around, so that no overlap is
  seen, and rounding up wraps around, so that the search starts over and never ends.\<close>

definition some_aspace :: "region list \<Rightarrow> aspace" where
  "some_aspace rs = \<lparr>as_ptr = 0, refcnt = 0, exiting = False, reaped = False, as_id = 2, as_rank = 0, as_name = [],
     as_parent = 0, child_list = [], region_list = rs, task_list = [], next_task_id = 2, cpu_mask = (\<lambda>_. 0),
     next_cpu_id = 0, hio_syscall_mask = (\<lambda>_. 0), exit_status = 0, heap_start = 0, heap_end = 0, brk = 0,
     mmap_brk = 0, arch_pgd = 0\<rparr>"

definition some_region :: "vaddr \<Rightarrow> vaddr \<Rightarrow> u64 \<Rightarrow> region" where
  "some_region start finish flags = \<lparr>vr_ptr = 0, vr_start = start, vr_end = finish, vr_flags = flags,
     vr_pagesz = VM_PAGE_4KB, vr_smartmap = 0, vr_name = []\<rparr>"

definition kernel_region :: region where
  "kernel_region = some_region PAGE_OFFSET ULONG_MAX VM_KERNEL"

lemma find_hole_wraps:
  "raw_aspace_find_hole (some_aspace [kernel_region]) 0x1000 0xfffffffffffff000 0x1000 = Some (Inr 0x1000) \<and>
   \<not> hole_at (some_aspace [kernel_region]) 0x1000 0xfffffffffffff000"
  by (simp add: raw_aspace_find_hole_def find_hole_loop.simps find_overlapping_region_def some_aspace_def
      some_region_def kernel_region_def hole_at_def round_up_def is_power_of_2_def PAGE_OFFSET_def ULONG_MAX_unat)

definition looping_aspace :: aspace where
  "looping_aspace = some_aspace [some_region 0x1000 0x2000 VM_USER,
     some_region 0x8000000000000000 0x8000000000001000 VM_USER, kernel_region]"

lemma looping_step:
  "find_overlapping_region looping_aspace 0 (0 + 0x2000) = Some (some_region 0x1000 0x2000 VM_USER)"
  "find_overlapping_region looping_aspace 0x8000000000000000 (0x8000000000000000 + 0x2000) =
     Some (some_region 0x8000000000000000 0x8000000000001000 VM_USER)"
  "round_up 0x2000 0x8000000000000000 = 0x8000000000000000" "round_up 0x8000000000001000 0x8000000000000000 = 0"
  "round_up 1 0x8000000000000000 = 0x8000000000000000" "is_power_of_2 0x8000000000000000"
  by (simp_all add: find_overlapping_region_def looping_aspace_def some_aspace_def some_region_def round_up_def
      is_power_of_2_def)

lemma find_hole_never_ends: "raw_aspace_find_hole looping_aspace 0 0x2000 0x8000000000000000 = None"
proof -
  let ?P = "\<lambda>a hole (ext :: u64) (al :: u64) (_ :: errno + vaddr). a = looping_aspace \<longrightarrow> ext = 0x2000 \<longrightarrow> al = 0x8000000000000000 \<longrightarrow>
    hole \<noteq> 0 \<and> hole \<noteq> 0x8000000000000000"
  have nm: "(0x2000 :: u64) \<noteq> ULONG_MAX" "(0x8000000000001000 :: u64) \<noteq> ULONG_MAX" by (simp_all add: word64_eq_iff_unat ULONG_MAX_unat)
  have "?P looping_aspace hole 0x2000 0x8000000000000000 r"
    if "find_hole_loop looping_aspace hole 0x2000 0x8000000000000000 = Some r" for hole r
  proof (rule find_hole_loop.raw_induct [of ?P, OF _ that], intro impI)
    fix f a hole ext al res
    assume IH: "\<And>a hole ext al y. f a hole ext al = Some y \<Longrightarrow> ?P a hole ext al y"
      and run: "(case find_overlapping_region a hole (hole + ext) of None \<Rightarrow> Some (Inr hole)
        | Some rgn \<Rightarrow> if vr_end rgn = ULONG_MAX then Some (Inl ENOENT)
            else f a (round_up (vr_end rgn) al) ext al) = Some res"
      and eq: "a = looping_aspace" "ext = 0x2000" "al = 0x8000000000000000"
    have "hole \<noteq> 0"
    proof
      assume "hole = 0"
      with run looping_step(1) nm(1) have "f a 0x8000000000000000 ext al = Some res"
        by (simp add: eq some_region_def looping_step(3))
      from IH [OF this] eq show False by simp
    qed
    moreover have "hole \<noteq> 0x8000000000000000"
    proof
      assume "hole = 0x8000000000000000"
      with run looping_step(2) nm(2) have "f a 0 ext al = Some res"
        by (simp add: eq some_region_def looping_step(4))
      from IH [OF this] eq show False by simp
    qed
    ultimately show "hole \<noteq> 0 \<and> hole \<noteq> 0x8000000000000000" by simp
  qed
  then have "find_hole_loop looping_aspace 0x8000000000000000 0x2000 0x8000000000000000 = None"
    by (cases "find_hole_loop looping_aspace 0x8000000000000000 0x2000 0x8000000000000000") auto
  then show ?thesis by (simp add: raw_aspace_find_hole_def looping_step)
qed

section \<open>Mapping and unmapping ranges\<close>

lemma page_size_pow:
  assumes "sz \<in> page_sizes" obtains k where "sz = 2 ^ k" "k \<in> {12, 21, 30}" "unat sz = 2 ^ k"
  using assms by (auto simp: page_sizes_def VM_PAGE_4KB_def VM_PAGE_2MB_def VM_PAGE_1GB_def
      intro: that [of 12] that [of 21] that [of 30])

lemma take_bit_48: "unat (v :: u64) < 2 ^ 48 \<Longrightarrow> take_bit 48 v = v"
  by (simp add: word64_eq_iff_unat unsigned_take_bit_eq take_bit_nat_eq_self)

lemma same_page_range:
  assumes "sz \<in> page_sizes" "unat sz dvd unat start" "unat v < 2 ^ 48" "unat start < 2 ^ 48"
  shows "same_page sz v start \<longleftrightarrow> unat start \<le> unat v \<and> unat v < unat start + unat sz"
    "same_page sz v start \<Longrightarrow> v AND (sz - 1) = v - start"
proof -
  obtain k where k: "sz = 2 ^ k" "k \<in> {12, 21, 30}" "unat sz = 2 ^ k" by (rule page_size_pow [OF assms(1)])
  have k64: "k < 64" using k(2) by auto
  have m: "sz - 1 = mask k" using k(1) by (simp add: mask_eq_exp_minus_1)
  have rd: "unat (x AND NOT (mask k)) = unat x div 2 ^ k * 2 ^ k" for x :: u64
    by (simp only: and_not_mask unat_push_drop)
  have s: "unat start div 2 ^ k * 2 ^ k = unat start" using assms(2) k(3) by simp
  have "same_page sz v start \<longleftrightarrow> unat v div 2 ^ k * 2 ^ k = unat start"
    unfolding same_page_def m take_bit_48 [OF assms(3)] take_bit_48 [OF assms(4)] word64_eq_iff_unat rd s ..
  also have "\<dots> \<longleftrightarrow> unat start \<le> unat v \<and> unat v < unat start + 2 ^ k"
  proof -
    obtain q where q: "unat start = q * 2 ^ k" using assms(2) k(3) by (metis dvdE mult.commute)
    have "unat v mod 2 ^ k < 2 ^ k" by simp
    then have "unat v div 2 ^ k * 2 ^ k \<le> unat v" "unat v < unat v div 2 ^ k * 2 ^ k + 2 ^ k"
      using div_mult_mod_eq [of "unat v" "2 ^ k"] by linarith+
    then have "unat v div 2 ^ k = q \<longleftrightarrow> q * 2 ^ k \<le> unat v \<and> unat v < q * 2 ^ k + 2 ^ k"
      using div_nat_eqI [of "2 ^ k" q "unat v"] by (auto simp: mult.commute)
    then show ?thesis unfolding q by simp
  qed
  finally show iff: "same_page sz v start \<longleftrightarrow> unat start \<le> unat v \<and> unat v < unat start + unat sz" using k(3) by simp
  assume sp: "same_page sz v start"
  have "unat (v AND mask k) = unat v mod 2 ^ k" 
    by (simp only: take_bit_eq_mask [symmetric] unsigned_take_bit_eq) (simp only: take_bit_eq_mod)
  also have "\<dots> = unat v - unat start"
    using \<open>same_page sz v start \<longleftrightarrow> unat v div 2 ^ k * 2 ^ k = unat start\<close> sp minus_div_mult_eq_mod [of "unat v" "2 ^ k"] by simp
  also have "\<dots> = unat (v - start)" using iff sp by (simp add: unat64_sub word64_le_unat)
  finally show "v AND (sz - 1) = v - start" unfolding m by (simp add: word64_eq_iff_unat)
qed

definition USER_END :: nat where "USER_END = 258 * 2 ^ 39"

lemma user_index: "unat v < USER_END \<Longrightarrow> pgd_index v \<in> user_pges"
proof -
  assume v: "unat v < USER_END"
  have "(0x1FF :: u64) = mask 9" by (simp add: mask_eq_exp_minus_1)
  then have "pgd_index v = take_bit 9 (unat v div 2 ^ 39)"
    by (simp only: pgd_index_def take_bit_eq_mask [symmetric] unsigned_take_bit_eq unat_drop_bit_eq) (simp add: drop_bit_eq_div)
  also have "\<dots> \<le> unat v div 2 ^ 39" by (simp add: take_bit_nat_less_eq_self)
  also have "\<dots> < 258" using v by (simp add: USER_END_def less_mult_imp_div_less)
  finally show ?thesis by simp
qed

text \<open>The addresses of \<^verbatim>\<open>n\<close> pages of a size from \<^verbatim>\<open>start\<close> on.\<close>

definition in_pages :: "vaddr \<Rightarrow> nat \<Rightarrow> u64 \<Rightarrow> vaddr \<Rightarrow> bool" where
  "in_pages start n sz v \<longleftrightarrow> unat start \<le> unat v \<and> unat v < unat start + n * unat sz"

text \<open>A range of \<^verbatim>\<open>n\<close> pages of user memory in a region that can be mapped or unmapped page by page.\<close>

definition page_range :: "kmem_state \<Rightarrow> u64 \<Rightarrow> region \<Rightarrow> vaddr \<Rightarrow> nat \<Rightarrow> bool" where
  "page_range s pgd rgn start n \<longleftrightarrow> vr_pagesz rgn \<in> page_sizes \<and> unat (vr_pagesz rgn) dvd unat start \<and>
     unat start + n * unat (vr_pagesz rgn) \<le> min USER_END (unat (vr_end rgn)) \<and>
     (\<forall>v. in_pages start n (vr_pagesz rgn) v \<longrightarrow> page_slot s pgd v (vr_pagesz rgn))"

lemma page_range_step:
  assumes "page_range s pgd rgn start (Suc n)"
  shows "start < vr_end rgn" "pgd_index start \<in> user_pges" "page_slot s pgd start (vr_pagesz rgn)" "unat start < 2 ^ 48"
    "unat (start + vr_pagesz rgn) = unat start + unat (vr_pagesz rgn)"
    "(\<And>v. pgd_index v \<in> user_pges \<and> page_slot s pgd v (vr_pagesz rgn) \<longrightarrow> page_slot s' pgd v (vr_pagesz rgn)) \<Longrightarrow>
       page_range s' pgd rgn (start + vr_pagesz rgn) n"
    "in_pages start (Suc n) (vr_pagesz rgn) v \<longleftrightarrow>
       in_pages start 1 (vr_pagesz rgn) v \<or> in_pages (start + vr_pagesz rgn) n (vr_pagesz rgn) v"
proof -
  let ?sz = "vr_pagesz rgn"
  have h: "?sz \<in> page_sizes" "unat ?sz dvd unat start" "unat start + Suc n * unat ?sz \<le> USER_END"
    "unat start + Suc n * unat ?sz \<le> unat (vr_end rgn)"
    "\<And>v. in_pages start (Suc n) ?sz v \<Longrightarrow> page_slot s pgd v ?sz"
    using assms by (auto simp: page_range_def)
  obtain k where k: "unat ?sz = 2 ^ k" using h(1) by (rule page_size_pow)
  have pos: "0 < unat ?sz" by (simp add: k)
  have ue: "USER_END < 2 ^ 48" by (simp add: USER_END_def)
  have lt: "unat start < USER_END" "unat start < unat (vr_end rgn)" using h(3,4) pos by (auto simp: add_mult_distrib)
  show "start < vr_end rgn" using lt(2) by (simp add: word64_less_unat)
  show "pgd_index start \<in> user_pges" by (rule user_index [OF lt(1)])
  show "page_slot s pgd start ?sz" by (rule h(5)) (use pos in \<open>simp add: in_pages_def\<close>)
  show "unat start < 2 ^ 48" using lt(1) ue by simp
  show u: "unat (start + ?sz) = unat start + unat ?sz"
    by (rule unat64_add) (use h(3) ue in \<open>simp add: add_mult_distrib\<close>)
  show split: "in_pages start (Suc n) ?sz v \<longleftrightarrow> in_pages start 1 ?sz v \<or> in_pages (start + ?sz) n ?sz v" for v
    by (auto simp: in_pages_def u)
  assume keep: "\<And>v. pgd_index v \<in> user_pges \<and> page_slot s pgd v ?sz \<longrightarrow> page_slot s' pgd v ?sz"
  have "page_slot s' pgd v ?sz" if "in_pages (start + ?sz) n ?sz v" for v
  proof -
    have "in_pages start (Suc n) ?sz v" using split that by simp
    moreover from this have "unat v < USER_END" using h(3) by (simp add: in_pages_def)
    ultimately show ?thesis using keep [of v] h(5) user_index by blast
  qed
  then show "page_range s' pgd rgn (start + ?sz) n" using h(1-4) unfolding page_range_def u by simp
qed

text \<open>What a run over \<^verbatim>\<open>k\<close> pages leaves: well-formed tables, everybody else's pages, and of this address
  space every translation outside the pages.\<close>

definition pages_changed ::
    "block set \<Rightarrow> block set \<Rightarrow> u64 set \<Rightarrow> u64 \<Rightarrow> kmem_state \<Rightarrow> kmem_state \<Rightarrow> vaddr \<Rightarrow> nat \<Rightarrow> u64 \<Rightarrow>
     (vaddr \<Rightarrow> errno + paddr) \<Rightarrow> bool" where
  "pages_changed K P F pgd s s' start k sz g \<longleftrightarrow> page_tables K P user_pges F pgd s' \<and>
     (\<forall>v. unat v < USER_END \<longrightarrow> arch_aspace_virt_to_phys s' pgd v =
        (if in_pages start k sz v then g v else arch_aspace_virt_to_phys s pgd v)) \<and>
     (\<forall>v. pgd_index v \<in> user_pges \<and> page_slot s pgd v sz \<longrightarrow> page_slot s' pgd v sz) \<and>
     (\<forall>f \<in> F. \<forall>j < 512. pt_read s' f j = pt_read s f j) \<and>
     (\<forall>j < 512. j \<notin> user_pges \<longrightarrow> pt_read s' pgd j = pt_read s pgd j)"

lemma pages_changed_refl: "page_tables K P user_pges F pgd s \<Longrightarrow> pages_changed K P F pgd s s start 0 sz g"
  by (auto simp: pages_changed_def in_pages_def)

lemma pages_changed_step:
  assumes "pages_changed K P F pgd s s1 start 1 sz g" "pages_changed K P F pgd s1 s' (start + sz) n sz g"
    and "\<And>v. in_pages start (Suc n) sz v \<longleftrightarrow> in_pages start 1 sz v \<or> in_pages (start + sz) n sz v"
  shows "pages_changed K P F pgd s s' start (Suc n) sz g"
  unfolding pages_changed_def
proof (intro conjI allI ballI impI)
  note a = assms(1,2) [unfolded pages_changed_def]
  show "page_tables K P user_pges F pgd s'" using a(2) by blast
  show "arch_aspace_virt_to_phys s' pgd v =
      (if in_pages start (Suc n) sz v then g v else arch_aspace_virt_to_phys s pgd v)" if "unat v < USER_END" for v
    using a that assms(3) [of v] by simp
  show "page_slot s' pgd v sz" if "pgd_index v \<in> user_pges \<and> page_slot s pgd v sz" for v using a that by blast
  show "pt_read s' f j = pt_read s f j" if "f \<in> F" "j < 512" for f j using a that by simp
  show "pt_read s' pgd j = pt_read s pgd j" if "j < 512" "j \<notin> user_pges" for j using a that by simp
qed

lemma map_first_page:
  assumes "page_tables K P user_pges F pgd s" "page_range s pgd rgn start (Suc n)"
    and "unat (vr_pagesz rgn) dvd unat pmem" "pmem < 2 ^ 52"
  shows "\<exists>st s'. arch_aspace_map_page s pgd start pmem flags (vr_pagesz rgn) = Some (st, s') \<and>
    (st = OK \<or> st = Err ENOMEM) \<and>
    pages_changed K P F pgd s s' start (if st = OK then 1 else 0) (vr_pagesz rgn) (\<lambda>v. Inr (pmem + (v - start)))"
proof -
  let ?sz = "vr_pagesz rgn"
  note p = page_range_step [OF assms(2)]
  have sz: "?sz \<in> page_sizes" "unat ?sz dvd unat start" using assms(2) by (auto simp: page_range_def)
  obtain st s' where m: "arch_aspace_map_page s pgd start pmem flags ?sz = Some (st, s')" "st = OK \<or> st = Err ENOMEM"
    "page_tables K P user_pges F pgd s'"
    "\<forall>v. pgd_index v \<in> user_pges \<longrightarrow> arch_aspace_virt_to_phys s' pgd v =
       (if st = OK \<and> same_page ?sz v start then Inr (pmem + (v AND (?sz - 1))) else arch_aspace_virt_to_phys s pgd v)"
    "\<forall>v. pgd_index v \<in> user_pges \<and> page_slot s pgd v ?sz \<longrightarrow> page_slot s' pgd v ?sz"
    "\<forall>f \<in> F. \<forall>j < 512. pt_read s' f j = pt_read s f j"
    "\<forall>j < 512. j \<notin> user_pges \<longrightarrow> pt_read s' pgd j = pt_read s pgd j"
    using map_page_spec [OF assms(1) p(2) sz(1) assms(3,4) p(3), of flags] by blast
  have "arch_aspace_virt_to_phys s' pgd v =
      (if in_pages start (if st = OK then 1 else 0) ?sz v then Inr (pmem + (v - start)) else arch_aspace_virt_to_phys s pgd v)"
    if v: "unat v < USER_END" for v
  proof -
    have "unat v < 2 ^ 48" using v by (simp add: USER_END_def)
    note sp = same_page_range [OF sz this p(4)]
    show ?thesis using m(4) [rule_format, OF user_index [OF v]] sp by (auto simp: in_pages_def)
  qed
  then have "pages_changed K P F pgd s s' start (if st = OK then 1 else 0) ?sz (\<lambda>v. Inr (pmem + (v - start)))"
    using m(3,5-7) by (simp add: pages_changed_def)
  with m(1,2) show ?thesis by blast
qed

lemma unmap_first_page:
  assumes "page_tables K P user_pges F pgd s" "page_range s pgd rgn start (Suc n)"
  shows "\<exists>s'. arch_aspace_unmap_page s pgd start (vr_pagesz rgn) = Some s' \<and>
    pages_changed K P F pgd s s' start 1 (vr_pagesz rgn) (\<lambda>v. Inl ENOENT)"
proof -
  let ?sz = "vr_pagesz rgn"
  note p = page_range_step [OF assms(2)]
  have sz: "?sz \<in> page_sizes" "unat ?sz dvd unat start" using assms(2) by (auto simp: page_range_def)
  obtain s' where m: "arch_aspace_unmap_page s pgd start ?sz = Some s'" "page_tables K P user_pges F pgd s'"
    "\<forall>v. pgd_index v \<in> user_pges \<longrightarrow> arch_aspace_virt_to_phys s' pgd v =
       (if same_page ?sz v start then Inl ENOENT else arch_aspace_virt_to_phys s pgd v)"
    "\<forall>v sz. pgd_index v \<in> user_pges \<and> page_slot s pgd v sz \<longrightarrow> page_slot s' pgd v sz"
    "\<forall>f \<in> F. \<forall>j < 512. pt_read s' f j = pt_read s f j"
    "\<forall>j < 512. j \<notin> user_pges \<longrightarrow> pt_read s' pgd j = pt_read s pgd j"
    using unmap_page_spec [OF assms(1) p(2) sz(1) p(3)] by blast
  have "arch_aspace_virt_to_phys s' pgd v =
      (if in_pages start 1 ?sz v then Inl ENOENT else arch_aspace_virt_to_phys s pgd v)" if v: "unat v < USER_END" for v
  proof -
    have "unat v < 2 ^ 48" using v by (simp add: USER_END_def)
    note sp = same_page_range [OF sz this p(4)]
    show ?thesis using m(3) [rule_format, OF user_index [OF v]] sp by (auto simp: in_pages_def)
  qed
  then have "pages_changed K P F pgd s s' start 1 ?sz (\<lambda>v. Inl ENOENT)"
    using m(2,4-6) by (simp add: pages_changed_def)
  with m(1) show ?thesis by blast
qed

lemma unat_pages: "n * unat sz < 2 ^ 64 \<Longrightarrow> unat (of_nat n * sz :: u64) = n * unat sz"
proof -
  assume h: "n * unat sz < 2 ^ 64"
  have "unat (of_nat (n * unat sz) :: u64) = n * unat sz" by (rule unat64_of_nat [OF h])
  then show ?thesis by simp
qed

lemma range_extent:
  assumes "page_range s pgd rgn start (Suc n)"
  shows "of_nat (Suc n) * vr_pagesz rgn \<noteq> 0" "of_nat (Suc n) * vr_pagesz rgn - vr_pagesz rgn = of_nat n * vr_pagesz rgn"
proof -
  let ?sz = "vr_pagesz rgn"
  have sz: "?sz \<in> page_sizes" "Suc n * unat ?sz \<le> USER_END" using assms by (auto simp: page_range_def)
  obtain k where k: "unat ?sz = 2 ^ k" using sz(1) by (rule page_size_pow)
  have "Suc n * unat ?sz < 2 ^ 64" using sz(2) by (rule le_less_trans) (simp add: USER_END_def)
  then have "unat (of_nat (Suc n) * ?sz) = Suc n * unat ?sz" "0 < unat ?sz"
    using k by (simp_all only: unat_pages zero_less_power zero_less_numeral)
  then show "of_nat (Suc n) * ?sz \<noteq> 0" by (metis less_numeral_extra(3) mult_is_0 nat.simps(3) unat_eq_zero)
  show "of_nat (Suc n) * ?sz - ?sz = of_nat n * ?sz" by (simp add: algebra_simps)
qed

lemma map_pages_correct:
  assumes "page_tables K P user_pges F pgd s" "page_range s pgd rgn start n"
    and "unat (vr_pagesz rgn) dvd unat pmem" "unat pmem + n * unat (vr_pagesz rgn) \<le> 2 ^ 52"
  shows "\<exists>st s' k. map_pages s pgd rgn pmem start (of_nat n * vr_pagesz rgn) =
      Some (st, s', pmem + of_nat k * vr_pagesz rgn, start + of_nat k * vr_pagesz rgn, of_nat (n - k) * vr_pagesz rgn) \<and>
    (st = OK \<and> k = n \<or> st = Err ENOMEM \<and> k < n) \<and>
    pages_changed K P F pgd s s' start k (vr_pagesz rgn) (\<lambda>v. Inr (pmem + (v - start)))"
  using assms
proof (induction n arbitrary: s start pmem)
  case 0
  then show ?case
    by (subst map_pages.simps) (intro exI [of _ OK] exI [of _ s] exI [of _ 0], simp add: pages_changed_refl)
next
  case (Suc n)
  let ?sz = "vr_pagesz rgn"
  note p = page_range_step [OF Suc(3)] and e = range_extent [OF Suc(3)]
  obtain j where j: "unat ?sz = 2 ^ j" using Suc(3) by (auto simp: page_range_def intro: page_size_pow)
  have "0 < unat ?sz" by (simp add: j)
  moreover have "unat pmem + unat ?sz + n * unat ?sz \<le> 2 ^ 52" using Suc(5) by simp
  ultimately have pm: "unat pmem < 2 ^ 52" "unat pmem + unat ?sz + n * unat ?sz \<le> 2 ^ 52" by linarith+
  then have "pmem < 2 ^ 52" by (simp add: word64_less_unat)
  from map_first_page [OF Suc(2,3,4) this, of "vr_flags rgn"] obtain st s1 where
    m: "arch_aspace_map_page s pgd start pmem (vr_flags rgn) ?sz = Some (st, s1)" "st = OK \<or> st = Err ENOMEM"
      "pages_changed K P F pgd s s1 start (if st = OK then 1 else 0) ?sz (\<lambda>v. Inr (pmem + (v - start)))" by blast
  show ?case
  proof (cases "st = OK")
    case False
    then have "map_pages s pgd rgn pmem start (of_nat (Suc n) * ?sz) = Some (st, s1, pmem, start, of_nat (Suc n) * ?sz)"
      using p(1) e(1) m(1) by (subst map_pages.simps) simp
    then show ?thesis using False m(2,3) by (intro exI [of _ st] exI [of _ s1] exI [of _ 0]) simp
  next
    case True
    have u: "unat (pmem + ?sz) = unat pmem + unat ?sz" by (rule unat64_add) (use pm in simp)
    have g: "(\<lambda>v. Inr (pmem + ?sz + (v - (start + ?sz)))) = (\<lambda>v. Inr (pmem + (v - start)) :: errno + paddr)" by simp
    have pt: "page_tables K P user_pges F pgd s1" and sl: "page_range s1 pgd rgn (start + ?sz) n"
      using m(3) p(6) by (simp_all add: pages_changed_def)
    obtain st' s' k where IH: "map_pages s1 pgd rgn (pmem + ?sz) (start + ?sz) (of_nat n * ?sz) =
        Some (st', s', pmem + ?sz + of_nat k * ?sz, start + ?sz + of_nat k * ?sz, of_nat (n - k) * ?sz)"
      "st' = OK \<and> k = n \<or> st' = Err ENOMEM \<and> k < n"
      "pages_changed K P F pgd s1 s' (start + ?sz) k ?sz (\<lambda>v. Inr (pmem + (v - start)))"
      using Suc(1) [OF pt sl, of "pmem + ?sz"] Suc(4) pm(2) unfolding u g by auto
    have "map_pages s pgd rgn pmem start (of_nat (Suc n) * ?sz) =
        map_pages s1 pgd rgn (pmem + ?sz) (start + ?sz) (of_nat n * ?sz)"
      using p(1) e m(1) True by (subst map_pages.simps) simp
    then have run: "map_pages s pgd rgn pmem start (of_nat (Suc n) * ?sz) =
        Some (st', s', pmem + of_nat (Suc k) * ?sz, start + of_nat (Suc k) * ?sz, of_nat (Suc n - Suc k) * ?sz)"
      using IH(1) by (simp add: algebra_simps)
    have "in_pages start (Suc k) ?sz v \<longleftrightarrow> in_pages start 1 ?sz v \<or> in_pages (start + ?sz) k ?sz v" for v
      by (auto simp: in_pages_def p(5))
    from pages_changed_step [OF _ IH(3) this] m(3) True
    have "pages_changed K P F pgd s s' start (Suc k) ?sz (\<lambda>v. Inr (pmem + (v - start)))" by simp
    with run IH(2) show ?thesis by (intro exI [of _ st'] exI [of _ s'] exI [of _ "Suc k"]) auto
  qed
qed

lemma unmap_pages_correct:
  assumes "page_tables K P user_pges F pgd s" "page_range s pgd rgn start n"
  shows "\<exists>s'. unmap_pages s pgd rgn start (of_nat n * vr_pagesz rgn) = Some (s', start + of_nat n * vr_pagesz rgn, 0) \<and>
    pages_changed K P F pgd s s' start n (vr_pagesz rgn) (\<lambda>v. Inl ENOENT)"
  using assms
proof (induction n arbitrary: s start)
  case 0
  then show ?case by (subst unmap_pages.simps) (simp add: pages_changed_refl)
next
  case (Suc n)
  let ?sz = "vr_pagesz rgn"
  note p = page_range_step [OF Suc(3)] and e = range_extent [OF Suc(3)]
  obtain s1 where m: "arch_aspace_unmap_page s pgd start ?sz = Some s1"
    "pages_changed K P F pgd s s1 start 1 ?sz (\<lambda>v. Inl ENOENT)" using unmap_first_page [OF Suc(2,3)] by blast
  have pt: "page_tables K P user_pges F pgd s1" and sl: "page_range s1 pgd rgn (start + ?sz) n"
    using m(2) p(6) by (simp_all add: pages_changed_def)
  obtain s' where IH: "unmap_pages s1 pgd rgn (start + ?sz) (of_nat n * ?sz) = Some (s', start + ?sz + of_nat n * ?sz, 0)"
    "pages_changed K P F pgd s1 s' (start + ?sz) n ?sz (\<lambda>v. Inl ENOENT)" using Suc(1) [OF pt sl] by blast
  have "unmap_pages s pgd rgn start (of_nat (Suc n) * ?sz) = Some (s', start + of_nat (Suc n) * ?sz, 0)"
    using p(1) e m(1) IH(1) by (subst unmap_pages.simps) (simp add: algebra_simps)
  with pages_changed_step [OF m(2) IH(2) p(7)] show ?case by blast
qed

lemma page_aligned:
  assumes "sz \<in> page_sizes" shows "x AND (sz - 1) = 0 \<longleftrightarrow> unat sz dvd unat x"
proof -
  obtain k where k: "sz = 2 ^ k" "k \<in> {12, 21, 30}" "unat sz = 2 ^ k" by (rule page_size_pow [OF assms])
  have "sz - 1 = mask k" using k(1) by (simp add: mask_eq_exp_minus_1)
  then have "unat (x AND (sz - 1)) = unat x mod 2 ^ k"
    by (simp only: take_bit_eq_mask [symmetric] unsigned_take_bit_eq) (simp only: take_bit_eq_mod)
  then show ?thesis unfolding word64_eq_iff_unat k(3) dvd_eq_mod_eq_0 by simp
qed

lemma range_aligned:
  assumes "page_range s pgd rgn start n"
  shows "start AND (vr_pagesz rgn - 1) = 0" "of_nat n * vr_pagesz rgn AND (vr_pagesz rgn - 1) = 0"
proof -
  have h: "vr_pagesz rgn \<in> page_sizes" "unat (vr_pagesz rgn) dvd unat start" "n * unat (vr_pagesz rgn) \<le> USER_END"
    using assms by (auto simp: page_range_def)
  then show "start AND (vr_pagesz rgn - 1) = 0" by (simp add: page_aligned)
  have "unat (of_nat n * vr_pagesz rgn) = n * unat (vr_pagesz rgn)"
    using h(3) by (intro unat_pages) (simp add: USER_END_def)
  then show "of_nat n * vr_pagesz rgn AND (vr_pagesz rgn - 1) = 0" using h(1) by (simp add: page_aligned)
qed

lemma page_range_kept:
  assumes "page_range s pgd rgn start n" "pages_changed K P F pgd s s' start k (vr_pagesz rgn) g"
  shows "page_range s' pgd rgn start n"
proof -
  have "page_slot s' pgd v (vr_pagesz rgn)" if "in_pages start n (vr_pagesz rgn) v" for v
  proof -
    have "unat v < USER_END" using that assms(1) by (auto simp: page_range_def in_pages_def)
    then show ?thesis using assms that user_index by (auto simp: page_range_def pages_changed_def)
  qed
  then show ?thesis using assms(1) by (simp add: page_range_def)
qed

lemma map_pmem_region:
  assumes "page_tables K P user_pges F (arch_pgd a) s" "find_region a start = Some rgn"
    and "vr_flags rgn AND VM_KERNEL = 0" "vr_flags rgn AND VM_SMARTMAP = 0" "page_range s (arch_pgd a) rgn start n"
    and "unat (vr_pagesz rgn) dvd unat pmem" "unat pmem + n * unat (vr_pagesz rgn) \<le> 2 ^ 52"
  shows "\<exists>st s' k. map_pmem_loop s a pmem start (of_nat n * vr_pagesz rgn) = Some (st, s') \<and>
    (st = OK \<and> k = n \<or> st = Err ENOMEM \<and> k < n) \<and>
    pages_changed K P F (arch_pgd a) s s' start k (vr_pagesz rgn) (\<lambda>v. Inr (pmem + (v - start)))"
proof (cases n)
  case 0
  then show ?thesis using assms(1)
    by (subst map_pmem_loop.simps) (intro exI [of _ OK] exI [of _ s] exI [of _ 0], simp add: pages_changed_refl)
next
  case (Suc m)
  let ?sz = "vr_pagesz rgn"
  have ne: "of_nat n * ?sz \<noteq> 0" using range_extent(1) assms(5) unfolding Suc by blast
  have al: "start AND (?sz - 1) = 0" "pmem AND (?sz - 1) = 0"
    using range_aligned(1) [OF assms(5)] page_aligned assms(5,6) by (auto simp: page_range_def)
  obtain st s' k where m: "map_pages s (arch_pgd a) rgn pmem start (of_nat n * ?sz) =
      Some (st, s', pmem + of_nat k * ?sz, start + of_nat k * ?sz, of_nat (n - k) * ?sz)"
    "st = OK \<and> k = n \<or> st = Err ENOMEM \<and> k < n"
    "pages_changed K P F (arch_pgd a) s s' start k ?sz (\<lambda>v. Inr (pmem + (v - start)))"
    using map_pages_correct [OF assms(1,5,6,7)] by blast
  have "map_pmem_loop s' a p v 0 = Some (OK, s')" for p v by (subst map_pmem_loop.simps) simp
  then have "map_pmem_loop s a pmem start (of_nat n * ?sz) = Some (st, s')"
    using assms(2-4) ne al m(1,2) by (subst map_pmem_loop.simps) auto
  with m(2,3) show ?thesis by blast
qed

lemma unmap_pmem_region:
  assumes "page_tables K P user_pges F (arch_pgd a) s" "find_region a start = Some rgn"
    and "vr_flags rgn AND VM_KERNEL = 0" "vr_flags rgn AND VM_SMARTMAP = 0" "page_range s (arch_pgd a) rgn start n"
  shows "\<exists>s'. raw_aspace_unmap_pmem s a start (of_nat n * vr_pagesz rgn) = Some (OK, s') \<and>
    pages_changed K P F (arch_pgd a) s s' start n (vr_pagesz rgn) (\<lambda>v. Inl ENOENT)"
proof (cases n)
  case 0
  then show ?thesis using assms(1) by (subst raw_aspace_unmap_pmem.simps) (simp add: pages_changed_refl)
next
  case (Suc m)
  let ?sz = "vr_pagesz rgn"
  have ne: "of_nat n * ?sz \<noteq> 0" using range_extent(1) assms(5) unfolding Suc by blast
  obtain s' where m: "unmap_pages s (arch_pgd a) rgn start (of_nat n * ?sz) = Some (s', start + of_nat n * ?sz, 0)"
    "pages_changed K P F (arch_pgd a) s s' start n ?sz (\<lambda>v. Inl ENOENT)"
    using unmap_pages_correct [OF assms(1,5)] by blast
  have "raw_aspace_unmap_pmem s' a v 0 = Some (OK, s')" for v by (subst raw_aspace_unmap_pmem.simps) simp
  then have "raw_aspace_unmap_pmem s a start (of_nat n * ?sz) = Some (OK, s')"
    using assms(2-4) ne range_aligned [OF assms(5)] m(1) by (subst raw_aspace_unmap_pmem.simps) simp
  with m(2) show ?thesis by blast
qed

text \<open>C22: Mapping \<^verbatim>\<open>n\<close> pages of physical memory that the caller may use into a region makes exactly their
  addresses translate, each to its place in the physical range, and changes no other translation and
  nobody else's pages; when the heap runs out of pages for tables, exactly the first \<^verbatim>\<open>k\<close> pages are mapped
  and \<^verbatim>\<open>ENOMEM\<close> is returned. In both cases unmapping the same range afterwards succeeds, removes exactly
  these translations and restores nothing else. No step panics.\<close>

theorem aspace_map_unmap_pmem_correct:
  assumes "page_tables K P user_pges F (arch_pgd a) s" "find_region a start = Some rgn"
    and "vr_flags rgn AND VM_KERNEL = 0" "vr_flags rgn AND VM_SMARTMAP = 0" "page_range s (arch_pgd a) rgn start n"
    and "unat (vr_pagesz rgn) dvd unat pmem" "unat pmem + n * unat (vr_pagesz rgn) \<le> 2 ^ 52"
    and "umem_only ps \<longrightarrow> pmem_is_type junk (pmem_list ps) PMEM_TYPE_UMEM pmem (of_nat n * vr_pagesz rgn) \<or>
           pmem_is_type junk (pmem_list ps) PMEM_TYPE_INIT_TASK pmem (of_nat n * vr_pagesz rgn)"
  shows "\<exists>st s' k s''. raw_aspace_map_pmem junk ps s a pmem start (of_nat n * vr_pagesz rgn) = Some (st, s') \<and>
    (st = OK \<and> k = n \<or> st = Err ENOMEM \<and> k < n) \<and>
    pages_changed K P F (arch_pgd a) s s' start k (vr_pagesz rgn) (\<lambda>v. Inr (pmem + (v - start))) \<and>
    raw_aspace_unmap_pmem s' a start (of_nat n * vr_pagesz rgn) = Some (OK, s'') \<and>
    pages_changed K P F (arch_pgd a) s' s'' start n (vr_pagesz rgn) (\<lambda>v. Inl ENOENT)"
proof -
  obtain st s' k where m: "map_pmem_loop s a pmem start (of_nat n * vr_pagesz rgn) = Some (st, s')"
    "st = OK \<and> k = n \<or> st = Err ENOMEM \<and> k < n"
    "pages_changed K P F (arch_pgd a) s s' start k (vr_pagesz rgn) (\<lambda>v. Inr (pmem + (v - start)))"
    using map_pmem_region [OF assms(1-7)] by blast
  have "page_tables K P user_pges F (arch_pgd a) s'" using m(3) by (simp add: pages_changed_def)
  from unmap_pmem_region [OF this assms(2-4) page_range_kept [OF assms(5) m(3)]] obtain s'' where
    "raw_aspace_unmap_pmem s' a start (of_nat n * vr_pagesz rgn) = Some (OK, s'')"
    "pages_changed K P F (arch_pgd a) s' s'' start n (vr_pagesz rgn) (\<lambda>v. Inl ENOENT)" by blast
  moreover have "raw_aspace_map_pmem junk ps s a pmem start (of_nat n * vr_pagesz rgn) = Some (st, s')"
    using m(1) assms(8) by (auto simp: raw_aspace_map_pmem_def)
  ultimately show ?thesis using m(2,3) by blast
qed

section \<open>An address space of the small machine\<close>

definition user_region :: region where
  "user_region = some_region 0x400000 0x600000 (VM_USER OR VM_WRITE)"

definition init_aspace :: aspace where
  "init_aspace = (some_aspace [user_region, kernel_region])\<lparr>arch_pgd := init_pgd\<rparr>"

definition no_pmem :: pmem_state where
  "no_pmem = \<lparr>pmem_list = [], pmem_heap = [], kernel_maps = [], umem_only = False\<rparr>"

lemma init_aspace_ok: "regions_ok VM_PAGE_4KB (region_list init_aspace)" "has_kernel_region init_aspace"
  by (simp_all add: regions_ok_def rgn_ok_def init_aspace_def some_aspace_def user_region_def some_region_def
      kernel_region_def has_kernel_region_def is_power_of_2_def VM_PAGE_4KB_def PAGE_OFFSET_def word64_less_unat ULONG_MAX_unat)

theorem aspace_find_hole_correct_witness:
  "raw_aspace_find_hole init_aspace 0x400000 0x1000 0x1000 = Some (Inr 0x600000) \<and> hole_at init_aspace 0x600000 0x1000"
proof -
  have run: "raw_aspace_find_hole init_aspace 0x400000 0x1000 0x1000 = Some (Inr 0x600000)"
    by (simp add: raw_aspace_find_hole_def find_hole_loop.simps find_overlapping_region_def init_aspace_def some_aspace_def
        user_region_def some_region_def kernel_region_def round_up_def is_power_of_2_def PAGE_OFFSET_def
        word64_eq_iff_unat [of _ ULONG_MAX] ULONG_MAX_unat)
  from aspace_find_hole_correct [OF init_aspace_ok, of "0x1000" "0x1000" "0x400000"] run show ?thesis
    by (simp add: is_power_of_2_def PAGE_OFFSET_def)
qed

theorem aspace_map_unmap_pmem_correct_witness:
  "\<exists>st s' k s''. raw_aspace_map_pmem kmem_region no_pmem init_heap init_aspace 0x200000 0x400000 0x2000 = Some (st, s') \<and>
    (st = OK \<and> k = 2 \<or> st = Err ENOMEM \<and> k < (2::nat)) \<and>
    raw_aspace_unmap_pmem s' init_aspace 0x400000 0x2000 = Some (OK, s'') \<and>
    arch_aspace_virt_to_phys s'' init_pgd 0x401000 = Inl ENOENT"
proof -
  have f: "find_region init_aspace 0x400000 = Some user_region"
    by (simp add: find_region_def init_aspace_def some_aspace_def user_region_def some_region_def)
  have fl: "vr_flags user_region AND VM_KERNEL = 0" "vr_flags user_region AND VM_SMARTMAP = 0"
    by (simp_all add: user_region_def some_region_def VM_USER_def VM_WRITE_def VM_KERNEL_def VM_SMARTMAP_def)
  have sz: "vr_pagesz user_region = 0x1000" by (simp add: user_region_def some_region_def VM_PAGE_4KB_def)
  have pg: "arch_pgd init_aspace = init_pgd" by (simp add: init_aspace_def)
  have pr: "page_range init_heap (arch_pgd init_aspace) user_region 0x400000 2"
    using init_empty(1) by (auto simp: page_range_def sz pg page_sizes_def VM_PAGE_4KB_def USER_END_def user_region_def some_region_def)
  have v: "unat (0x401000 :: u64) < USER_END" "in_pages 0x400000 2 0x1000 0x401000"
    by (simp_all add: USER_END_def in_pages_def)
  have al: "unat (vr_pagesz user_region) dvd unat (0x200000 :: u64)" "unat (0x200000 :: u64) + 2 * unat (vr_pagesz user_region) \<le> 2 ^ 52"
    by (simp_all add: sz)
  have um: "umem_only no_pmem \<longrightarrow> pmem_is_type kmem_region (pmem_list no_pmem) PMEM_TYPE_UMEM 0x200000 (of_nat 2 * vr_pagesz user_region) \<or>
      pmem_is_type kmem_region (pmem_list no_pmem) PMEM_TYPE_INIT_TASK 0x200000 (of_nat 2 * vr_pagesz user_region)"
    by (simp add: no_pmem_def)
  have pt: "page_tables {} {} user_pges {boot_pgd} (arch_pgd init_aspace) init_heap" using init_created(2) by (simp add: pg)
  obtain st s' k s'' where w:
    "raw_aspace_map_pmem kmem_region no_pmem init_heap init_aspace 0x200000 0x400000 0x2000 = Some (st, s')"
    "st = OK \<and> k = 2 \<or> st = Err ENOMEM \<and> k < (2::nat)"
    "raw_aspace_unmap_pmem s' init_aspace 0x400000 0x2000 = Some (OK, s'')"
    "pages_changed {} {} {boot_pgd} init_pgd s' s'' 0x400000 2 0x1000 (\<lambda>v. Inl ENOENT)"
    using aspace_map_unmap_pmem_correct [OF pt f fl pr al um] by (auto simp: sz pg)
  have "arch_aspace_virt_to_phys s'' init_pgd 0x401000 = Inl ENOENT"
    using w(4) v by (simp add: pages_changed_def)
  with w(1-3) show ?thesis by blast
qed

text \<open>The kernel region of a new address space, as \<^verbatim>\<open>aspace_create\<close> adds it.\<close>

lemma kernel_region_added:
  "map_option (\<lambda>(st, a, s). (st, map (\<lambda>r. (vr_start r, vr_end r)) (region_list a)))
     (raw_aspace_add_region VM_PAGE_4KB boot_heap (some_aspace []) PAGE_OFFSET (ULONG_MAX - PAGE_OFFSET + 1) VM_KERNEL
        PAGE_SIZE (Some ''kernel'')) = Some (OK, [(PAGE_OFFSET, ULONG_MAX)])"
  by code_simp

theorem aspace_regions_invariant_witness:
  "\<exists>a s. as_reach VM_PAGE_4KB a s \<and> regions_ok VM_PAGE_4KB (region_list a) \<and>
    (\<exists>r. find_region a 0xffff810000000000 = Some r \<and> vr_end r = ULONG_MAX)"
proof -
  obtain a s where run: "raw_aspace_add_region VM_PAGE_4KB boot_heap (some_aspace []) PAGE_OFFSET (ULONG_MAX - PAGE_OFFSET + 1)
      VM_KERNEL PAGE_SIZE (Some ''kernel'') = Some (OK, a, s)"
    and rs: "map (\<lambda>r. (vr_start r, vr_end r)) (region_list a) = [(PAGE_OFFSET, ULONG_MAX)]"
    using kernel_region_added by auto
  have reach: "as_reach VM_PAGE_4KB a s"
    by (rule as_reach.add [OF as_reach.new run]) (simp add: some_aspace_def)
  obtain r where r: "region_list a = [r]" "vr_start r = PAGE_OFFSET" "vr_end r = ULONG_MAX" using rs by auto
  have "find_region a 0xffff810000000000 = Some r"
    using aspace_regions_invariant [OF reach] r by (simp add: PAGE_OFFSET_def word64_less_unat ULONG_MAX_unat)
  with reach r aspace_regions_invariant [OF reach] show ?thesis by blast
qed

end
