(* ===== verification/Kitten_Aspace.thy ===== *)
theory Kitten_Aspace
  imports Kitten_Region
begin

text \<open>
  The table of address spaces of \<^verbatim>\<open>kernel/mm/aspace.c\<close>: allocation of ids, creation and destruction,
  reference counts, the operations by id that look an address space up and call the operations of
  \<^verbatim>\<open>Kitten_Region\<close>, waiting for the exit of children, and the system calls of
  \<^verbatim>\<open>kernel/lwk_syscalls/aspace_*.c\<close>.

  The state has the kernel heap, the address space objects by address, the hash table and the cursor
  \<^verbatim>\<open>aspace_next_id\<close>. The hash table finds the key of an object at \<^verbatim>\<open>offsetof(struct aspace, id)\<close>;
  an id is written once, before the object enters the table, so an entry of the table is the pair of
  the id and the address of the object. The bodies run under the locks of the table and of the address
  spaces and are atomic here. \<^verbatim>\<open>current->aspace\<close> is an argument, as are the constants of the build and
  of the machine that the code reads: the size of \<^verbatim>\<open>struct aspace\<close>, the page sizes and the processors
  of the machine and the root table of the bootstrap task.

  The properties: allocation of an id returns an unused one or finds all in use; creation gives an
  empty address space under a fresh id and leaves all others alone, or fails; destruction is refused
  while an address space is in use and otherwise removes exactly it; every exited child is reaped once.
\<close>

section \<open>State\<close>

record aspace_sys =
  kheap :: kmem_state
  aspaces :: "u64 \<Rightarrow> aspace"
  as_table :: "(id_t, id_t \<times> u64) htable"
  aspace_next_id :: id_t

record machine =
  sizeof_aspace :: u64
  pagesz_mask :: u64
  cpu_present_map :: bitmap
  nr_cpus :: nat
  bootstrap_pgd :: u64

definition UASPACE_MIN_ID :: id_t where "UASPACE_MIN_ID = 2"
definition UASPACE_MAX_ID :: id_t where "UASPACE_MAX_ID = 32767"
definition KERNEL_ASPACE_ID :: id_t where "KERNEL_ASPACE_ID = 1"
definition MY_ID :: id_t where "MY_ID = ANY_ID"

definition first_cpu :: "nat \<Rightarrow> bitmap \<Rightarrow> nat" where
  "first_cpu nr src = min nr (find_first_bit src nr)"

definition next_cpu :: "nat \<Rightarrow> nat \<Rightarrow> bitmap \<Rightarrow> nat" where
  "next_cpu nr n src = min nr (find_next_bit src nr (n + 1))"

definition set_aspace :: "u64 \<Rightarrow> aspace \<Rightarrow> aspace_sys \<Rightarrow> aspace_sys" where
  "set_aspace p a \<sigma> = \<sigma>\<lparr>aspaces := (aspaces \<sigma>)(p := a)\<rparr>"

section \<open>Looking address spaces up\<close>

definition lookup_and_lock :: "aspace_sys \<Rightarrow> id_t \<Rightarrow> u64 option" where
  "lookup_and_lock \<sigma> i = map_option snd (htable_lookup (as_table \<sigma>) i)"

definition lookup_and_lock_two :: "aspace_sys \<Rightarrow> id_t \<Rightarrow> id_t \<Rightarrow> errno + u64 \<times> u64" where
  "lookup_and_lock_two \<sigma> a b =
     (if a = b then
        case lookup_and_lock \<sigma> a of None \<Rightarrow> Inl ENOENT | Some p \<Rightarrow> Inr (p, p)
      else
        case htable_lookup (as_table \<sigma>) a of
          None \<Rightarrow> Inl ENOENT
        | Some (_, p) \<Rightarrow> (case htable_lookup (as_table \<sigma>) b of None \<Rightarrow> Inl ENOENT | Some (_, q) \<Rightarrow> Inr (p, q)))"

definition aspace_get_myid :: "aspace_sys \<Rightarrow> u64 \<Rightarrow> id_t" where
  "aspace_get_myid \<sigma> cur = as_id (aspaces \<sigma> cur)"

section \<open>Ids\<close>

definition id_inc :: "id_t \<Rightarrow> id_t" where
  "id_inc i = (if i + 1 > UASPACE_MAX_ID then UASPACE_MIN_ID else i + 1)"

partial_function (option) id_search ::
    "(id_t, id_t \<times> u64) htable \<Rightarrow> id_t \<Rightarrow> id_t \<Rightarrow> (id_t option \<times> id_t) option" where
  "id_search ht stop_id next_id =
     (if htable_lookup ht next_id \<noteq> None then
        let next_id = id_inc next_id
        in if next_id = stop_id then Some (None, next_id) else id_search ht stop_id next_id
      else Some (Some next_id, id_inc next_id))"

text \<open>The result \<^term>\<open>None\<close> of the search is the return of \<^verbatim>\<open>ERROR_ID\<close>.\<close>

definition id_alloc_any :: "aspace_sys \<Rightarrow> (id_t \<times> aspace_sys) option" where
  "id_alloc_any \<sigma> = do {
     (r, nxt) \<leftarrow> id_search (as_table \<sigma>) (aspace_next_id \<sigma>) (aspace_next_id \<sigma>);
     Some (case r of None \<Rightarrow> ERROR_ID | Some i \<Rightarrow> i, \<sigma>\<lparr>aspace_next_id := nxt\<rparr>)
   }"

definition id_alloc_specific :: "aspace_sys \<Rightarrow> id_t \<Rightarrow> id_t" where
  "id_alloc_specific \<sigma> i = (if htable_lookup (as_table \<sigma>) i \<noteq> None then ERROR_ID else i)"

definition pick_id :: "aspace_sys \<Rightarrow> id_t \<Rightarrow> (id_t \<times> aspace_sys) option" where
  "pick_id \<sigma> id_request =
     (if id_request = KERNEL_ASPACE_ID then Some (KERNEL_ASPACE_ID, \<sigma>)
      else if id_request = ANY_ID then id_alloc_any \<sigma>
      else Some (id_alloc_specific \<sigma> id_request, \<sigma>))"

section \<open>Creation and destruction\<close>

text \<open>The object \<^verbatim>\<open>aspace_create\<close> has initialised before it adds the kernel region; the fields it does
  not set are zero. Its lists of tasks, children and pending signals are empty.\<close>

definition new_aspace :: "machine \<Rightarrow> u64 \<Rightarrow> id_t \<Rightarrow> string option \<Rightarrow> u64 \<Rightarrow> aspace" where
  "new_aspace M p new_id name cur =
     \<lparr>as_ptr = p, refcnt = 0, exiting = False, reaped = False, as_id = new_id, as_rank = 0,
      as_name = (case name of None \<Rightarrow> [] | Some n \<Rightarrow> take 31 n), as_parent = cur, child_list = [], region_list = [],
      task_list = [], next_task_id = new_id, cpu_mask = cpu_present_map M,
      next_cpu_id = of_nat (first_cpu (nr_cpus M) (cpu_present_map M)), hio_syscall_mask = (\<lambda>_. 0), exit_status = 0,
      heap_start = 0, heap_end = 0, brk = 0, mmap_brk = 0, arch_pgd = 0\<rparr>"

definition add_child :: "u64 \<Rightarrow> u64 \<Rightarrow> aspace_sys \<Rightarrow> aspace_sys" where
  "add_child par p \<sigma> = set_aspace par ((aspaces \<sigma> par)\<lparr>child_list := child_list (aspaces \<sigma> par) @ [p]\<rparr>) \<sigma>"

definition aspace_create ::
    "machine \<Rightarrow> u64 \<Rightarrow> aspace_sys \<Rightarrow> id_t \<Rightarrow> string option \<Rightarrow> ((errno + id_t) \<times> aspace_sys) option" where
  "aspace_create M cur \<sigma> id_request name = do {
     (new_id, \<sigma>) \<leftarrow> pick_id \<sigma> id_request;
     if id_request \<noteq> KERNEL_ASPACE_ID \<and> new_id = ERROR_ID then Some (Inl EEXIST, \<sigma>)
     else do {
       (p, s) \<leftarrow> kmem_alloc (kheap \<sigma>) (sizeof_aspace M);
       if p = 0 then Some (Inl ENOMEM, \<sigma>\<lparr>kheap := s\<rparr>)
       else do {
         let a = new_aspace M p new_id name cur;
         let \<sigma> = add_child cur p (set_aspace p a (\<sigma>\<lparr>kheap := s\<rparr>));
         (st, a, s) \<leftarrow> raw_aspace_add_region (pagesz_mask M) s a PAGE_OFFSET (ULONG_MAX - PAGE_OFFSET + 1) VM_KERNEL
                        PAGE_SIZE (Some ''kernel'');
         case st of
           Err e \<Rightarrow> do { s \<leftarrow> kmem_free s p; Some (Inl e, (set_aspace p a \<sigma>)\<lparr>kheap := s\<rparr>) }
         | OK \<Rightarrow> do {
             (r, s) \<leftarrow> arch_aspace_create s (bootstrap_pgd M);
             case r of
               Inl e \<Rightarrow> do { s \<leftarrow> kmem_free s p; Some (Inl e, (set_aspace p a \<sigma>)\<lparr>kheap := s\<rparr>) }
             | Inr pgd \<Rightarrow>
                 Some (Inr new_id, (set_aspace p (a\<lparr>arch_pgd := pgd\<rparr>) \<sigma>)\<lparr>kheap := s, as_table := htable_add (as_table \<sigma>) (new_id, p)\<rparr>)
           }
       }
     }
   }"

text \<open>The loop of \<^verbatim>\<open>aspace_destroy\<close> over the regions. A SMARTMAP region whose source is not in the table
  is the \<^verbatim>\<open>BUG_ON\<close>.\<close>

fun drop_regions :: "aspace_sys \<Rightarrow> region list \<Rightarrow> aspace_sys option" where
  "drop_regions \<sigma> [] = Some \<sigma>"
| "drop_regions \<sigma> (rgn # rgns) = do {
     \<sigma> \<leftarrow> (if vr_flags rgn AND VM_SMARTMAP \<noteq> 0 then
             case htable_lookup (as_table \<sigma>) (vr_smartmap rgn) of
               None \<Rightarrow> None
             | Some (_, src) \<Rightarrow> Some (set_aspace src ((aspaces \<sigma> src)\<lparr>refcnt := refcnt (aspaces \<sigma> src) - 1\<rparr>) \<sigma>)
           else Some \<sigma>);
     s \<leftarrow> kmem_free (kheap \<sigma>) (vr_ptr rgn);
     drop_regions (\<sigma>\<lparr>kheap := s\<rparr>) rgns
   }"

definition del_child :: "u64 \<Rightarrow> u64 \<Rightarrow> aspace_sys \<Rightarrow> aspace_sys" where
  "del_child par p \<sigma> = set_aspace par ((aspaces \<sigma> par)\<lparr>child_list := remove1 p (child_list (aspaces \<sigma> par))\<rparr>) \<sigma>"

definition aspace_destroy :: "aspace_sys \<Rightarrow> id_t \<Rightarrow> (status \<times> aspace_sys) option" where
  "aspace_destroy \<sigma> i =
     (case htable_lookup (as_table \<sigma>) i of
        None \<Rightarrow> Some (Err EINVAL, \<sigma>)
      | Some (k, p) \<Rightarrow>
          let a = aspaces \<sigma> p
          in if refcnt a \<noteq> 0 \<or> child_list a \<noteq> [] then Some (Err EBUSY, \<sigma>)
             else do {
               let \<sigma> = del_child (as_parent a) p (\<sigma>\<lparr>as_table := snd (htable_del (as_table \<sigma>) (k, p))\<rparr>);
               \<sigma> \<leftarrow> drop_regions \<sigma> (region_list a);
               s \<leftarrow> arch_aspace_destroy (kheap \<sigma>) (arch_pgd a);
               s \<leftarrow> kmem_free s p;
               Some (OK, \<sigma>\<lparr>kheap := s\<rparr>)
             })"

definition aspace_acquire :: "aspace_sys \<Rightarrow> id_t \<Rightarrow> u64 option \<times> aspace_sys" where
  "aspace_acquire \<sigma> i =
     (case lookup_and_lock \<sigma> i of
        None \<Rightarrow> (None, \<sigma>)
      | Some p \<Rightarrow> (Some p, set_aspace p ((aspaces \<sigma> p)\<lparr>refcnt := refcnt (aspaces \<sigma> p) + 1\<rparr>) \<sigma>))"

definition aspace_release :: "aspace_sys \<Rightarrow> u64 \<Rightarrow> aspace_sys" where
  "aspace_release \<sigma> p = set_aspace p ((aspaces \<sigma> p)\<lparr>refcnt := refcnt (aspaces \<sigma> p) - 1\<rparr>) \<sigma>"

text \<open>\<^verbatim>\<open>aspace_subsys_init\<close>, from the state of the boot: the objects in memory (the current address space is
  the static one of the bootstrap task), the heap and the initial value of the cursor.\<close>

definition aspace_subsys_init :: "machine \<Rightarrow> u64 \<Rightarrow> (u64 \<Rightarrow> aspace) \<Rightarrow> kmem_state \<Rightarrow> (u64 \<times> aspace_sys) option" where
  "aspace_subsys_init M cur objs s = do {
     (h, s) \<leftarrow> htable_create s 7 fst (Some htable_id_hash) (Some htable_id_key_compare);
     ht \<leftarrow> h;
     (r, \<sigma>) \<leftarrow> aspace_create M cur \<lparr>kheap = s, aspaces = objs, as_table = ht, aspace_next_id = UASPACE_MIN_ID\<rparr>
                KERNEL_ASPACE_ID (Some ''kernel'');
     case r of
       Inl e \<Rightarrow> None
     | Inr i \<Rightarrow> (case aspace_acquire \<sigma> KERNEL_ASPACE_ID of (None, _) \<Rightarrow> None | (Some p, \<sigma>) \<Rightarrow> Some (p, \<sigma>))
   }"

section \<open>Operations by id\<close>

definition aspace_update_cpumask :: "machine \<Rightarrow> aspace_sys \<Rightarrow> id_t \<Rightarrow> bitmap \<Rightarrow> status \<times> aspace_sys" where
  "aspace_update_cpumask M \<sigma> i msk =
     (case lookup_and_lock \<sigma> i of
        Some p \<Rightarrow> (OK, set_aspace p ((aspaces \<sigma> p)\<lparr>cpu_mask := msk, next_cpu_id := of_nat (first_cpu (nr_cpus M) msk)\<rparr>) \<sigma>)
      | None \<Rightarrow> (Err EPERM, \<sigma>))"

definition aspace_find_hole :: "aspace_sys \<Rightarrow> id_t \<Rightarrow> vaddr \<Rightarrow> u64 \<Rightarrow> u64 \<Rightarrow> (errno + vaddr) option" where
  "aspace_find_hole \<sigma> i start_hint extent alignment =
     (case lookup_and_lock \<sigma> i of
        None \<Rightarrow> Some (Inl EINVAL)
      | Some p \<Rightarrow> raw_aspace_find_hole (aspaces \<sigma> p) start_hint extent alignment)"

definition aspace_add_region ::
    "machine \<Rightarrow> aspace_sys \<Rightarrow> id_t \<Rightarrow> vaddr \<Rightarrow> u64 \<Rightarrow> u64 \<Rightarrow> u64 \<Rightarrow> string option \<Rightarrow> (status \<times> aspace_sys) option" where
  "aspace_add_region M \<sigma> i start extent flags pagesz name =
     (case lookup_and_lock \<sigma> i of
        None \<Rightarrow> Some (Err EINVAL, \<sigma>)
      | Some p \<Rightarrow> do {
          (st, a, s) \<leftarrow> raw_aspace_add_region (pagesz_mask M) (kheap \<sigma>) (aspaces \<sigma> p) start extent flags pagesz name;
          Some (st, (set_aspace p a \<sigma>)\<lparr>kheap := s\<rparr>)
        })"

definition aspace_del_region :: "aspace_sys \<Rightarrow> id_t \<Rightarrow> vaddr \<Rightarrow> u64 \<Rightarrow> (status \<times> aspace_sys) option" where
  "aspace_del_region \<sigma> i start extent =
     (case lookup_and_lock \<sigma> i of
        None \<Rightarrow> Some (Err EINVAL, \<sigma>)
      | Some p \<Rightarrow> do {
          (st, a, s) \<leftarrow> raw_aspace_del_region (kheap \<sigma>) (aspaces \<sigma> p) start extent;
          Some (st, (set_aspace p a \<sigma>)\<lparr>kheap := s\<rparr>)
        })"

definition aspace_map_pmem ::
    "pmem_region \<Rightarrow> pmem_state \<Rightarrow> aspace_sys \<Rightarrow> id_t \<Rightarrow> paddr \<Rightarrow> vaddr \<Rightarrow> u64 \<Rightarrow> (status \<times> aspace_sys) option" where
  "aspace_map_pmem junk ps \<sigma> i pmem start extent =
     (case lookup_and_lock \<sigma> i of
        None \<Rightarrow> Some (Err EINVAL, \<sigma>)
      | Some p \<Rightarrow> do {
          (st, s) \<leftarrow> raw_aspace_map_pmem junk ps (kheap \<sigma>) (aspaces \<sigma> p) pmem start extent;
          Some (st, \<sigma>\<lparr>kheap := s\<rparr>)
        })"

definition aspace_unmap_pmem :: "aspace_sys \<Rightarrow> id_t \<Rightarrow> vaddr \<Rightarrow> u64 \<Rightarrow> (status \<times> aspace_sys) option" where
  "aspace_unmap_pmem \<sigma> i start extent =
     (case lookup_and_lock \<sigma> i of
        None \<Rightarrow> Some (Err EINVAL, \<sigma>)
      | Some p \<Rightarrow> do {
          (st, s) \<leftarrow> raw_aspace_unmap_pmem (kheap \<sigma>) (aspaces \<sigma> p) start extent;
          Some (st, \<sigma>\<lparr>kheap := s\<rparr>)
        })"

text \<open>Storing the two address spaces an operation on two returns. They may be the same object; the
  operations change the reference count of the source and everything else in the destination.\<close>

definition set_two :: "u64 \<Rightarrow> u64 \<Rightarrow> aspace \<Rightarrow> aspace \<Rightarrow> aspace_sys \<Rightarrow> aspace_sys" where
  "set_two p q src dst \<sigma> =
     (if p = q then set_aspace p (dst\<lparr>refcnt := refcnt src\<rparr>) \<sigma> else set_aspace q dst (set_aspace p src \<sigma>))"

text \<open>The name of a SMARTMAP region, \<^verbatim>\<open>snprintf(name, 16, "SMARTMAP-%u", src->id)\<close>.\<close>

fun decimal :: "nat \<Rightarrow> string" where
  "decimal n = (if n < 10 then [char_of (48 + n)] else decimal (n div 10) @ [char_of (48 + n mod 10)])"

definition smartmap_name :: "id_t \<Rightarrow> string" where
  "smartmap_name i = take 15 (''SMARTMAP-'' @ decimal (unat i))"

definition aspace_smartmap ::
    "machine \<Rightarrow> aspace_sys \<Rightarrow> id_t \<Rightarrow> id_t \<Rightarrow> vaddr \<Rightarrow> u64 \<Rightarrow> (status \<times> aspace_sys) option" where
  "aspace_smartmap M \<sigma> src dst start extent =
     (case lookup_and_lock_two \<sigma> src dst of
        Inl e \<Rightarrow> Some (Err e, \<sigma>)
      | Inr (p, q) \<Rightarrow> do {
          (st, a, b, s) \<leftarrow> raw_aspace_smartmap (pagesz_mask M) smartmap_name (kheap \<sigma>) (aspaces \<sigma> p) (aspaces \<sigma> q) start extent;
          Some (st, (set_two p q a b \<sigma>)\<lparr>kheap := s\<rparr>)
        })"

definition aspace_unsmartmap :: "aspace_sys \<Rightarrow> id_t \<Rightarrow> id_t \<Rightarrow> (status \<times> aspace_sys) option" where
  "aspace_unsmartmap \<sigma> src dst =
     (case lookup_and_lock_two \<sigma> src dst of
        Inl e \<Rightarrow> Some (Err e, \<sigma>)
      | Inr (p, q) \<Rightarrow> do {
          (st, a, b, s) \<leftarrow> raw_aspace_unsmartmap (kheap \<sigma>) (aspaces \<sigma> p) (aspaces \<sigma> q);
          Some (st, (set_two p q a b \<sigma>)\<lparr>kheap := s\<rparr>)
        })"

definition aspace_virt_to_phys :: "aspace_sys \<Rightarrow> u64 \<Rightarrow> id_t \<Rightarrow> vaddr \<Rightarrow> errno + paddr" where
  "aspace_virt_to_phys \<sigma> cur i vaddr =
     (let i = (if i = MY_ID then as_id (aspaces \<sigma> cur) else i)
      in case lookup_and_lock \<sigma> i of
           None \<Rightarrow> Inl EINVAL
         | Some p \<Rightarrow> raw_aspace_virt_to_phys (kheap \<sigma>) (aspaces \<sigma> p) vaddr)"

definition aspace_lookup_mapping ::
    "aspace_sys \<Rightarrow> u64 \<Rightarrow> id_t \<Rightarrow> vaddr \<Rightarrow> aspace_mapping \<Rightarrow> status \<times> aspace_mapping" where
  "aspace_lookup_mapping \<sigma> cur i vaddr mapping =
     (let i = (if i = MY_ID then as_id (aspaces \<sigma> cur) else i)
      in case lookup_and_lock \<sigma> i of
           None \<Rightarrow> (Err EINVAL, mapping)
         | Some p \<Rightarrow> raw_aspace_lookup_mapping (kheap \<sigma>) (aspaces \<sigma> p) vaddr mapping)"

definition aspace_set_rank :: "aspace_sys \<Rightarrow> id_t \<Rightarrow> id_t \<Rightarrow> status \<times> aspace_sys" where
  "aspace_set_rank \<sigma> i rank =
     (case lookup_and_lock \<sigma> i of
        None \<Rightarrow> (Err EINVAL, \<sigma>)
      | Some p \<Rightarrow> (OK, set_aspace p ((aspaces \<sigma> p)\<lparr>as_rank := rank\<rparr>) \<sigma>))"

definition aspace_get_rank :: "aspace_sys \<Rightarrow> id_t \<Rightarrow> errno + id_t" where
  "aspace_get_rank \<sigma> i =
     (case lookup_and_lock \<sigma> i of None \<Rightarrow> Inl EINVAL | Some p \<Rightarrow> Inr (as_rank (aspaces \<sigma> p)))"

definition aspace_update_hio_syscall_mask :: "aspace_sys \<Rightarrow> id_t \<Rightarrow> bitmap \<Rightarrow> status \<times> aspace_sys" where
  "aspace_update_hio_syscall_mask \<sigma> i msk =
     (case lookup_and_lock \<sigma> i of
        None \<Rightarrow> (Err EINVAL, \<sigma>)
      | Some p \<Rightarrow> (OK, set_aspace p ((aspaces \<sigma> p)\<lparr>hio_syscall_mask := msk\<rparr>) \<sigma>))"

section \<open>Waiting for children\<close>

text \<open>One pass over the children: the number of children not yet reaped that it has seen, whether it has
  found the requested id, and the id and status of an exited child, which it marks reaped.\<close>

fun scan_children ::
    "id_t \<Rightarrow> aspace_sys \<Rightarrow> u64 list \<Rightarrow> nat \<Rightarrow> nat \<times> bool \<times> (id_t \<times> int) option \<times> aspace_sys" where
  "scan_children child_id \<sigma> [] n = (n, False, None, \<sigma>)"
| "scan_children child_id \<sigma> (c # cs) n =
     (let child = aspaces \<sigma> c
      in if reaped child then scan_children child_id \<sigma> cs n
         else if child_id \<noteq> ANY_ID \<and> as_id child \<noteq> child_id then scan_children child_id \<sigma> cs (n + 1)
         else if exiting child \<and> task_list child = [] then
           (n + 1, child_id \<noteq> ANY_ID, Some (as_id child, exit_status child), set_aspace c (child\<lparr>reaped := True\<rparr>) \<sigma>)
         else if child_id \<noteq> ANY_ID then (n + 1, True, None, \<sigma>)
         else scan_children child_id \<sigma> cs (n + 1))"

datatype wait_outcome = Reaped id_t int | Failed errno | Sleep

definition wait4_pass :: "u64 \<Rightarrow> id_t \<Rightarrow> bool \<Rightarrow> aspace_sys \<Rightarrow> wait_outcome \<times> aspace_sys" where
  "wait4_pass cur child_id block \<sigma> =
     (case scan_children child_id \<sigma> (child_list (aspaces \<sigma> cur)) 0 of
        (unreaped, found_child_id, exited, \<sigma>) \<Rightarrow>
          if unreaped = 0 then (Failed ECHILD, \<sigma>)
          else if child_id \<noteq> ANY_ID \<and> \<not> found_child_id then (Failed ECHILD, \<sigma>)
          else case exited of
                 Some (i, st) \<Rightarrow> (Reaped i st, \<sigma>)
               | None \<Rightarrow> if \<not> block then (Failed EAGAIN, \<sigma>) else (Sleep, \<sigma>))"

text \<open>Each element of the last argument is what happens while the task sleeps in \<^verbatim>\<open>schedule()\<close>: the change
  of the state by others, and whether a signal is pending when the task runs again. \<^term>\<open>None\<close> is a
  task that still sleeps at the end of the list.\<close>

fun aspace_wait4_child_exit ::
    "u64 \<Rightarrow> id_t \<Rightarrow> bool \<Rightarrow> aspace_sys \<Rightarrow> ((aspace_sys \<Rightarrow> aspace_sys) \<times> bool) list \<Rightarrow>
     ((errno + id_t \<times> int) \<times> aspace_sys) option" where
  "aspace_wait4_child_exit cur child_id block \<sigma> wakes =
     (case wait4_pass cur child_id block \<sigma> of
        (Reaped i st, \<sigma>) \<Rightarrow> Some (Inr (i, st), \<sigma>)
      | (Failed e, \<sigma>) \<Rightarrow> Some (Inl e, \<sigma>)
      | (Sleep, \<sigma>) \<Rightarrow>
          (case wakes of
             [] \<Rightarrow> None
           | (others, signal) # wakes \<Rightarrow>
               if signal then Some (Inl EINTR, others \<sigma>)
               else aspace_wait4_child_exit cur child_id block (others \<sigma>) wakes))"

section \<open>System calls\<close>

text \<open>A string or mask in user memory is \<^term>\<open>None\<close> where copying it into the kernel faults; the flag
  \<^verbatim>\<open>out_ok\<close> is that the result needs not or can be copied out. Names are cut to the 16 bytes of the
  kernel's buffer.\<close>

definition uaspace_id :: "id_t \<Rightarrow> bool" where
  "uaspace_id i \<longleftrightarrow> UASPACE_MIN_ID \<le> i \<and> i \<le> UASPACE_MAX_ID"

definition sys_aspace_get_myid :: "aspace_sys \<Rightarrow> u64 \<Rightarrow> bool \<Rightarrow> errno + id_t" where
  "sys_aspace_get_myid \<sigma> cur out_ok = (if \<not> out_ok then Inl EFAULT else Inr (aspace_get_myid \<sigma> cur))"

definition sys_aspace_create ::
    "u32 \<Rightarrow> machine \<Rightarrow> u64 \<Rightarrow> aspace_sys \<Rightarrow> id_t \<Rightarrow> string option \<Rightarrow> bool \<Rightarrow> ((errno + id_t) \<times> aspace_sys) option" where
  "sys_aspace_create uid M cur \<sigma> id_request name out_ok =
     (if uid \<noteq> 0 then Some (Inl EPERM, \<sigma>)
      else if id_request \<noteq> ANY_ID \<and> \<not> uaspace_id id_request then Some (Inl EINVAL, \<sigma>)
      else case name of
        None \<Rightarrow> Some (Inl EFAULT, \<sigma>)
      | Some n \<Rightarrow> do {
          (r, \<sigma>) \<leftarrow> aspace_create M cur \<sigma> id_request (Some (take 15 n));
          Some (case r of Inl e \<Rightarrow> Inl e | Inr i \<Rightarrow> if \<not> out_ok then Inl EFAULT else Inr i, \<sigma>)
        })"

definition sys_aspace_destroy :: "u32 \<Rightarrow> aspace_sys \<Rightarrow> id_t \<Rightarrow> (status \<times> aspace_sys) option" where
  "sys_aspace_destroy uid \<sigma> i =
     (if uid \<noteq> 0 then Some (Err EPERM, \<sigma>)
      else if \<not> uaspace_id i then Some (Err EINVAL, \<sigma>)
      else aspace_destroy \<sigma> i)"

definition sys_aspace_find_hole ::
    "u32 \<Rightarrow> aspace_sys \<Rightarrow> id_t \<Rightarrow> vaddr \<Rightarrow> u64 \<Rightarrow> u64 \<Rightarrow> bool \<Rightarrow> (errno + vaddr) option" where
  "sys_aspace_find_hole uid \<sigma> i start_hint extent alignment out_ok =
     (if uid \<noteq> 0 then Some (Inl EPERM)
      else if \<not> uaspace_id i then Some (Inl EINVAL)
      else do {
        r \<leftarrow> aspace_find_hole \<sigma> i start_hint extent alignment;
        Some (case r of Inl e \<Rightarrow> Inl e | Inr x \<Rightarrow> if \<not> out_ok then Inl EFAULT else Inr x)
      })"

definition sys_aspace_add_region ::
    "u32 \<Rightarrow> machine \<Rightarrow> aspace_sys \<Rightarrow> id_t \<Rightarrow> vaddr \<Rightarrow> u64 \<Rightarrow> u64 \<Rightarrow> u64 \<Rightarrow> string option \<Rightarrow> (status \<times> aspace_sys) option" where
  "sys_aspace_add_region uid M \<sigma> i start extent flags pagesz name =
     (if uid \<noteq> 0 then Some (Err EPERM, \<sigma>)
      else if \<not> uaspace_id i then Some (Err EINVAL, \<sigma>)
      else case name of
        None \<Rightarrow> Some (Err EFAULT, \<sigma>)
      | Some n \<Rightarrow> aspace_add_region M \<sigma> i start extent flags pagesz (Some (take 15 n)))"

definition sys_aspace_del_region :: "u32 \<Rightarrow> aspace_sys \<Rightarrow> id_t \<Rightarrow> vaddr \<Rightarrow> u64 \<Rightarrow> (status \<times> aspace_sys) option" where
  "sys_aspace_del_region uid \<sigma> i start extent =
     (if uid \<noteq> 0 then Some (Err EPERM, \<sigma>)
      else if \<not> uaspace_id i then Some (Err EINVAL, \<sigma>)
      else aspace_del_region \<sigma> i start extent)"

definition sys_aspace_map_pmem ::
    "u32 \<Rightarrow> pmem_region \<Rightarrow> pmem_state \<Rightarrow> aspace_sys \<Rightarrow> id_t \<Rightarrow> paddr \<Rightarrow> vaddr \<Rightarrow> u64 \<Rightarrow>
     (status \<times> aspace_sys \<times> pmem_state) option" where
  "sys_aspace_map_pmem uid junk ps \<sigma> i pmem start extent =
     (if uid \<noteq> 0 then Some (Err EPERM, \<sigma>, ps)
      else if \<not> uaspace_id i then Some (Err EINVAL, \<sigma>, ps)
      else do {
        (st, \<sigma>) \<leftarrow> aspace_map_pmem junk (ps\<lparr>umem_only := True\<rparr>) \<sigma> i pmem start extent;
        Some (st, \<sigma>, ps\<lparr>umem_only := False\<rparr>)
      })"

definition sys_aspace_unmap_pmem :: "u32 \<Rightarrow> aspace_sys \<Rightarrow> id_t \<Rightarrow> vaddr \<Rightarrow> u64 \<Rightarrow> (status \<times> aspace_sys) option" where
  "sys_aspace_unmap_pmem uid \<sigma> i start extent =
     (if uid \<noteq> 0 then Some (Err EPERM, \<sigma>)
      else if \<not> uaspace_id i then Some (Err EINVAL, \<sigma>)
      else aspace_unmap_pmem \<sigma> i start extent)"

definition sys_aspace_smartmap ::
    "u32 \<Rightarrow> machine \<Rightarrow> aspace_sys \<Rightarrow> id_t \<Rightarrow> id_t \<Rightarrow> vaddr \<Rightarrow> u64 \<Rightarrow> (status \<times> aspace_sys) option" where
  "sys_aspace_smartmap uid M \<sigma> src dst start extent =
     (if uid \<noteq> 0 then Some (Err EPERM, \<sigma>)
      else if \<not> uaspace_id src then Some (Err EINVAL, \<sigma>)
      else if \<not> uaspace_id dst then Some (Err EINVAL, \<sigma>)
      else aspace_smartmap M \<sigma> src dst start extent)"

definition sys_aspace_unsmartmap :: "u32 \<Rightarrow> aspace_sys \<Rightarrow> id_t \<Rightarrow> id_t \<Rightarrow> (status \<times> aspace_sys) option" where
  "sys_aspace_unsmartmap uid \<sigma> src dst =
     (if uid \<noteq> 0 then Some (Err EPERM, \<sigma>)
      else if \<not> uaspace_id src then Some (Err EINVAL, \<sigma>)
      else if \<not> uaspace_id dst then Some (Err EINVAL, \<sigma>)
      else aspace_unsmartmap \<sigma> src dst)"

definition sys_aspace_virt_to_phys :: "aspace_sys \<Rightarrow> u64 \<Rightarrow> id_t \<Rightarrow> vaddr \<Rightarrow> bool \<Rightarrow> errno + paddr" where
  "sys_aspace_virt_to_phys \<sigma> cur i vaddr out_ok =
     (case aspace_virt_to_phys \<sigma> cur i vaddr of
        Inl e \<Rightarrow> Inl e | Inr x \<Rightarrow> if \<not> out_ok then Inl EFAULT else Inr x)"

definition sys_get_rank :: "aspace_sys \<Rightarrow> u64 \<Rightarrow> id_t \<Rightarrow> bool \<Rightarrow> errno + id_t" where
  "sys_get_rank \<sigma> cur i out_ok =
     (case aspace_get_rank \<sigma> (if i = MY_ID then aspace_get_myid \<sigma> cur else i) of
        Inl e \<Rightarrow> Inl e | Inr x \<Rightarrow> if \<not> out_ok then Inl EFAULT else Inr x)"

definition sys_set_rank :: "aspace_sys \<Rightarrow> u64 \<Rightarrow> id_t \<Rightarrow> id_t \<Rightarrow> status \<times> aspace_sys" where
  "sys_set_rank \<sigma> cur i rank_id =
     aspace_set_rank \<sigma> (if i = MY_ID then aspace_get_myid \<sigma> cur else i) rank_id"

text \<open>A mask of the user, of 1024 bits, as one of the kernel, of \<^verbatim>\<open>n\<close> bits.\<close>

definition mask_user2kernel :: "nat \<Rightarrow> bitmap \<Rightarrow> bitmap" where
  "mask_user2kernel n user = (\<lambda>w. if w < min ((n + 63) div 64) 16 then user w else 0)"

definition sys_aspace_update_user_cpumask ::
    "u32 \<Rightarrow> machine \<Rightarrow> aspace_sys \<Rightarrow> id_t \<Rightarrow> bitmap option \<Rightarrow> status \<times> aspace_sys" where
  "sys_aspace_update_user_cpumask uid M \<sigma> i user =
     (if uid \<noteq> 0 then (Err EPERM, \<sigma>)
      else case user of
        None \<Rightarrow> (Err EFAULT, \<sigma>)
      | Some m \<Rightarrow> aspace_update_cpumask M \<sigma> i (mask_user2kernel (nr_cpus M) m))"

definition sys_aspace_update_user_hio_syscall_mask ::
    "nat \<Rightarrow> aspace_sys \<Rightarrow> u64 \<Rightarrow> id_t \<Rightarrow> bitmap option \<Rightarrow> status \<times> aspace_sys" where
  "sys_aspace_update_user_hio_syscall_mask nr_syscalls \<sigma> cur i user =
     (let i = (if i = MY_ID then aspace_get_myid \<sigma> cur else i)
      in case user of
           None \<Rightarrow> (Err EFAULT, \<sigma>)
         | Some m \<Rightarrow> aspace_update_hio_syscall_mask \<sigma> i (mask_user2kernel nr_syscalls m))"

declare decimal.simps [simp del]

section \<open>Objects in the heap\<close>

text \<open>The pointer \<^verbatim>\<open>kmem_alloc\<close> returns for a block.\<close>

definition kptr :: "kmem_state \<Rightarrow> block \<Rightarrow> u64" where
  "kptr s b = blk_addr (kmem_pool s) (fst b) + 16"

text \<open>Where the pool lies and how large it is.\<close>

definition pool_at :: "kmem_state \<Rightarrow> u64 \<times> nat" where
  "pool_at s = (base_addr (kmem_pool s), pool_order (kmem_pool s))"

lemma kptr_pool_at: "pool_at s' = pool_at s \<Longrightarrow> kptr s' = kptr s"
  by (simp add: pool_at_def kptr_def blk_addr_def fun_eq_iff)

lemma pool_at_eqI:
  "blk_addr (kmem_pool s') = blk_addr (kmem_pool s) \<Longrightarrow> pool_order (kmem_pool s') = pool_order (kmem_pool s) \<Longrightarrow>
   pool_at s' = pool_at s"
  using base_addr_eqI [of "kmem_pool s'" "kmem_pool s"] by (simp add: pool_at_def)

lemma pages_words:
  assumes "\<And>c x. c \<in> K \<union> (P \<union> page_block s ` H) \<Longrightarrow> x \<in> rng c \<Longrightarrow> kword s' x = kword s x"
    and "page_block s' = page_block s" "c \<in> H" "i < 512"
  shows "pt_read s' c i = pt_read s c i"
proof -
  have "page_block s c \<in> K \<union> (P \<union> page_block s ` H)" using assms(3) by simp
  from assms(1) [OF this page_word(1) [OF assms(4)]] show ?thesis
    using page_word(2) [OF assms(4), of s' c] page_word(2) [OF assms(4), of s c] assms(2)
    by (simp add: page_block_def fun_eq_iff)
qed

lemma pages_kmem_alloc:
  assumes "pages_inv K P s H" "unat sz + 16 \<le> 2 ^ pool_order (kmem_pool s)"
  obtains (fail) "kmem_alloc s sz = Some (0, s)"
  | (block) b s' where "kmem_alloc s sz = Some (kptr s b, s')" "kptr s b \<noteq> 0" "b \<notin> K" "pages_inv (insert b K) P s' H"
      "\<And>c i. c \<in> H \<Longrightarrow> i < 512 \<Longrightarrow> pt_read s' c i = pt_read s c i" "pool_at s' = pool_at s"
proof -
  have inv: "kmem_inv s K (P \<union> page_block s ` H)" and dj: "P \<inter> page_block s ` H = {}"
    and dm: "direct_mapped (kmem_pool s)" using assms by (auto simp: pages_inv_def)
  from inv assms(2) show thesis
  proof (cases rule: kmem_alloc_cases)
    case fail
    then show thesis by (rule that(1))
  next
    case (block p s')
    let ?b = "(p, kmem_order sz)"
    have pb: "page_block s' = page_block s" by (rule page_block_eq [OF block(10)])
    have "pages_inv (insert ?b K) P s' H"
      unfolding pages_inv_def pb using block(4) dj dm direct_mapped_eq [OF block(10,9)] by blast
    moreover have "pt_read s' c i = pt_read s c i" if "c \<in> H" "i < 512" for c i
      by (rule pages_words [OF block(6) pb that])
    moreover have "kptr s ?b \<noteq> 0" using held_nonnull(2) [OF block(4), of p "kmem_order sz"] by (simp add: kptr_def block(10))
    ultimately show thesis
      using block(1,3) pool_at_eqI [OF block(10,9)] by (intro that(2) [of ?b s']) (simp_all add: kptr_def)
  qed
qed

lemma pages_kmem_free:
  assumes "pages_inv K P s H" "b \<in> K"
  shows "\<exists>s'. kmem_free s (kptr s b) = Some s' \<and> pages_inv (K - {b}) P s' H \<and>
    (\<forall>c \<in> H. \<forall>i < 512. pt_read s' c i = pt_read s c i) \<and> pool_at s' = pool_at s"
proof -
  have inv: "kmem_inv s K (P \<union> page_block s ` H)" and dj: "P \<inter> page_block s ` H = {}"
    and dm: "direct_mapped (kmem_pool s)" using assms by (auto simp: pages_inv_def)
  obtain p k where b: "b = (p, k)" by fastforce
  from inv assms(2) [unfolded b] obtain s' where
    f: "kmem_free s (blk_addr (kmem_pool s) p + 16) = Some s'" "kmem_inv s' (K - {(p, k)}) (P \<union> page_block s ` H)"
      "\<And>c x. c \<in> K \<union> (P \<union> page_block s ` H) \<Longrightarrow> x \<in> rng c \<Longrightarrow> kword s' x = kword s x"
      "blk_addr (kmem_pool s') = blk_addr (kmem_pool s)" "pool_order (kmem_pool s') = pool_order (kmem_pool s)"
    by (rule kmem_free_held) blast
  have pb: "page_block s' = page_block s" by (rule page_block_eq [OF f(4)])
  have "pages_inv (K - {b}) P s' H"
    unfolding pages_inv_def pb b using f(2) dj dm direct_mapped_eq [OF f(4,5)] by blast
  moreover have "pt_read s' c i = pt_read s c i" if "c \<in> H" "i < 512" for c i
    by (rule pages_words [OF f(3) pb that])
  ultimately show ?thesis using f(1) pool_at_eqI [OF f(4,5)] by (auto simp: kptr_def b)
qed

lemma kptr_inj:
  assumes "pages_inv K P s H" "b \<in> K" "c \<in> K" "kptr s b = kptr s c"
  shows "b = c"
proof -
  have inv: "kmem_inv s K (P \<union> page_block s ` H)" using assms by (auto simp: pages_inv_def)
  have h: "fst d \<in> rng d" if "d \<in> K" for d
    using held_header(1) [OF inv, of "fst d" "snd d"] that by simp
  have in_pool: "fst d < 2 ^ pool_order (kmem_pool s)" if "d \<in> K" for d
    using held_in_pool [OF inv _ h [OF that]] that by blast
  have "blk_addr (kmem_pool s) (fst b) = blk_addr (kmem_pool s) (fst c)" using assms(4) by (simp add: kptr_def)
  then have "fst b = fst c"
    using blk_addr_inj [OF kmem_invD(6) [OF inv] in_pool [OF assms(2)] in_pool [OF assms(3)]] by simp
  then have "rng b \<inter> rng c \<noteq> {}" using h assms(2,3) by fastforce
  then show ?thesis using buddy.held_disjoint [OF kmem_invD(2) [OF inv], of b c] assms(2,3) by blast
qed

text \<open>Freeing does not move the pool.\<close>

lemma buddy_coalesce_base:
  "buddy_coalesce mp b k = Some (mp', r) \<Longrightarrow> base_addr mp' = base_addr mp \<and> pool_order mp' = pool_order mp"
proof (induction mp b k rule: buddy_coalesce.induct)
  case (1 mp b k)
  from 1(2) show ?case
    by (subst (asm) buddy_coalesce.simps)
      (auto simp: bind_eq_Some_conv Let_def avail_del_def split: if_splits dest!: 1(1) [rotated -1])
qed

lemma mark_available_base: "mark_available mp b = Some mp' \<Longrightarrow> base_addr mp' = base_addr mp \<and> pool_order mp' = pool_order mp"
  by (auto simp: mark_available_def bind_eq_Some_conv Let_def split: if_splits)

lemma buddy_free_base: "buddy_free mp a k = Some mp' \<Longrightarrow> base_addr mp' = base_addr mp \<and> pool_order mp' = pool_order mp"
  by (auto simp: buddy_free_def bind_eq_Some_conv Let_def split: if_splits dest!: buddy_coalesce_base mark_available_base)

lemma pool_at_write [simp]: "pool_at (pt_write s a i v) = pool_at s"
  by (simp add: pool_at_def)

lemma kmem_free_pages_pool_at: "kmem_free_pages s a k = Some s' \<Longrightarrow> pool_at s' = pool_at s"
  by (auto simp: kmem_free_pages_def bind_eq_Some_conv pool_at_def kmem_pool_def dest!: buddy_free_base)

lemma free_ptds_pool_at: "free_ptds s pmd ks = Some s' \<Longrightarrow> pool_at s' = pool_at s"
  by (induction ks arbitrary: s)
    (auto simp: Let_def bind_eq_Some_conv split: if_splits dest!: kmem_free_pages_pool_at)

lemma free_pmds_pool_at: "free_pmds s pud js = Some s' \<Longrightarrow> pool_at s' = pool_at s"
  by (induction js arbitrary: s)
    (auto simp: Let_def bind_eq_Some_conv simp del: upt.simps split: if_splits dest!: kmem_free_pages_pool_at free_ptds_pool_at)

lemma free_puds_pool_at: "free_puds s pgd is' = Some s' \<Longrightarrow> pool_at s' = pool_at s"
  by (induction is' arbitrary: s)
    (auto simp: Let_def bind_eq_Some_conv simp del: upt.simps split: if_splits dest!: kmem_free_pages_pool_at free_pmds_pool_at)

lemma arch_aspace_destroy_pool_at: "arch_aspace_destroy s pgd = Some s' \<Longrightarrow> pool_at s' = pool_at s"
  by (auto simp: arch_aspace_destroy_def bind_eq_Some_conv simp del: upt.simps dest!: kmem_free_pages_pool_at free_puds_pool_at)

section \<open>Allocation of ids\<close>

lemma uaspace_id_unat: "uaspace_id i \<longleftrightarrow> 2 \<le> unat i \<and> unat i \<le> 32767"
  by (simp add: uaspace_id_def UASPACE_MIN_ID_def UASPACE_MAX_ID_def word_le_nat_alt)

lemma id_inc_ring:
  assumes "uaspace_id i"
  shows "unat (id_inc i) = 2 + (unat i - 1) mod 32766" "uaspace_id (id_inc i)"
proof -
  have u: "unat (i + 1) = unat i + 1"
    using assms by (simp add: uaspace_id_unat unat_word_ariths)
  show r: "unat (id_inc i) = 2 + (unat i - 1) mod 32766"
  proof (cases "unat i = 32767")
    case False
    then have "(unat i - 1) mod 32766 = unat i - 1" using assms by (intro mod_less) (auto simp: uaspace_id_unat)
    moreover have "id_inc i = i + 1"
      using False assms u by (simp add: id_inc_def UASPACE_MAX_ID_def uaspace_id_unat word_less_nat_alt)
    ultimately show ?thesis using assms u by (simp add: uaspace_id_unat del: One_nat_def)
  qed (use u in \<open>simp add: id_inc_def UASPACE_MAX_ID_def UASPACE_MIN_ID_def word_less_nat_alt\<close>)
  have "(unat i - 1) mod 32766 < 32766" by simp
  then show "uaspace_id (id_inc i)" unfolding uaspace_id_unat r by linarith
qed

lemma id_ring:
  assumes "uaspace_id i"
  shows "uaspace_id ((id_inc ^^ k) i) \<and> unat ((id_inc ^^ k) i) = 2 + (unat i - 2 + k) mod 32766"
proof (induction k)
  case 0
  have "(unat i - 2) mod 32766 = unat i - 2" using assms by (intro mod_less) (auto simp: uaspace_id_unat)
  then show ?case using assms by (auto simp: uaspace_id_unat)
next
  case (Suc k)
  then have "uaspace_id ((id_inc ^^ k) i)" by blast
  from id_inc_ring [OF this] Suc show ?case by (simp add: mod_Suc_eq)
qed

lemma id_ring_onto:
  assumes "uaspace_id i" "uaspace_id j"
  shows "\<exists>k < 32766. (id_inc ^^ k) i = j"
proof -
  define k where "k = (unat j + 32766 - unat i) mod 32766"
  have "(unat i - 2 + k) mod 32766 = (unat i - 2 + (unat j + 32766 - unat i)) mod 32766"
    unfolding k_def by (rule mod_add_right_eq)
  also have "unat i - 2 + (unat j + 32766 - unat i) = unat j - 2 + 32766"
    using assms unfolding uaspace_id_unat by linarith
  also have "(unat j - 2 + 32766) mod 32766 = (unat j - 2) mod 32766" by (rule mod_add_self2)
  also have "\<dots> = unat j - 2" using assms(2) by (intro mod_less) (auto simp: uaspace_id_unat)
  finally have "unat ((id_inc ^^ k) i) = unat j"
    using id_ring [OF assms(1), of k] assms(2) by (auto simp: uaspace_id_unat)
  then have "(id_inc ^^ k) i = j" by (simp add: word_unat_eq_iff)
  moreover have "k < 32766" unfolding k_def by simp
  ultimately show ?thesis by blast
qed

lemma mod_full_turn:
  assumes "(a + k) mod N = a" "0 < k" "k \<le> N" "a < (N::nat)"
  shows "k = N"
proof (cases "a + k < N")
  case False
  then have "(a + k) mod N = a + k - N" using assms(3,4) by (simp add: le_mod_geq)
  then show ?thesis using assms False by linarith
qed (use assms in simp)

lemma id_search_from:
  assumes st: "uaspace_id st" and k: "k < 32766" and used: "\<forall>j < k. htable_lookup ht ((id_inc ^^ j) st) \<noteq> None"
  shows "\<exists>r nxt. id_search ht st ((id_inc ^^ k) st) = Some (r, nxt) \<and> uaspace_id nxt \<and>
    (case r of None \<Rightarrow> \<forall>i. uaspace_id i \<longrightarrow> htable_lookup ht i \<noteq> None
     | Some i \<Rightarrow> uaspace_id i \<and> htable_lookup ht i = None)"
  using k used
proof (induction "32766 - k" arbitrary: k)
  case (Suc n)
  let ?i = "(id_inc ^^ k) st"
  have i: "uaspace_id ?i" "uaspace_id (id_inc ?i)" using id_ring [OF st] id_inc_ring(2) by blast+
  show ?case
  proof (cases "htable_lookup ht ?i = None")
    case True
    then have "id_search ht st ?i = Some (Some ?i, id_inc ?i)" by (subst id_search.simps) simp
    then show ?thesis using True i by auto
  next
    case False
    then have used': "\<forall>j < Suc k. htable_lookup ht ((id_inc ^^ j) st) \<noteq> None"
      using Suc(4) by (auto simp: less_Suc_eq)
    show ?thesis
    proof (cases "id_inc ?i = st")
      case True
      have "(unat st - 2 + Suc k) mod 32766 = unat st - 2"
        using id_ring [OF st, of "Suc k"] True by (metis add_diff_cancel_left' comp_apply funpow.simps(2))
      moreover have "Suc k \<le> 32766" "unat st - 2 < 32766" using Suc(3) st unfolding uaspace_id_unat by linarith+
      ultimately have "Suc k = 32766" by (rule mod_full_turn [OF _ zero_less_Suc])
      then have "htable_lookup ht i \<noteq> None" if "uaspace_id i" for i
        using id_ring_onto [OF st that] used' by auto
      moreover have "id_search ht st ?i = Some (None, id_inc ?i)"
        using False True by (subst id_search.simps) (simp add: Let_def)
      ultimately show ?thesis using i by auto
    next
      case ne: False
      have "Suc k < 32766"
      proof (rule ccontr)
        assume "\<not> Suc k < 32766"
        then have k: "Suc k = 32766" using Suc(3) by linarith
        have "unat (id_inc ?i) = 2 + (unat st - 2 + Suc k) mod 32766"
          using id_ring [OF st, of "Suc k"] by simp
        also have "(unat st - 2 + Suc k) mod 32766 = (unat st - 2) mod 32766" unfolding k by (rule mod_add_self2)
        also have "\<dots> = unat st - 2" using st by (intro mod_less) (auto simp: uaspace_id_unat)
        finally have "unat (id_inc ?i) = unat st" using st by (auto simp: uaspace_id_unat)
        then show False using ne by (simp add: word_unat_eq_iff)
      qed
      moreover have "n = 32766 - Suc k" using Suc(2) by simp
      moreover have "id_search ht st ?i = id_search ht st (id_inc ?i)"
        using False ne by (subst id_search.simps) (simp add: Let_def)
      ultimately show ?thesis using Suc(1) [of "Suc k"] used' by simp
    qed
  qed
qed simp

lemma uaspace_not_error: "uaspace_id i \<Longrightarrow> i \<noteq> ERROR_ID"
  by (auto simp: uaspace_id_def UASPACE_MAX_ID_def ERROR_ID_def ANY_ID_def dest: word_order.extremum_uniqueI)

lemma id_alloc_any_spec:
  assumes "uaspace_id (aspace_next_id \<sigma>)"
  shows "\<exists>i nxt. id_alloc_any \<sigma> = Some (i, \<sigma>\<lparr>aspace_next_id := nxt\<rparr>) \<and> uaspace_id nxt \<and>
    (if \<forall>j. uaspace_id j \<longrightarrow> lookup_and_lock \<sigma> j \<noteq> None then i = ERROR_ID
     else uaspace_id i \<and> lookup_and_lock \<sigma> i = None)"
proof -
  from id_search_from [OF assms, of 0 "as_table \<sigma>"] obtain r nxt where
    s: "id_search (as_table \<sigma>) (aspace_next_id \<sigma>) (aspace_next_id \<sigma>) = Some (r, nxt)" "uaspace_id nxt"
    "case r of None \<Rightarrow> \<forall>i. uaspace_id i \<longrightarrow> htable_lookup (as_table \<sigma>) i \<noteq> None
     | Some i \<Rightarrow> uaspace_id i \<and> htable_lookup (as_table \<sigma>) i = None" by auto
  then show ?thesis
    by (intro exI [of _ "case r of None \<Rightarrow> ERROR_ID | Some i \<Rightarrow> i"] exI [of _ nxt])
      (auto simp: id_alloc_any_def lookup_and_lock_def split: option.splits)
qed

text \<open>C26: Allocating an id always returns: with an id of the user range that no address space has, or with
  \<^verbatim>\<open>ERROR_ID\<close> if every id of the range is taken. Only the cursor changes, and it stays in the range.\<close>

theorem id_alloc_any_correct:
  assumes "uaspace_id (aspace_next_id \<sigma>)"
  shows "\<exists>i nxt. id_alloc_any \<sigma> = Some (i, \<sigma>\<lparr>aspace_next_id := nxt\<rparr>) \<and> uaspace_id nxt \<and>
    (if \<forall>j. uaspace_id j \<longrightarrow> lookup_and_lock \<sigma> j \<noteq> None then i = ERROR_ID
     else uaspace_id i \<and> lookup_and_lock \<sigma> i = None)"
  by (rule id_alloc_any_spec [OF assms])

section \<open>Creation\<close>

text \<open>The table is well formed: distinct keys, every entry leads to an object with its id, and the cursor
  is a user id.\<close>

definition table_ok :: "aspace_sys \<Rightarrow> bool" where
  "table_ok \<sigma> \<longleftrightarrow> ht_ok (as_table \<sigma>) \<and> ht_unique (as_table \<sigma>) \<and> obj2key (as_table \<sigma>) = fst \<and>
     uaspace_id (aspace_next_id \<sigma>) \<and> (\<forall>(i, p) \<in> set (ht_objs (as_table \<sigma>)). as_id (aspaces \<sigma> p) = i)"

text \<open>Besides, the objects of the table and the current address space are live blocks of the heap, which
  also holds the pages \<^verbatim>\<open>F\<close>, the root table of the bootstrap task among them, and the machine is as the
  code expects: it has pages of 4 KB, and the heap is large enough for the objects at all.\<close>

definition aspaces_ok :: "machine \<Rightarrow> block set \<Rightarrow> block set \<Rightarrow> u64 set \<Rightarrow> u64 \<Rightarrow> aspace_sys \<Rightarrow> bool" where
  "aspaces_ok M K P F cur \<sigma> \<longleftrightarrow> table_ok \<sigma> \<and> snd ` set (ht_objs (as_table \<sigma>)) \<subseteq> kptr (kheap \<sigma>) ` K \<and>
     cur \<in> kptr (kheap \<sigma>) ` K \<and> pages_inv K P (kheap \<sigma>) F \<and> bootstrap_pgd M \<in> F \<and>
     PAGE_SIZE AND pagesz_mask M = PAGE_SIZE \<and>
     unat (sizeof_aspace M) + 16 \<le> 2 ^ pool_order (kmem_pool (kheap \<sigma>)) \<and>
     unat sizeof_region + 16 \<le> 2 ^ pool_order (kmem_pool (kheap \<sigma>))"

lemma lookup_iff:
  assumes "table_ok \<sigma>"
  shows "lookup_and_lock \<sigma> i = Some p \<longleftrightarrow> (i, p) \<in> set (ht_objs (as_table \<sigma>))"
    "htable_lookup (as_table \<sigma>) i = map_option (\<lambda>p. (i, p)) (lookup_and_lock \<sigma> i)"
proof -
  have t: "ht_ok (as_table \<sigma>) \<and> ht_unique (as_table \<sigma>)" "obj2key (as_table \<sigma>) = fst" using assms by (simp_all add: table_ok_def)
  note L = htable.lookup_eq [OF t(1), unfolded t(2)]
  have k: "fst x = i" if "htable_lookup (as_table \<sigma>) i = Some x" for x using L that by blast
  show "lookup_and_lock \<sigma> i = Some p \<longleftrightarrow> (i, p) \<in> set (ht_objs (as_table \<sigma>))"
    unfolding lookup_and_lock_def using L [of i "(i, p)"] k by (cases "htable_lookup (as_table \<sigma>) i") auto
  show "htable_lookup (as_table \<sigma>) i = map_option (\<lambda>p. (i, p)) (lookup_and_lock \<sigma> i)"
    unfolding lookup_and_lock_def using k by (cases "htable_lookup (as_table \<sigma>) i") (auto simp: prod_eq_iff)
qed

definition id_taken :: "aspace_sys \<Rightarrow> id_t \<Rightarrow> bool" where
  "id_taken \<sigma> id_request \<longleftrightarrow>
     (if id_request = ANY_ID then \<forall>j. uaspace_id j \<longrightarrow> lookup_and_lock \<sigma> j \<noteq> None
      else id_request \<noteq> KERNEL_ASPACE_ID \<and> lookup_and_lock \<sigma> id_request \<noteq> None)"

lemma pick_id_spec:
  assumes "uaspace_id (aspace_next_id \<sigma>)" "id_request = KERNEL_ASPACE_ID \<Longrightarrow> lookup_and_lock \<sigma> KERNEL_ASPACE_ID = None"
  shows "\<exists>i nxt. pick_id \<sigma> id_request = Some (i, \<sigma>\<lparr>aspace_next_id := nxt\<rparr>) \<and> uaspace_id nxt \<and>
    (if id_taken \<sigma> id_request then id_request \<noteq> KERNEL_ASPACE_ID \<and> i = ERROR_ID
     else i \<noteq> ERROR_ID \<and> lookup_and_lock \<sigma> i = None \<and> (if id_request = ANY_ID then uaspace_id i else i = id_request))"
proof -
  have K: "KERNEL_ASPACE_ID \<noteq> ANY_ID" "ERROR_ID = ANY_ID" by (simp_all add: KERNEL_ASPACE_ID_def ANY_ID_def ERROR_ID_def)
  have same: "\<sigma> = \<sigma>\<lparr>aspace_next_id := aspace_next_id \<sigma>\<rparr>" by simp
  consider "id_request = KERNEL_ASPACE_ID" | "id_request = ANY_ID" | "id_request \<noteq> KERNEL_ASPACE_ID" "id_request \<noteq> ANY_ID" by blast
  then show ?thesis
  proof cases
    case 2
    then have "pick_id \<sigma> id_request = id_alloc_any \<sigma>"
      "id_taken \<sigma> id_request \<longleftrightarrow> (\<forall>j. uaspace_id j \<longrightarrow> lookup_and_lock \<sigma> j \<noteq> None)"
      using K by (auto simp: pick_id_def id_taken_def)
    with id_alloc_any_spec [OF assms(1)] 2 K(1) show ?thesis by (metis (full_types) uaspace_not_error)
  next
    case 3
    then have "pick_id \<sigma> id_request = Some (id_alloc_specific \<sigma> id_request, \<sigma>\<lparr>aspace_next_id := aspace_next_id \<sigma>\<rparr>)"
      by (simp add: pick_id_def)
    moreover have "id_alloc_specific \<sigma> id_request = (if id_taken \<sigma> id_request then ERROR_ID else id_request)"
      "\<not> id_taken \<sigma> id_request \<Longrightarrow> lookup_and_lock \<sigma> id_request = None"
      using 3 by (cases "htable_lookup (as_table \<sigma>) id_request"; simp add: id_alloc_specific_def id_taken_def lookup_and_lock_def)+
    ultimately show ?thesis using 3 assms(1) K(2) by (metis (full_types))
  next
    case 1
    then have "pick_id \<sigma> id_request = Some (KERNEL_ASPACE_ID, \<sigma>\<lparr>aspace_next_id := aspace_next_id \<sigma>\<rparr>)"
      by (simp add: pick_id_def)
    then show ?thesis using 1 assms K by (intro exI conjI) (assumption | simp add: id_taken_def)+
  qed
qed

definition kernel_rgn :: "u64 \<Rightarrow> region" where
  "kernel_rgn q = \<lparr>vr_ptr = q, vr_start = PAGE_OFFSET, vr_end = ULONG_MAX, vr_flags = VM_KERNEL, vr_pagesz = PAGE_SIZE,
     vr_smartmap = 0, vr_name = ''kernel''\<rparr>"

lemma add_kernel_region:
  assumes "region_list a = []" "PAGE_SIZE AND m = PAGE_SIZE"
  shows "raw_aspace_add_region m s a PAGE_OFFSET (ULONG_MAX - PAGE_OFFSET + 1) VM_KERNEL PAGE_SIZE (Some ''kernel'') =
    Option.bind (kmem_alloc s sizeof_region)
      (\<lambda>(q, s). if q = 0 then Some (Err ENOMEM, a, s) else Some (OK, a\<lparr>region_list := [kernel_rgn q]\<rparr>, s))"
proof -
  have fin: "calc_end PAGE_OFFSET (ULONG_MAX - PAGE_OFFSET + 1) = ULONG_MAX"
    by (simp add: calc_end_def ULONG_MAX_def PAGE_OFFSET_def)
  have g: "PAGE_OFFSET \<noteq> 0" "ULONG_MAX - PAGE_OFFSET + 1 \<noteq> 0" "PAGE_SIZE \<noteq> 0"
    "is_power_of_2 PAGE_SIZE" "PAGE_OFFSET AND (PAGE_SIZE - 1) = 0" "VM_KERNEL AND VM_HEAP = 0"
    by (simp_all add: ULONG_MAX_def PAGE_OFFSET_def PAGE_SIZE_def is_power_of_2_def VM_KERNEL_def VM_HEAP_def)
  have "\<not> PAGE_OFFSET \<ge> ULONG_MAX" by (simp add: not_le word64_less_unat ULONG_MAX_unat PAGE_OFFSET_def)
  then show ?thesis unfolding raw_aspace_add_region_def Let_def fin assms(2)
    using g assms(1) by (simp add: kernel_rgn_def cong: if_cong)
qed

text \<open>What \<^verbatim>\<open>aspace_create\<close> does to the objects at the addresses \<^verbatim>\<open>Q\<close>: the current address space gets
  further children.\<close>

definition children_added :: "u64 \<Rightarrow> u64 list \<Rightarrow> u64 set \<Rightarrow> aspace_sys \<Rightarrow> aspace_sys \<Rightarrow> bool" where
  "children_added cur cs Q \<sigma> \<sigma>' \<longleftrightarrow> (\<forall>q \<in> Q. aspaces \<sigma>' q =
     (if q = cur then (aspaces \<sigma> q)\<lparr>child_list := child_list (aspaces \<sigma> q) @ cs\<rparr> else aspaces \<sigma> q))"

lemma children_added_id: "children_added cur cs Q \<sigma> \<sigma>' \<Longrightarrow> q \<in> Q \<Longrightarrow> as_id (aspaces \<sigma>' q) = as_id (aspaces \<sigma> q)"
  by (simp add: children_added_def)

lemma pages_create:
  assumes "pages_inv K P s F" "bpgd \<in> F"
  obtains (fail) "arch_aspace_create s bpgd = Some (Inl ENOMEM, s)"
  | (root) pgd s' where "arch_aspace_create s bpgd = Some (Inr pgd, s')" "page_tables K P user_pges F pgd s'"
      "pages_inv K P s' (insert pgd F)" "pgd \<notin> F" "pool_at s' = pool_at s"
      "\<And>v. pgd_index v \<in> user_pges \<Longrightarrow> arch_aspace_virt_to_phys s' pgd v = Inl ENOENT"
  using assms
proof (cases rule: arch_aspace_create_cases)
  case (root pgd s1 s')
  have inv: "kmem_inv s K (P \<union> page_block s ` F)" and dm: "direct_mapped (kmem_pool s)"
    using assms(1) by (auto simp: pages_inv_def)
  have "unat (0 :: u64) + 12 \<le> pool_order (kmem_pool s)" using dm by (simp add: direct_mapped_def)
  with inv have "pool_at s1 = pool_at s"
  proof (cases rule: kmem_get_pages_cases)
    case (block p s2)
    then have "s1 = s2" using root(5) by simp
    then show ?thesis using pool_at_eqI [OF block(9,10)] by simp
  qed (use root(5) in simp)
  then have "pool_at s' = pool_at s" using root(6) by (simp add: pool_at_def kmem_pool_def)
  moreover have "arch_aspace_virt_to_phys s' pgd v = Inl ENOENT" if "pgd_index v \<in> user_pges" for v
    using root(3) [of "pgd_index v"] that by (simp add: arch_aspace_virt_to_phys_def Let_def)
  ultimately show thesis using root by (intro that(2)) blast+
qed (rule that(1))

lemma aspace_create_cases:
  assumes ok: "aspaces_ok M K P F cur \<sigma>"
    and kern: "id_request = KERNEL_ASPACE_ID \<longrightarrow> lookup_and_lock \<sigma> KERNEL_ASPACE_ID = None"
  obtains (taken) nxt where "aspace_create M cur \<sigma> id_request name = Some (Inl EEXIST, \<sigma>\<lparr>aspace_next_id := nxt\<rparr>)"
      "uaspace_id nxt" "id_taken \<sigma> id_request"
  | (nomem) \<sigma>' cs K' where "aspace_create M cur \<sigma> id_request name = Some (Inl ENOMEM, \<sigma>')"
      "as_table \<sigma>' = as_table \<sigma>" "uaspace_id (aspace_next_id \<sigma>')" "children_added cur cs (kptr (kheap \<sigma>) ` K) \<sigma> \<sigma>'"
      "K \<subseteq> K'" "pages_inv K' P (kheap \<sigma>') F" "pool_at (kheap \<sigma>') = pool_at (kheap \<sigma>)" "\<not> id_taken \<sigma> id_request"
  | (created) \<sigma>' i b c pgd where "aspace_create M cur \<sigma> id_request name = Some (Inr i, \<sigma>')"
      "lookup_and_lock \<sigma> i = None" "if id_request = ANY_ID then uaspace_id i else i = id_request"
      "b \<notin> K" "c \<notin> insert b K" "as_table \<sigma>' = htable_add (as_table \<sigma>) (i, kptr (kheap \<sigma>) b)" "uaspace_id (aspace_next_id \<sigma>')"
      "children_added cur [kptr (kheap \<sigma>) b] (kptr (kheap \<sigma>) ` K) \<sigma> \<sigma>'"
      "aspaces \<sigma>' (kptr (kheap \<sigma>) b) = (new_aspace M (kptr (kheap \<sigma>) b) i name cur)
         \<lparr>region_list := [kernel_rgn (kptr (kheap \<sigma>) c)], arch_pgd := pgd\<rparr>"
      "page_tables (insert c (insert b K)) P user_pges F pgd (kheap \<sigma>')" "pgd \<notin> F"
      "pages_inv (insert c (insert b K)) P (kheap \<sigma>') (insert pgd F)" "pool_at (kheap \<sigma>') = pool_at (kheap \<sigma>)"
      "\<And>v. pgd_index v \<in> user_pges \<Longrightarrow> arch_aspace_virt_to_phys (kheap \<sigma>') pgd v = Inl ENOENT"
proof -
  note A = ok [unfolded aspaces_ok_def]
  have hp: "pages_inv K P (kheap \<sigma>) F" "bootstrap_pgd M \<in> F" "PAGE_SIZE AND pagesz_mask M = PAGE_SIZE"
    and fit: "unat (sizeof_aspace M) + 16 \<le> 2 ^ pool_order (kmem_pool (kheap \<sigma>))"
      "unat sizeof_region + 16 \<le> 2 ^ pool_order (kmem_pool (kheap \<sigma>))"
    and cur: "cur \<in> kptr (kheap \<sigma>) ` K" and nx: "uaspace_id (aspace_next_id \<sigma>)" using A by (auto simp: table_ok_def)
  from pick_id_spec [OF nx kern [rule_format]] obtain i nxt where pick: "pick_id \<sigma> id_request = Some (i, \<sigma>\<lparr>aspace_next_id := nxt\<rparr>)" "uaspace_id nxt"
    "if id_taken \<sigma> id_request then id_request \<noteq> KERNEL_ASPACE_ID \<and> i = ERROR_ID
     else i \<noteq> ERROR_ID \<and> lookup_and_lock \<sigma> i = None \<and> (if id_request = ANY_ID then uaspace_id i else i = id_request)"
    by blast
  show thesis
  proof (cases "id_taken \<sigma> id_request")
    case True
    with pick show thesis by (intro taken) (auto simp: aspace_create_def)
  next
    case False
    then have i: "i \<noteq> ERROR_ID" "lookup_and_lock \<sigma> i = None" "if id_request = ANY_ID then uaspace_id i else i = id_request"
      using pick(3) by auto
    note unf = aspace_create_def pick(1) Option.bind.simps prod.case i(1) simp_thms if_False
    show thesis using hp(1) fit(1)
    proof (cases rule: pages_kmem_alloc)
      case fail
      have "children_added cur [] (kptr (kheap \<sigma>) ` K) \<sigma> (\<sigma>\<lparr>aspace_next_id := nxt, kheap := kheap \<sigma>\<rparr>)" by (simp add: children_added_def)
      then show thesis using fail pick hp(1) i(1) False
        by (intro nomem [of "\<sigma>\<lparr>aspace_next_id := nxt, kheap := kheap \<sigma>\<rparr>" "[]" K]) (simp_all add: aspace_create_def)
    next
      case (block b s1)
      let ?p = "kptr (kheap \<sigma>) b" and ?a = "new_aspace M (kptr (kheap \<sigma>) b) i name cur"
      let ?\<sigma>1 = "add_child cur ?p (set_aspace ?p ?a (\<sigma>\<lparr>aspace_next_id := nxt, kheap := s1\<rparr>))"
      have rl: "region_list ?a = []" by (simp add: new_aspace_def)
      have k1: "kptr s1 = kptr (kheap \<sigma>)" by (rule kptr_pool_at [OF block(6)])
      have fresh: "?p \<notin> kptr (kheap \<sigma>) ` K"
        using kptr_inj [OF block(4), of b] block(3) unfolding k1 by auto
      have ch: "children_added cur [?p] (kptr (kheap \<sigma>) ` K) \<sigma> ((set_aspace ?p a' ?\<sigma>1)\<lparr>kheap := s', as_table := t\<rparr>)" for a' s' t
        unfolding children_added_def
      proof
        fix q assume "q \<in> kptr (kheap \<sigma>) ` K"
        then have "q \<noteq> ?p" "cur \<noteq> ?p" using fresh cur by metis+
        then show "aspaces ((set_aspace ?p a' ?\<sigma>1)\<lparr>kheap := s', as_table := t\<rparr>) q =
            (if q = cur then (aspaces \<sigma> q)\<lparr>child_list := child_list (aspaces \<sigma> q) @ [?p]\<rparr> else aspaces \<sigma> q)"
          by (simp add: add_child_def set_aspace_def)
      qed
      note run = aspace_create_def pick(1) i(1) block(1,2) add_kernel_region [OF rl hp(3)]
      have fit2: "unat sizeof_region + 16 \<le> 2 ^ pool_order (kmem_pool s1)" using fit(2) block(6) by (simp add: pool_at_def)
      show thesis using block(4) fit2
      proof (cases rule: pages_kmem_alloc)
        case fail
        obtain s2 where f: "kmem_free s1 ?p = Some s2" "pages_inv (insert b K - {b}) P s2 F" "pool_at s2 = pool_at s1"
          using pages_kmem_free [OF block(4) insertI1] unfolding k1 by blast
        let ?\<sigma>' = "(set_aspace ?p ?a ?\<sigma>1)\<lparr>kheap := s2, as_table := as_table \<sigma>\<rparr>"
        have "aspace_create M cur \<sigma> id_request name = Some (Inl ENOMEM, ?\<sigma>')"
          using f(1) fail by (simp add: run) (simp add: add_child_def set_aspace_def)
        moreover have "pages_inv K P s2 F" using f(2) block(3) by simp
        ultimately show thesis using f(3) block(6) pick(2) False ch [where a' = ?a and s' = s2 and t = "as_table \<sigma>"]
          by (intro nomem [of ?\<sigma>' "[?p]" K]) (simp_all add: add_child_def set_aspace_def)
      next
        case (block c s2)
        note alloc = block and b = \<open>b \<notin> K\<close>
        let ?q = "kptr (kheap \<sigma>) c" and ?a2 = "?a\<lparr>region_list := [kernel_rgn (kptr (kheap \<sigma>) c)]\<rparr>"
        have k2: "kptr s2 = kptr (kheap \<sigma>)" using kptr_pool_at [OF block(6)] k1 by simp
        show thesis using block(4) hp(2)
        proof (cases rule: pages_create)
          case fail
          obtain s3 where f: "kmem_free s2 ?p = Some s3" "pages_inv (insert c (insert b K) - {b}) P s3 F" "pool_at s3 = pool_at s2"
            using pages_kmem_free [OF block(4), of b] unfolding k2 by blast
          let ?\<sigma>' = "(set_aspace ?p ?a2 ?\<sigma>1)\<lparr>kheap := s3, as_table := as_table \<sigma>\<rparr>"
          have "aspace_create M cur \<sigma> id_request name = Some (Inl ENOMEM, ?\<sigma>')"
            using f(1) fail alloc(1,2) by (simp add: run k1) (simp add: add_child_def set_aspace_def)
          moreover have "K \<subseteq> insert c (insert b K) - {b}" using b by blast
          ultimately show thesis using f(2,3) alloc(6) \<open>pool_at s1 = pool_at (kheap \<sigma>)\<close> pick(2) False
              ch [where a' = ?a2 and s' = s3 and t = "as_table \<sigma>"]
            by (intro nomem [of ?\<sigma>' "[?p]"]) (simp_all add: add_child_def set_aspace_def)
        next
          case (root pgd s3)
          let ?\<sigma>' = "(set_aspace ?p (?a2\<lparr>arch_pgd := pgd\<rparr>) ?\<sigma>1)\<lparr>kheap := s3, as_table := htable_add (as_table \<sigma>) (i, ?p)\<rparr>"
          have "aspace_create M cur \<sigma> id_request name = Some (Inr i, ?\<sigma>')"
            using root(1) alloc(1,2) by (simp add: run k1) (simp add: add_child_def set_aspace_def)
          then show thesis
          proof (rule created [OF _ i(2,3) b alloc(3)])
            show "children_added cur [?p] (kptr (kheap \<sigma>) ` K) \<sigma> ?\<sigma>'" by (rule ch)
          qed (use root alloc(6) \<open>pool_at s1 = pool_at (kheap \<sigma>)\<close> pick(2) in \<open>simp_all add: add_child_def set_aspace_def\<close>)
        qed
      qed
    qed
  qed
qed

lemma table_ok_add:
  assumes ok: "table_ok \<sigma>" and new: "lookup_and_lock \<sigma> i = None" and t: "as_table \<sigma>' = htable_add (as_table \<sigma>) (i, p)"
    and nx: "uaspace_id (aspace_next_id \<sigma>')" and id: "as_id (aspaces \<sigma>' p) = i"
    and old: "\<And>q. q \<in> snd ` set (ht_objs (as_table \<sigma>)) \<Longrightarrow> as_id (aspaces \<sigma>' q) = as_id (aspaces \<sigma> q)"
  shows "table_ok \<sigma>'" "set (ht_objs (as_table \<sigma>')) = insert (i, p) (set (ht_objs (as_table \<sigma>)))"
    "lookup_and_lock \<sigma>' = (lookup_and_lock \<sigma>)(i \<mapsto> p)"
proof -
  let ?h = "as_table \<sigma>"
  have h: "ht_ok ?h \<and> ht_unique ?h" "obj2key ?h = fst" "\<And>j q. (j, q) \<in> set (ht_objs ?h) \<Longrightarrow> as_id (aspaces \<sigma> q) = j"
    using ok by (auto simp: table_ok_def)
  have key: "obj2key ?h (i, p) \<notin> obj2key ?h ` set (ht_objs ?h)"
    using lookup_iff(1) [OF ok, of i] new unfolding h(2) by auto
  note a = htable.add_new [OF h(1) key]
  show objs: "set (ht_objs (as_table \<sigma>')) = insert (i, p) (set (ht_objs ?h))" using a by (simp add: t)
  have "as_id (aspaces \<sigma>' q) = j" if "(j, q) \<in> set (ht_objs ?h)" for j q
    using old [of q] h(3) [OF that] that by (force intro: rev_image_eqI)
  then show "table_ok \<sigma>'" using a h(2) nx id objs unfolding table_ok_def t by auto
  show "lookup_and_lock \<sigma>' = (lookup_and_lock \<sigma>)(i \<mapsto> p)"
    using htable.lookup_add [OF h(1) key] by (auto simp: lookup_and_lock_def t h(2) fun_eq_iff)
qed

lemma aspaces_ok_same_table:
  assumes ok: "aspaces_ok M K P F cur \<sigma>" and same: "as_table \<sigma>' = as_table \<sigma>" "uaspace_id (aspace_next_id \<sigma>')"
    "children_added cur cs (kptr (kheap \<sigma>) ` K) \<sigma> \<sigma>'" "pool_at (kheap \<sigma>') = pool_at (kheap \<sigma>)"
    and K': "K \<subseteq> K'" "pages_inv K' P (kheap \<sigma>') F"
  shows "aspaces_ok M K' P F cur \<sigma>'" "lookup_and_lock \<sigma>' = lookup_and_lock \<sigma>"
proof -
  note A = ok [unfolded aspaces_ok_def]
  have ids: "as_id (aspaces \<sigma>' p) = i" if "(i, p) \<in> set (ht_objs (as_table \<sigma>))" for i p
  proof -
    have "p \<in> kptr (kheap \<sigma>) ` K" using A that by force
    with children_added_id [OF same(3)] A that show ?thesis by (auto simp: table_ok_def)
  qed
  have "table_ok \<sigma>'" using A same(2) ids unfolding table_ok_def same(1) by auto
  moreover have "kptr (kheap \<sigma>) ` K \<subseteq> kptr (kheap \<sigma>') ` K'" using K'(1) kptr_pool_at [OF same(4)] by auto
  then have "snd ` set (ht_objs (as_table \<sigma>)) \<subseteq> kptr (kheap \<sigma>') ` K'" "cur \<in> kptr (kheap \<sigma>') ` K'" using A by blast+
  ultimately show "aspaces_ok M K' P F cur \<sigma>'" using A K'(2) same(4) unfolding aspaces_ok_def same(1) by (simp add: pool_at_def)
  show "lookup_and_lock \<sigma>' = lookup_and_lock \<sigma>" by (simp add: lookup_and_lock_def same(1) fun_eq_iff)
qed

lemma aspaces_ok_created:
  assumes ok: "aspaces_ok M K P F cur \<sigma>" and new: "lookup_and_lock \<sigma> i = None"
    and t: "as_table \<sigma>' = htable_add (as_table \<sigma>) (i, kptr (kheap \<sigma>) b)" "uaspace_id (aspace_next_id \<sigma>')"
    "children_added cur cs (kptr (kheap \<sigma>) ` K) \<sigma> \<sigma>'" "as_id (aspaces \<sigma>' (kptr (kheap \<sigma>) b)) = i"
    and h: "pages_inv (insert c (insert b K)) P (kheap \<sigma>') (insert pgd F)" "pool_at (kheap \<sigma>') = pool_at (kheap \<sigma>)"
  shows "aspaces_ok M (insert c (insert b K)) P (insert pgd F) cur \<sigma>'"
    "lookup_and_lock \<sigma>' = (lookup_and_lock \<sigma>)(i \<mapsto> kptr (kheap \<sigma>) b)"
proof -
  note A = ok [unfolded aspaces_ok_def]
  have tok: "table_ok \<sigma>" and sub: "snd ` set (ht_objs (as_table \<sigma>)) \<subseteq> kptr (kheap \<sigma>) ` K" using A by blast+
  have old: "as_id (aspaces \<sigma>' q) = as_id (aspaces \<sigma> q)" if "q \<in> snd ` set (ht_objs (as_table \<sigma>))" for q
    using children_added_id [OF t(3)] sub that by blast
  note T = table_ok_add [OF tok new t(1,2,4) old]
  show "aspaces_ok M (insert c (insert b K)) P (insert pgd F) cur \<sigma>'"
    using A T(1,2) h kptr_pool_at [OF h(2)] unfolding aspaces_ok_def by (auto simp: pool_at_def)
  show "lookup_and_lock \<sigma>' = (lookup_and_lock \<sigma>)(i \<mapsto> kptr (kheap \<sigma>) b)" by (rule T(3))
qed


section \<open>Destruction\<close>

lemma page_tables_kmem_free:
  assumes "page_tables K P own F pgd s" "b \<in> K"
  shows "\<exists>s'. kmem_free s (kptr s b) = Some s' \<and> page_tables (K - {b}) P own F pgd s' \<and> pool_at s' = pool_at s"
proof -
  obtain T where T: "owns K P s own T F" "T [] = Some pgd" using assms(1) by (auto simp: page_tables_def)
  note O = pt_ownsD [OF T(1)]
  from pages_kmem_free [OF O(1) assms(2)] obtain s' where
    f: "kmem_free s (kptr s b) = Some s'" "pages_inv (K - {b}) P s' (F \<union> ran T)" "pool_at s' = pool_at s"
      "\<And>c i. c \<in> F \<union> ran T \<Longrightarrow> i < 512 \<Longrightarrow> pt_read s' c i = pt_read s c i" by blast
  have "pt_inv pt_read s' own T"
  proof (rule pt_inv_entries [OF O(3)])
    fix \<pi> a i assume a: "T \<pi> = Some a" "length \<pi> < 3" "i < 512" "hd (\<pi> @ [i]) \<in> own"
    with pt_invD(7) [OF O(3) a] f(4) [OF O(4) [OF a(1)] a(3)]
    show "T (\<pi> @ [i]) = (if is_table (length \<pi>) (pt_read s' a i) then Some (child (pt_read s' a i)) else None)" by simp
  qed
  then have "owns (K - {b}) P s' own T F" using f(2) O(2) by (simp add: pt_owns_def)
  then show ?thesis using f(1,3) T(2) by (auto simp: page_tables_def)
qed

lemma table_ok_del:
  assumes ok: "table_ok \<sigma>" and x: "lookup_and_lock \<sigma> i = Some p"
    and t: "as_table \<sigma>' = snd (htable_del (as_table \<sigma>) (i, p))" "uaspace_id (aspace_next_id \<sigma>')"
    and old: "\<And>q. q \<in> snd ` (set (ht_objs (as_table \<sigma>)) - {(i, p)}) \<Longrightarrow> as_id (aspaces \<sigma>' q) = as_id (aspaces \<sigma> q)"
  shows "table_ok \<sigma>'" "set (ht_objs (as_table \<sigma>')) = set (ht_objs (as_table \<sigma>)) - {(i, p)}"
    "lookup_and_lock \<sigma>' = (lookup_and_lock \<sigma>)(i := None)"
proof -
  let ?h = "as_table \<sigma>"
  have h: "ht_ok ?h \<and> ht_unique ?h" "obj2key ?h = fst" "\<And>j q. (j, q) \<in> set (ht_objs ?h) \<Longrightarrow> as_id (aspaces \<sigma> q) = j"
    using ok by (auto simp: table_ok_def)
  have m: "(i, p) \<in> set (ht_objs ?h)" using lookup_iff(1) [OF ok] x by blast
  obtain ht' where d: "htable_del ?h (i, p) = (OK, ht')" "ht_ok ht' \<and> ht_unique ht'" "set (ht_objs ht') = set (ht_objs ?h) - {(i, p)}"
    "obj2key ht' = obj2key ?h" using htable.del_present [OF h(1) m] by blast
  have t': "as_table \<sigma>' = ht'" using t(1) d(1) by simp
  show objs: "set (ht_objs (as_table \<sigma>')) = set (ht_objs ?h) - {(i, p)}" using d(3) by (simp add: t')
  have "as_id (aspaces \<sigma>' q) = j" if "(j, q) \<in> set (ht_objs ht')" for j q
    using old [of q] h(3) [of j q] that d(3) by (force intro: rev_image_eqI)
  then show "table_ok \<sigma>'" using d(2,4) h(2) t(2) unfolding table_ok_def t' by auto
  show "lookup_and_lock \<sigma>' = (lookup_and_lock \<sigma>)(i := None)"
    using htable.lookup_del [OF h(1) m d(1)] by (auto simp: lookup_and_lock_def t' h(2) fun_eq_iff)
qed

text \<open>Destruction is refused, with nothing changed, for an id that is not in the table and for an address
  space that is in use or has children.\<close>

lemma aspace_destroy_refused:
  assumes "table_ok \<sigma>"
  shows "lookup_and_lock \<sigma> i = None \<Longrightarrow> aspace_destroy \<sigma> i = Some (Err EINVAL, \<sigma>)"
    "lookup_and_lock \<sigma> i = Some p \<Longrightarrow> refcnt (aspaces \<sigma> p) \<noteq> 0 \<or> child_list (aspaces \<sigma> p) \<noteq> [] \<Longrightarrow>
       aspace_destroy \<sigma> i = Some (Err EBUSY, \<sigma>)"
  using lookup_iff(2) [OF assms, of i] by (simp_all add: aspace_destroy_def Let_def)

text \<open>Destruction of an address space with the regions \<^verbatim>\<open>rs\<close>, none of them a SMARTMAP region, in heap
  blocks \<^verbatim>\<open>B\<close>.\<close>

lemma drop_regions_frees:
  assumes "page_tables K P own F pgd (kheap \<sigma>)" "map vr_ptr rs = map (kptr (kheap \<sigma>)) B" "distinct B" "set B \<subseteq> K"
    and "\<forall>r \<in> set rs. vr_flags r AND VM_SMARTMAP = 0"
  shows "\<exists>s'. drop_regions \<sigma> rs = Some (\<sigma>\<lparr>kheap := s'\<rparr>) \<and> page_tables (K - set B) P own F pgd s' \<and> pool_at s' = pool_at (kheap \<sigma>)"
  using assms
proof (induction rs arbitrary: \<sigma> B K)
  case Nil
  then have "drop_regions \<sigma> [] = Some (\<sigma>\<lparr>kheap := kheap \<sigma>\<rparr>)" "B = []" by simp_all
  then show ?case using Nil(1) by (intro exI [of _ "kheap \<sigma>"]) simp
next
  case (Cons r rs)
  then obtain b B' where B: "B = b # B'" "vr_ptr r = kptr (kheap \<sigma>) b" "map vr_ptr rs = map (kptr (kheap \<sigma>)) B'"
    by (cases B) auto
  then have "b \<in> K" using Cons by simp
  from page_tables_kmem_free [OF Cons(2) this] obtain s1 where
    f: "kmem_free (kheap \<sigma>) (kptr (kheap \<sigma>) b) = Some s1" "page_tables (K - {b}) P own F pgd s1" "pool_at s1 = pool_at (kheap \<sigma>)" by blast
  have "\<exists>s'. drop_regions (\<sigma>\<lparr>kheap := s1\<rparr>) rs = Some (\<sigma>\<lparr>kheap := s1\<rparr>\<lparr>kheap := s'\<rparr>) \<and>
      page_tables (K - {b} - set B') P own F pgd s' \<and> pool_at s' = pool_at (kheap (\<sigma>\<lparr>kheap := s1\<rparr>))"
    using Cons B f(2) kptr_pool_at [OF f(3)] by (intro Cons(1)) auto
  then obtain s' where s': "drop_regions (\<sigma>\<lparr>kheap := s1\<rparr>) rs = Some (\<sigma>\<lparr>kheap := s'\<rparr>)"
      "page_tables (K - {b} - set B') P own F pgd s'" "pool_at s' = pool_at s1" by auto
  have "K - {b} - set B' = K - set B" using B(1) by auto
  moreover have "drop_regions \<sigma> (r # rs) = Some (\<sigma>\<lparr>kheap := s'\<rparr>)" using s'(1) f(1) B(2) Cons(6) by simp
  ultimately show ?case using s'(2,3) f(3) by auto
qed

text \<open>An address space that nobody uses: no reference and no child, its regions ordinary ones in the heap
  blocks \<^verbatim>\<open>B\<close>, its page tables its own.\<close>

definition idle_aspace :: "block set \<Rightarrow> block set \<Rightarrow> u64 set \<Rightarrow> block list \<Rightarrow> kmem_state \<Rightarrow> aspace \<Rightarrow> bool" where
  "idle_aspace K P F B s a \<longleftrightarrow> refcnt a = 0 \<and> child_list a = [] \<and> map vr_ptr (region_list a) = map (kptr s) B \<and> distinct B \<and>
     set B \<subseteq> K \<and> (\<forall>r \<in> set (region_list a). vr_flags r AND VM_SMARTMAP = 0) \<and> page_tables K P user_pges F (arch_pgd a) s"

lemma aspace_destroy_frees:
  assumes ok: "table_ok \<sigma>" and x: "lookup_and_lock \<sigma> i = Some p" and idle: "idle_aspace K P F B (kheap \<sigma>) (aspaces \<sigma> p)"
    and b: "p = kptr (kheap \<sigma>) b" "b \<in> K" "b \<notin> set B"
  shows "\<exists>s'. aspace_destroy \<sigma> i = Some (OK, (del_child (as_parent (aspaces \<sigma> p)) p
      (\<sigma>\<lparr>as_table := snd (htable_del (as_table \<sigma>) (i, p))\<rparr>))\<lparr>kheap := s'\<rparr>) \<and>
    pages_inv (K - set B - {b}) P s' F \<and> pool_at s' = pool_at (kheap \<sigma>)"
proof -
  let ?a = "aspaces \<sigma> p"
  let ?\<sigma>1 = "del_child (as_parent ?a) p (\<sigma>\<lparr>as_table := snd (htable_del (as_table \<sigma>) (i, p))\<rparr>)"
  note I = idle [unfolded idle_aspace_def]
  have k1: "kheap ?\<sigma>1 = kheap \<sigma>" by (simp add: del_child_def set_aspace_def)
  have "\<exists>s'. drop_regions ?\<sigma>1 (region_list ?a) = Some (?\<sigma>1\<lparr>kheap := s'\<rparr>) \<and>
      page_tables (K - set B) P user_pges F (arch_pgd ?a) s' \<and> pool_at s' = pool_at (kheap ?\<sigma>1)"
    by (rule drop_regions_frees) (use I in \<open>simp_all add: k1\<close>)
  then obtain s1 where d: "drop_regions ?\<sigma>1 (region_list ?a) = Some (?\<sigma>1\<lparr>kheap := s1\<rparr>)"
    "page_tables (K - set B) P user_pges F (arch_pgd ?a) s1" "pool_at s1 = pool_at (kheap \<sigma>)" by (auto simp: k1)
  from destroy_frees [OF d(2)] obtain s2 where s2: "arch_aspace_destroy s1 (arch_pgd ?a) = Some s2" "pages_inv (K - set B) P s2 F" by blast
  have at: "pool_at s2 = pool_at (kheap \<sigma>)" using arch_aspace_destroy_pool_at [OF s2(1)] d(3) by simp
  have "b \<in> K - set B" using b by simp
  from pages_kmem_free [OF s2(2) this] obtain s3 where
    s3: "kmem_free s2 (kptr s2 b) = Some s3" "pages_inv (K - set B - {b}) P s3 F" "pool_at s3 = pool_at s2" by blast
  have "aspace_destroy \<sigma> i = Some (OK, ?\<sigma>1\<lparr>kheap := s3\<rparr>)"
    using I d(1) s2(1) s3(1) lookup_iff(2) [OF ok, of i] x b(1) kptr_pool_at [OF at] by (simp add: aspace_destroy_def Let_def)
  with s3 at show ?thesis by auto
qed

text \<open>C25: Destroying an address space is refused, with nothing changed, for an unknown id (\<^verbatim>\<open>EINVAL\<close>) and for
  an address space that is referenced or has children (\<^verbatim>\<open>EBUSY\<close>). Otherwise, if it has no SMARTMAP
  regions, it never panics: the id is free again and no other entry of the table changes, it is no longer
  a child of its parent, no other address space changes, and the heap gets back the object, all its
  regions and all its page tables, each once, and nothing else.\<close>

theorem aspace_destroy_correct:
  assumes "table_ok \<sigma>"
  shows "case lookup_and_lock \<sigma> i of
      None \<Rightarrow> aspace_destroy \<sigma> i = Some (Err EINVAL, \<sigma>)
    | Some p \<Rightarrow>
        (refcnt (aspaces \<sigma> p) \<noteq> 0 \<or> child_list (aspaces \<sigma> p) \<noteq> [] \<longrightarrow> aspace_destroy \<sigma> i = Some (Err EBUSY, \<sigma>)) \<and>
        (\<forall>b. idle_aspace K P F B (kheap \<sigma>) (aspaces \<sigma> p) \<and> p = kptr (kheap \<sigma>) b \<and> b \<in> K \<and> b \<notin> set B \<longrightarrow>
           (\<exists>\<sigma>'. aspace_destroy \<sigma> i = Some (OK, \<sigma>') \<and> table_ok \<sigma>' \<and> lookup_and_lock \<sigma>' = (lookup_and_lock \<sigma>)(i := None) \<and>
              (\<forall>q. aspaces \<sigma>' q = (if q = as_parent (aspaces \<sigma> p)
                 then (aspaces \<sigma> q)\<lparr>child_list := remove1 p (child_list (aspaces \<sigma> q))\<rparr> else aspaces \<sigma> q)) \<and>
              pages_inv (K - set B - {b}) P (kheap \<sigma>') F))"
proof (cases "lookup_and_lock \<sigma> i")
  case (Some p)
  let ?a = "aspaces \<sigma> p"
  have "\<exists>\<sigma>'. aspace_destroy \<sigma> i = Some (OK, \<sigma>') \<and> table_ok \<sigma>' \<and> lookup_and_lock \<sigma>' = (lookup_and_lock \<sigma>)(i := None) \<and>
      (\<forall>q. aspaces \<sigma>' q = (if q = as_parent ?a then (aspaces \<sigma> q)\<lparr>child_list := remove1 p (child_list (aspaces \<sigma> q))\<rparr> else aspaces \<sigma> q)) \<and>
      pages_inv (K - set B - {b}) P (kheap \<sigma>') F"
    if h: "idle_aspace K P F B (kheap \<sigma>) ?a" "p = kptr (kheap \<sigma>) b" "b \<in> K" "b \<notin> set B"  for b
  proof -
    from aspace_destroy_frees [OF assms Some h] obtain s' where
      d: "aspace_destroy \<sigma> i = Some (OK, (del_child (as_parent ?a) p (\<sigma>\<lparr>as_table := snd (htable_del (as_table \<sigma>) (i, p))\<rparr>))\<lparr>kheap := s'\<rparr>)"
      "pages_inv (K - set B - {b}) P s' F" by blast
    let ?\<sigma>' = "(del_child (as_parent ?a) p (\<sigma>\<lparr>as_table := snd (htable_del (as_table \<sigma>) (i, p))\<rparr>))\<lparr>kheap := s'\<rparr>"
    have q: "aspaces ?\<sigma>' q = (if q = as_parent ?a then (aspaces \<sigma> q)\<lparr>child_list := remove1 p (child_list (aspaces \<sigma> q))\<rparr> else aspaces \<sigma> q)" for q
      by (simp add: del_child_def set_aspace_def)
    have "table_ok ?\<sigma>'" "lookup_and_lock ?\<sigma>' = (lookup_and_lock \<sigma>)(i := None)"
      by (rule table_ok_del [OF assms Some]; use assms in \<open>simp add: q table_ok_def\<close>; simp add: del_child_def set_aspace_def)+
    then show ?thesis using d q by (intro exI [of _ ?\<sigma>']) simp
  qed
  then show ?thesis unfolding Some option.case using aspace_destroy_refused(2) [OF assms Some] by blast
qed (use aspace_destroy_refused(1) [OF assms] in simp)

section \<open>A small system\<close>

definition small_machine :: machine where
  "small_machine = \<lparr>sizeof_aspace = 1000, pagesz_mask = VM_PAGE_4KB, cpu_present_map = (\<lambda>_. 1), nr_cpus = 4,
     bootstrap_pgd = boot_pgd\<rparr>"

definition boot_cur :: u64 where "boot_cur = fst (the (kmem_alloc boot_heap 1000))"

definition cur_heap :: kmem_state where "cur_heap = snd (the (kmem_alloc boot_heap 1000))"

definition boot_sys :: aspace_sys where
  "boot_sys = \<lparr>kheap = cur_heap, aspaces = (\<lambda>_. some_aspace []),
     as_table = \<lparr>ht_hash = htable_id_hash, key_compare = htable_id_key_compare, obj2key = fst, num_entries = 0,
       ht_order = 7, tbl = (\<lambda>_. []), ht_ptr = 65552\<rparr>, aspace_next_id = UASPACE_MIN_ID\<rparr>"

lemma boot_allocs:
  "map_option (\<lambda>(p, s). p \<noteq> 0) (kmem_alloc boot_heap 1000) = Some True"
  "map_option (\<lambda>(p, s). p \<noteq> 0) (kmem_alloc cur_heap 1000) = Some True"
  "map_option (\<lambda>(p, s). p \<noteq> 0) (kmem_alloc (snd (the (kmem_alloc cur_heap 1000))) sizeof_region) = Some True"
  "map_option (\<lambda>(p, s). p \<noteq> 0) (kmem_get_pages (snd (the (kmem_alloc (snd (the (kmem_alloc cur_heap 1000))) sizeof_region))) 0) = Some True"
  by code_simp+

lemma boot_lookup: "htable_lookup (as_table boot_sys) i = None"
  by (simp add: boot_sys_def htable_lookup_def)

lemma boot_pick: "pick_id boot_sys ANY_ID = Some (2, boot_sys\<lparr>aspace_next_id := 3\<rparr>)"
  by (simp add: pick_id_def id_alloc_any_def id_search.simps boot_lookup)
    (simp add: boot_sys_def KERNEL_ASPACE_ID_def ANY_ID_def UASPACE_MIN_ID_def UASPACE_MAX_ID_def id_inc_def)

lemma boot_create: "\<exists>\<sigma>'. aspace_create small_machine boot_cur boot_sys ANY_ID (Some ''init'') = Some (Inr 2, \<sigma>')"
proof -
  obtain p s1 where a: "kmem_alloc cur_heap 1000 = Some (p, s1)" "p \<noteq> 0" using boot_allocs(2) by auto
  then obtain q s2 where b: "kmem_alloc s1 sizeof_region = Some (q, s2)" "q \<noteq> 0" using boot_allocs(3) by auto
  with a obtain g s3 where c: "kmem_get_pages s2 0 = Some (g, s3)" "g \<noteq> 0" using boot_allocs(4) by auto
  have m: "PAGE_SIZE AND VM_PAGE_4KB = PAGE_SIZE" by (simp add: PAGE_SIZE_def VM_PAGE_4KB_def)
  have "kheap (boot_sys\<lparr>aspace_next_id := 3\<rparr>) = cur_heap" "2 \<noteq> ERROR_ID"
    by (simp_all add: boot_sys_def ERROR_ID_def ANY_ID_def)
  then show ?thesis using a b c
    by (simp add: aspace_create_def boot_pick small_machine_def add_kernel_region [OF _ m] new_aspace_def arch_aspace_create_def Let_def)
qed

lemma boot_sys_ok: "\<exists>b. aspaces_ok small_machine {b} {} {boot_pgd} boot_cur boot_sys"
proof -
  have g: "pool_order (kmem_pool boot_heap) = 16" by code_simp
  then have "unat (1000 :: u64) + 16 \<le> 2 ^ pool_order (kmem_pool boot_heap)" by simp
  with boot_heap_pages(1) show ?thesis
  proof (cases rule: pages_kmem_alloc)
    case (block b s')
    have s: "boot_cur = kptr boot_heap b" "cur_heap = s'" using block(1) by (simp_all add: boot_cur_def cur_heap_def)
    have objs: "ht_objs (as_table boot_sys) = []" by (simp add: boot_sys_def ht_objs_def)
    have "key2head (as_table boot_sys) k < 2 ^ 7" for k
      using htable_id_hash_bound [of 7 k] by (simp add: boot_sys_def key2head_def)
    then have "ht_ok (as_table boot_sys)" using objs by (simp add: boot_sys_def ht_ok_def)
    moreover have "ht_unique (as_table boot_sys)" "obj2key (as_table boot_sys) = fst" "uaspace_id (aspace_next_id boot_sys)"
      using objs by (simp_all add: ht_unique_def boot_sys_def uaspace_id_def UASPACE_MIN_ID_def UASPACE_MAX_ID_def)
    ultimately have "table_ok boot_sys" using objs by (simp add: table_ok_def)
    moreover have "kheap boot_sys = s'" by (simp add: boot_sys_def s)
    ultimately show ?thesis
      using block(4,6) g kptr_pool_at [OF block(6)] objs
      by (intro exI [of _ b]) (simp add: aspaces_ok_def s small_machine_def pool_at_def PAGE_SIZE_def VM_PAGE_4KB_def sizeof_region_def)
  qed (use boot_allocs(1) in simp)
qed

theorem id_alloc_any_correct_witness:
  "\<exists>i nxt. id_alloc_any boot_sys = Some (i, boot_sys\<lparr>aspace_next_id := nxt\<rparr>) \<and> uaspace_id i \<and> lookup_and_lock boot_sys i = None"
proof -
  have "uaspace_id (aspace_next_id boot_sys)"
    by (simp add: boot_sys_def uaspace_id_def UASPACE_MIN_ID_def UASPACE_MAX_ID_def)
  moreover from this have "\<not> (\<forall>j. uaspace_id j \<longrightarrow> lookup_and_lock boot_sys j \<noteq> None)"
    using boot_lookup by (auto simp: lookup_and_lock_def)
  ultimately show ?thesis using id_alloc_any_correct [of boot_sys] by (metis (full_types))
qed

lemma any_not_kernel: "ANY_ID = KERNEL_ASPACE_ID \<longrightarrow> lookup_and_lock boot_sys KERNEL_ASPACE_ID = None"
  by (simp add: ANY_ID_def KERNEL_ASPACE_ID_def)


text \<open>A new address space is one that can be destroyed.\<close>

lemma created_idle:
  assumes "aspaces \<sigma> p = (new_aspace M p i name cur)\<lparr>region_list := [kernel_rgn (kptr s c)], arch_pgd := pgd\<rparr>"
    and "page_tables K P user_pges F pgd s" "c \<in> K"
  shows "idle_aspace K P F [c] s (aspaces \<sigma> p)"
  using assms by (simp add: idle_aspace_def new_aspace_def kernel_rgn_def VM_KERNEL_def VM_SMARTMAP_def)

lemma aspace_created_idle:
  assumes ok: "aspaces_ok M K P F cur \<sigma>" "id_request = KERNEL_ASPACE_ID \<longrightarrow> lookup_and_lock \<sigma> KERNEL_ASPACE_ID = None"
    and run: "aspace_create M cur \<sigma> id_request name = Some (Inr i, \<sigma>')"
  obtains b c p where "table_ok \<sigma>'" "lookup_and_lock \<sigma>' i = Some p" "idle_aspace (insert c (insert b K)) P F [c] (kheap \<sigma>') (aspaces \<sigma>' p)"
    "p = kptr (kheap \<sigma>') b" "b \<noteq> c" "b \<notin> K" "c \<notin> K"
  using ok
proof (cases rule: aspace_create_cases [where name = name])
  case (created \<sigma>1 i1 b c pgd)
  then have e: "\<sigma>1 = \<sigma>'" "i1 = i" using run by simp_all
  note created = created [unfolded e]
  let ?p = "kptr (kheap \<sigma>) b"
  have k: "kptr (kheap \<sigma>') = kptr (kheap \<sigma>)" by (rule kptr_pool_at [OF created(13)])
  have "as_id (aspaces \<sigma>' ?p) = i" by (simp add: created(9) new_aspace_def)
  note ok' = aspaces_ok_created [OF ok(1) created(2,6,7,8) this created(12,13)]
  have "idle_aspace (insert c (insert b K)) P F [c] (kheap \<sigma>') (aspaces \<sigma>' (kptr (kheap \<sigma>') b))"
    by (rule created_idle [OF created(9) [folded k] created(10)]) simp
  then have "idle_aspace (insert c (insert b K)) P F [c] (kheap \<sigma>') (aspaces \<sigma>' ?p)" by (simp add: k)
  then show thesis using ok' created(4,5) k by (intro that [of ?p c b]) (auto simp: aspaces_ok_def)
qed (use run in simp_all)

theorem aspace_destroy_correct_witness:
  "\<exists>\<sigma>' \<sigma>''. aspace_create small_machine boot_cur boot_sys ANY_ID (Some ''init'') = Some (Inr 2, \<sigma>') \<and>
    aspace_destroy \<sigma>' 2 = Some (OK, \<sigma>'') \<and> lookup_and_lock \<sigma>'' 2 = None"
proof -
  obtain b0 where ok: "aspaces_ok small_machine {b0} {} {boot_pgd} boot_cur boot_sys" using boot_sys_ok by blast
  obtain \<sigma>1 where run: "aspace_create small_machine boot_cur boot_sys ANY_ID (Some ''init'') = Some (Inr 2, \<sigma>1)" using boot_create by blast
  from ok any_not_kernel run obtain b c p where
    d: "table_ok \<sigma>1" "lookup_and_lock \<sigma>1 2 = Some p" "idle_aspace (insert c (insert b {b0})) {} {boot_pgd} [c] (kheap \<sigma>1) (aspaces \<sigma>1 p)"
      "p = kptr (kheap \<sigma>1) b" "b \<noteq> c" by (rule aspace_created_idle) blast
  have "\<exists>\<sigma>''. aspace_destroy \<sigma>1 2 = Some (OK, \<sigma>'') \<and> lookup_and_lock \<sigma>'' = (lookup_and_lock \<sigma>1)(2 := None)"
    using aspace_destroy_correct [OF d(1), of 2 "insert c (insert b {b0})" "{}" "{boot_pgd}" "[c]", unfolded d(2) option.case,
        THEN conjunct2, rule_format, of b] d(3,4,5) by auto
  with run show ?thesis by auto
qed

section \<open>References\<close>

text \<open>While somebody holds a reference, the address space cannot be destroyed; giving the reference back
  restores the state.\<close>

lemma acquired_not_destroyed:
  assumes "table_ok \<sigma>" "aspace_acquire \<sigma> i = (Some p, \<sigma>')" "refcnt (aspaces \<sigma> p) \<ge> 0"
  shows "aspace_destroy \<sigma>' i = Some (Err EBUSY, \<sigma>')" "aspace_release \<sigma>' p = \<sigma>"
proof -
  have l: "lookup_and_lock \<sigma> i = Some p" and \<sigma>': "\<sigma>' = set_aspace p ((aspaces \<sigma> p)\<lparr>refcnt := refcnt (aspaces \<sigma> p) + 1\<rparr>) \<sigma>"
    using assms(2) by (auto simp: aspace_acquire_def split: option.splits)
  have "as_table \<sigma>' = as_table \<sigma>" by (simp add: \<sigma>' set_aspace_def)
  then have "lookup_and_lock \<sigma>' i = Some p" using l by (simp add: lookup_and_lock_def)
  moreover have "table_ok \<sigma>'" using assms(1) by (auto simp: table_ok_def \<sigma>' set_aspace_def)
  moreover have "refcnt (aspaces \<sigma>' p) \<noteq> 0" using assms(3) by (simp add: \<sigma>' set_aspace_def)
  ultimately show "aspace_destroy \<sigma>' i = Some (Err EBUSY, \<sigma>')" using aspace_destroy_refused(2) by blast
  show "aspace_release \<sigma>' p = \<sigma>" by (simp add: \<sigma>' aspace_release_def set_aspace_def)
qed

section \<open>Failed creation\<close>

text \<open>When memory for the kernel region or for the root table runs out, \<^verbatim>\<open>aspace_create\<close> frees the new object
  but leaves it in the list of children of the current address space, from which it is only taken by
  \<^verbatim>\<open>aspace_destroy\<close>.\<close>

lemma aspace_create_dangling_child:
  assumes "pick_id \<sigma> id_request = Some (i, \<sigma>1)" "i \<noteq> ERROR_ID" "kheap \<sigma>1 = kheap \<sigma>" "PAGE_SIZE AND pagesz_mask M = PAGE_SIZE"
    and "kmem_alloc (kheap \<sigma>) (sizeof_aspace M) = Some (p, s1)" "p \<noteq> 0" "p \<noteq> cur"
    and "kmem_alloc s1 sizeof_region = Some (0, s2)" "kmem_free s2 p = Some s3"
  shows "\<exists>\<sigma>'. aspace_create M cur \<sigma> id_request name = Some (Inl ENOMEM, \<sigma>') \<and> kheap \<sigma>' = s3 \<and> p \<in> set (child_list (aspaces \<sigma>' cur))"
proof -
  have "region_list (new_aspace M p i name cur) = []" by (simp add: new_aspace_def)
  from add_kernel_region [OF this assms(4)] assms show ?thesis
    by (simp add: aspace_create_def) (simp add: add_child_def set_aspace_def)
qed

section \<open>Waiting\<close>

definition exited :: "id_t \<Rightarrow> aspace \<Rightarrow> bool" where
  "exited child_id a \<longleftrightarrow> \<not> reaped a \<and> (child_id = ANY_ID \<or> as_id a = child_id) \<and> exiting a \<and> task_list a = []"

text \<open>A pass over the children returns an exited one that nobody has waited for yet, and marks it so that
  no later pass returns it again; it changes nothing else.\<close>

lemma scan_children_Some:
  assumes "scan_children child_id \<sigma> cs n = (m, f, Some (i, st), \<sigma>')"
  obtains c where "c \<in> set cs" "exited child_id (aspaces \<sigma> c)" "as_id (aspaces \<sigma> c) = i" "exit_status (aspaces \<sigma> c) = st"
    "\<sigma>' = set_aspace c ((aspaces \<sigma> c)\<lparr>reaped := True\<rparr>) \<sigma>" "\<not> exited child_id (aspaces \<sigma>' c)"
    "f = (child_id \<noteq> ANY_ID)" "m > n"
  using assms
proof (induction cs arbitrary: n thesis)
  case (Cons c cs)
  show ?case
  proof (cases "exited child_id (aspaces \<sigma> c)")
    case True
    then show ?thesis using Cons(3)
      by (intro Cons(2) [of c]) (auto simp: exited_def Let_def set_aspace_def split: if_splits)
  next
    case False
    then obtain n' where "scan_children child_id \<sigma> cs n' = (m, f, Some (i, st), \<sigma>')" "n' \<ge> n"
      using Cons(3) by (auto simp: exited_def Let_def split: if_splits)
    then show ?thesis by (elim Cons(1) [rotated]) (rule Cons(2), auto)
  qed
qed simp

lemma scan_children_None:
  assumes "scan_children child_id \<sigma> cs n = (m, f, None, \<sigma>')" "distinct (map (\<lambda>c. as_id (aspaces \<sigma> c)) cs)"
  shows "\<sigma>' = \<sigma> \<and> (\<forall>c \<in> set cs. \<not> exited child_id (aspaces \<sigma> c))"
  using assms
proof (induction cs arbitrary: n)
  case (Cons c cs)
  then show ?case
    by (auto simp: exited_def Let_def split: if_splits) (metis image_eqI)+
qed simp

text \<open>So the call returns the id and the status of an exited child that was not reaped before, and it is
  reaped afterwards; a call that does not block and finds no exited child changes nothing.\<close>

lemma wait4_pass_reaps:
  assumes "wait4_pass cur child_id block \<sigma> = (Reaped i st, \<sigma>')"
  obtains c where "c \<in> set (child_list (aspaces \<sigma> cur))" "exited child_id (aspaces \<sigma> c)" "as_id (aspaces \<sigma> c) = i"
    "exit_status (aspaces \<sigma> c) = st" "\<sigma>' = set_aspace c ((aspaces \<sigma> c)\<lparr>reaped := True\<rparr>) \<sigma>" "\<not> exited child_id (aspaces \<sigma>' c)"
proof -
  obtain m f where "scan_children child_id \<sigma> (child_list (aspaces \<sigma> cur)) 0 = (m, f, Some (i, st), \<sigma>')"
    using assms by (auto simp: wait4_pass_def split: prod.splits option.splits if_splits)
  then show thesis by (rule scan_children_Some) (rule that)
qed

end
