(* ===== verification/Kitten_Timer.thy ===== *)
theory Kitten_Timer
  imports Kitten_Idspace
begin

text \<open>
  The one-shot timers of \<^verbatim>\<open>kernel/timer.c\<close>: per processor a list of timers sorted by the time they expire.
  A timer is known by its address. It is linked into the list of the processor it was added on, which
  its field \<^verbatim>\<open>cpu\<close> names, so \<^verbatim>\<open>list_empty(&timer->link)\<close> is that it is not in that list. The state is an
  extensible record: the callbacks of timers act on the state of whatever extends it.

  The configuration option \<^verbatim>\<open>CONFIG_TIMER_ONESHOT\<close>, the number of the processor, the time and the meaning
  of a function pointer are arguments.

  The properties: adding and deleting keep the lists sorted; an expiry ends and calls back exactly the
  timers that are due, each once and in the order they expire. Callbacks may do what they like with the
  rest of the state and may add timers that are not due; that contract is the locale
  \<^verbatim>\<open>timer_callbacks\<close>.
\<close>

section \<open>Timers and queues\<close>

record timer =
  tm_cpu :: id_t
  tm_expires :: u64
  tm_data :: u64
  tm_function :: u64

record timer_sys =
  timers :: "u64 \<Rightarrow> timer"
  timer_list :: "id_t \<Rightarrow> u64 list"
  oneshot_timer :: "id_t \<Rightarrow> u64 option"

definition MIN_TIMER_INTERVAL :: u64 where "MIN_TIMER_INTERVAL = 10000"

definition set_timers :: "id_t \<Rightarrow> u64 list \<Rightarrow> 'a timer_sys_scheme \<Rightarrow> 'a timer_sys_scheme" where
  "set_timers c ts \<sigma> = \<sigma>\<lparr>timer_list := (timer_list \<sigma>)(c := ts)\<rparr>"

text \<open>\<^verbatim>\<open>core_timer_init\<close>; under \<^verbatim>\<open>CONFIG_TIMER_PERIODIC\<close> it also starts the periodic interrupt of the
  processor, which is not part of this state.\<close>

definition core_timer_init :: "id_t \<Rightarrow> 'a timer_sys_scheme \<Rightarrow> 'a timer_sys_scheme" where
  "core_timer_init cpu_id \<sigma> = set_timers cpu_id [] \<sigma>"

text \<open>The interval last given to \<^verbatim>\<open>arch_set_timer_oneshot\<close> on each processor is part of the state.\<close>

definition set_timer_interrupt :: "bool \<Rightarrow> id_t \<Rightarrow> u64 \<Rightarrow> 'a timer_sys_scheme \<Rightarrow> 'a timer_sys_scheme" where
  "set_timer_interrupt oneshot this_cpu now \<sigma> =
     (if oneshot then
        case timer_list \<sigma> this_cpu of
          [] \<Rightarrow> \<sigma>
        | t # _ \<Rightarrow>
            let e = tm_expires (timers \<sigma> t);
                diff = (if e > now + MIN_TIMER_INTERVAL then e - now else MIN_TIMER_INTERVAL)
            in \<sigma>\<lparr>oneshot_timer := (oneshot_timer \<sigma>)(this_cpu := Some diff)\<rparr>
      else \<sigma>)"

definition timer_add :: "bool \<Rightarrow> id_t \<Rightarrow> u64 \<Rightarrow> u64 \<Rightarrow> 'a timer_sys_scheme \<Rightarrow> 'a timer_sys_scheme" where
  "timer_add oneshot this_cpu now t \<sigma> =
     (let \<sigma> = \<sigma>\<lparr>timers := (timers \<sigma>)(t := (timers \<sigma> t)\<lparr>tm_cpu := this_cpu\<rparr>)\<rparr>;
          \<sigma> = set_timers this_cpu (link_sorted (\<lambda>x. tm_expires (timers \<sigma> x)) t (timer_list \<sigma> this_cpu)) \<sigma>
      in set_timer_interrupt oneshot this_cpu now \<sigma>)"

definition timer_pending :: "'a timer_sys_scheme \<Rightarrow> u64 \<Rightarrow> bool" where
  "timer_pending \<sigma> t \<longleftrightarrow> t \<in> set (timer_list \<sigma> (tm_cpu (timers \<sigma> t)))"

definition timer_del :: "bool \<Rightarrow> id_t \<Rightarrow> u64 \<Rightarrow> u64 \<Rightarrow> 'a timer_sys_scheme \<Rightarrow> bool \<times> 'a timer_sys_scheme" where
  "timer_del oneshot this_cpu now t \<sigma> =
     (if timer_pending \<sigma> t then
        let c = tm_cpu (timers \<sigma> t)
        in (True, set_timer_interrupt oneshot this_cpu now (set_timers c (remove1 t (timer_list \<sigma> c)) \<sigma>))
      else (False, \<sigma>))"

text \<open>\<^verbatim>\<open>timer_sleep_until\<close>: the timer \<^verbatim>\<open>t\<close> is on the stack of the caller, \<^verbatim>\<open>wakeup_fn\<close> is the address of
  \<^verbatim>\<open>wakeup_task\<close>. What happens while the task sleeps in \<^verbatim>\<open>schedule()\<close> is the argument \<^verbatim>\<open>sleep\<close>, which also
  gives the processor and the time when it runs again.\<close>

definition timer_sleep_until ::
    "bool \<Rightarrow> u64 \<Rightarrow> id_t \<Rightarrow> u64 \<Rightarrow> u64 \<Rightarrow> u64 \<Rightarrow> u64 \<Rightarrow> ('a timer_sys_scheme \<Rightarrow> id_t \<times> u64 \<times> 'a timer_sys_scheme) \<Rightarrow>
     'a timer_sys_scheme \<Rightarrow> u64 \<times> 'a timer_sys_scheme" where
  "timer_sleep_until oneshot wakeup_fn this_cpu now t cur when sleep \<sigma> =
     (let \<sigma> = \<sigma>\<lparr>timers := (timers \<sigma>)(t := \<lparr>tm_cpu = 0, tm_expires = when, tm_data = cur, tm_function = wakeup_fn\<rparr>)\<rparr>;
          (this_cpu, now, \<sigma>) = sleep (timer_add oneshot this_cpu now t \<sigma>);
          (_, \<sigma>) = timer_del oneshot this_cpu now t \<sigma>
      in (if when > now then when - now else 0, \<sigma>))"

text \<open>The loop of \<^verbatim>\<open>expire_timers\<close>: \<^verbatim>\<open>call fn data\<close> is the effect of calling the function at \<^verbatim>\<open>fn\<close>. With
  callbacks that keep adding timers that are due, it does not end.\<close>

definition fire_timer :: "(u64 \<Rightarrow> u64 \<Rightarrow> 'a timer_sys_scheme \<Rightarrow> 'a timer_sys_scheme) \<Rightarrow> id_t \<Rightarrow> u64 \<Rightarrow>
    'a timer_sys_scheme \<Rightarrow> 'a timer_sys_scheme" where
  "fire_timer call this_cpu t \<sigma> =
     (let tm = timers \<sigma> t; \<sigma> = set_timers this_cpu (remove1 t (timer_list \<sigma> this_cpu)) \<sigma>
      in if tm_function tm \<noteq> 0 then call (tm_function tm) (tm_data tm) \<sigma> else \<sigma>)"

partial_function (option) expire_loop ::
    "(u64 \<Rightarrow> u64 \<Rightarrow> 'a timer_sys_scheme \<Rightarrow> 'a timer_sys_scheme) \<Rightarrow> id_t \<Rightarrow> u64 \<Rightarrow> 'a timer_sys_scheme \<Rightarrow>
     'a timer_sys_scheme option" where
  "expire_loop call this_cpu now \<sigma> =
     (case timer_list \<sigma> this_cpu of
        [] \<Rightarrow> Some \<sigma>
      | t # _ \<Rightarrow>
          if tm_expires (timers \<sigma> t) > now then Some \<sigma>
          else expire_loop call this_cpu now (fire_timer call this_cpu t \<sigma>))"

definition expire_timers ::
    "(u64 \<Rightarrow> u64 \<Rightarrow> 'a timer_sys_scheme \<Rightarrow> 'a timer_sys_scheme) \<Rightarrow> bool \<Rightarrow> id_t \<Rightarrow> u64 \<Rightarrow> u64 \<Rightarrow> 'a timer_sys_scheme \<Rightarrow>
     'a timer_sys_scheme option" where
  "expire_timers call oneshot this_cpu now now' \<sigma> =
     map_option (set_timer_interrupt oneshot this_cpu now') (expire_loop call this_cpu now \<sigma>)"

section \<open>The lists stay sorted\<close>

definition timers_ok :: "'a timer_sys_scheme \<Rightarrow> bool" where
  "timers_ok \<sigma> \<longleftrightarrow> (\<forall>c. sorted (map (\<lambda>t. tm_expires (timers \<sigma> t)) (timer_list \<sigma> c)) \<and> distinct (timer_list \<sigma> c) \<and>
     (\<forall>t \<in> set (timer_list \<sigma> c). tm_cpu (timers \<sigma> t) = c))"

lemma set_timer_interrupt_sel [simp]:
  "timers (set_timer_interrupt oneshot c now \<sigma>) = timers \<sigma>"
  "timer_list (set_timer_interrupt oneshot c now \<sigma>) = timer_list \<sigma>"
  "timer_sys.more (set_timer_interrupt oneshot c now \<sigma>) = timer_sys.more \<sigma>"
  by (simp_all add: set_timer_interrupt_def Let_def split: list.split)

lemma set_timers_sel [simp]:
  "timers (set_timers c ts \<sigma>) = timers \<sigma>" "timer_list (set_timers c ts \<sigma>) = (timer_list \<sigma>)(c := ts)"
  "timer_sys.more (set_timers c ts \<sigma>) = timer_sys.more \<sigma>"
  by (simp_all add: set_timers_def)

lemma timers_ok_interrupt [simp]: "timers_ok (set_timer_interrupt oneshot c now \<sigma>) = timers_ok \<sigma>"
  by (simp add: timers_ok_def)

lemma timers_ok_remove1:
  assumes "timers_ok \<sigma>" shows "timers_ok (set_timers c (remove1 t (timer_list \<sigma> c)) \<sigma>)"
  using assms set_remove1_subset [of t "timer_list \<sigma> c"] unfolding timers_ok_def
  by (auto simp: sorted_map_remove1)

lemma timer_del_ok: "timers_ok \<sigma> \<Longrightarrow> timers_ok (snd (timer_del oneshot c now t \<sigma>))"
  by (simp add: timer_del_def Let_def timers_ok_remove1)

lemma timer_add_sel:
  "timers (timer_add oneshot c now t \<sigma>) = (timers \<sigma>)(t := (timers \<sigma> t)\<lparr>tm_cpu := c\<rparr>)"
  "timer_list (timer_add oneshot c now t \<sigma>) =
     (timer_list \<sigma>)(c := link_sorted (\<lambda>x. tm_expires (timers \<sigma> x)) t (timer_list \<sigma> c))"
  "timer_sys.more (timer_add oneshot c now t \<sigma>) = timer_sys.more \<sigma>"
proof -
  have "(\<lambda>x. tm_expires (((timers \<sigma>)(t := (timers \<sigma> t)\<lparr>tm_cpu := c\<rparr>)) x)) = (\<lambda>x. tm_expires (timers \<sigma> x))"
    by auto
  then show "timer_list (timer_add oneshot c now t \<sigma>) =
     (timer_list \<sigma>)(c := link_sorted (\<lambda>x. tm_expires (timers \<sigma> x)) t (timer_list \<sigma> c))"
    by (simp add: timer_add_def Let_def)
qed (simp_all add: timer_add_def Let_def)

lemma timer_add_ok:
  assumes "timers_ok \<sigma>" "\<And>c. t \<notin> set (timer_list \<sigma> c)"
  shows "timers_ok (timer_add oneshot c now t \<sigma>)"
proof -
  let ?T = "(timers \<sigma>)(t := (timers \<sigma> t)\<lparr>tm_cpu := c\<rparr>)"
  have e: "(\<lambda>x. tm_expires (?T x)) = (\<lambda>x. tm_expires (timers \<sigma> x))" by auto
  have k: "tm_cpu (?T x) = d" if "x \<in> set (timer_list \<sigma> d)" for x d
    using assms that by (auto simp: timers_ok_def)
  show ?thesis unfolding timers_ok_def timer_add_sel e
    using assms k sorted_link_sorted [of "\<lambda>x. tm_expires (timers \<sigma> x)" "timer_list \<sigma> c"] by (auto simp: timers_ok_def)
qed

text \<open>A timer that is added and deleted again has not expired, and the lists are as before.\<close>

lemma remove1_link_sorted: "t \<notin> set xs \<Longrightarrow> remove1 t (link_sorted key t xs) = xs"
  by (induction xs) auto

lemma timer_add_del:
  assumes "t \<notin> set (timer_list \<sigma> c)"
  shows "fst (timer_del oneshot c' now' t (timer_add oneshot c now t \<sigma>))"
    "timer_list (snd (timer_del oneshot c' now' t (timer_add oneshot c now t \<sigma>))) = timer_list \<sigma>"
  using assms by (simp_all add: timer_del_def timer_pending_def timer_add_sel Let_def remove1_link_sorted)

text \<open>With one-shot interrupts, the interrupt of a processor comes no later than the first timer of its list
  expires, or in the shortest interval.\<close>

lemma timer_add_armed:
  assumes "timers_ok \<sigma>" "\<And>c. t \<notin> set (timer_list \<sigma> c)"
  obtains d where "oneshot_timer (timer_add True c now t \<sigma>) c = Some d"
    "\<And>x. x \<in> set (timer_list (timer_add True c now t \<sigma>) c) \<Longrightarrow> tm_expires (timers \<sigma> x) > now + MIN_TIMER_INTERVAL \<Longrightarrow>
       now + MIN_TIMER_INTERVAL \<ge> now \<Longrightarrow> d = MIN_TIMER_INTERVAL \<or> now + d \<le> tm_expires (timers \<sigma> x)"
proof -
  let ?e = "\<lambda>x. tm_expires (timers \<sigma> x)"
  obtain y ys where l: "link_sorted ?e t (timer_list \<sigma> c) = y # ys"
    using set_link_sorted [of ?e t "timer_list \<sigma> c"] by (cases "link_sorted ?e t (timer_list \<sigma> c)") simp_all
  have T: "tm_expires (((timers \<sigma>)(t := (timers \<sigma> t)\<lparr>tm_cpu := c\<rparr>)) x) = ?e x" for x by auto
  have k: "(\<lambda>x. tm_expires (((timers \<sigma>)(t := (timers \<sigma> t)\<lparr>tm_cpu := c\<rparr>)) x)) = ?e" by auto
  have "oneshot_timer (timer_add True c now t \<sigma>) c =
      Some (if ?e y > now + MIN_TIMER_INTERVAL then ?e y - now else MIN_TIMER_INTERVAL)"
    unfolding timer_add_def Let_def set_timer_interrupt_def by (simp add: k l T del: fun_upd_apply) (simp add: l T)
  moreover have "?e y \<le> ?e x" if "x \<in> set (timer_list (timer_add True c now t \<sigma>) c)" for x
    using sorted_link_sorted [of ?e "timer_list \<sigma> c" t] assms(1) that l by (auto simp: timer_add_sel timers_ok_def)
  ultimately show thesis by (intro that) auto
qed

section \<open>Expiry\<close>

definition due_timers :: "id_t \<Rightarrow> u64 \<Rightarrow> 'a timer_sys_scheme \<Rightarrow> u64 list" where
  "due_timers c now \<sigma> = filter (\<lambda>t. tm_expires (timers \<sigma> t) \<le> now) (timer_list \<sigma> c)"

lemma due_timers_interrupt [simp]: "due_timers c now (set_timer_interrupt oneshot d now' \<sigma>) = due_timers c now \<sigma>"
  by (simp add: due_timers_def)

lemma due_timers_head:
  assumes "timers_ok \<sigma>"
  shows "timer_list \<sigma> c = t # ts \<Longrightarrow> now < tm_expires (timers \<sigma> t) \<Longrightarrow> due_timers c now \<sigma> = []"
    "timer_list \<sigma> c = t # ts \<Longrightarrow> tm_expires (timers \<sigma> t) \<le> now \<Longrightarrow>
       due_timers c now \<sigma> = t # due_timers c now (set_timers c (remove1 t (timer_list \<sigma> c)) \<sigma>)"
proof -
  assume l: "timer_list \<sigma> c = t # ts"
  have "sorted (map (\<lambda>t. tm_expires (timers \<sigma> t)) (timer_list \<sigma> c))" using assms by (simp add: timers_ok_def)
  then have "tm_expires (timers \<sigma> t) \<le> tm_expires (timers \<sigma> x)" if "x \<in> set ts" for x using that l by simp
  then show "due_timers c now \<sigma> = []" if "now < tm_expires (timers \<sigma> t)"
    using that l by (auto simp: due_timers_def filter_empty_conv not_le intro: less_le_trans)
  show "due_timers c now \<sigma> = t # due_timers c now (set_timers c (remove1 t (timer_list \<sigma> c)) \<sigma>)" if "tm_expires (timers \<sigma> t) \<le> now"
    using that l by (simp add: due_timers_def)
qed

text \<open>What \<^verbatim>\<open>expire_timers\<close> relies on: a callback leaves the lists in order, and the timers that are due in this
  list and not yet called back as they are.\<close>

locale timer_callbacks =
  fixes call :: "u64 \<Rightarrow> u64 \<Rightarrow> 'a timer_sys_scheme \<Rightarrow> 'a timer_sys_scheme" and cpu :: id_t and now :: u64
  assumes call_ok: "timers_ok \<sigma> \<Longrightarrow> timers_ok (call fn d \<sigma>)"
    and call_due: "timers_ok \<sigma> \<Longrightarrow> due_timers cpu now (call fn d \<sigma>) = due_timers cpu now \<sigma>"
begin

lemma fire_head:
  assumes "timers_ok \<sigma>" "timer_list \<sigma> cpu = t # ts" "tm_expires (timers \<sigma> t) \<le> now"
  shows "timers_ok (fire_timer call cpu t \<sigma>)" "due_timers cpu now \<sigma> = t # due_timers cpu now (fire_timer call cpu t \<sigma>)"
proof -
  have r: "timers_ok (set_timers cpu (remove1 t (timer_list \<sigma> cpu)) \<sigma>)" by (rule timers_ok_remove1 [OF assms(1)])
  then show "timers_ok (fire_timer call cpu t \<sigma>)" by (simp add: fire_timer_def Let_def call_ok)
  show "due_timers cpu now \<sigma> = t # due_timers cpu now (fire_timer call cpu t \<sigma>)"
    unfolding due_timers_head(2) [OF assms] by (simp add: fire_timer_def Let_def call_due [OF r])
qed

lemma expire_loop_fires:
  assumes "timers_ok \<sigma>"
  shows "\<exists>\<sigma>'. expire_loop call cpu now \<sigma> = Some \<sigma>' \<and> \<sigma>' = fold (fire_timer call cpu) (due_timers cpu now \<sigma>) \<sigma> \<and>
    timers_ok \<sigma>' \<and> due_timers cpu now \<sigma>' = []"
  using assms
proof (induction "length (due_timers cpu now \<sigma>)" arbitrary: \<sigma>)
  case 0
  show ?case
  proof (cases "timer_list \<sigma> cpu")
    case Nil
    then show ?thesis using 0 by (subst expire_loop.simps) simp
  next
    case (Cons t ts)
    then have "\<not> tm_expires (timers \<sigma> t) \<le> now" using 0 fire_head(2) [OF 0(2)] by auto
    then show ?thesis using Cons 0 by (subst expire_loop.simps) (simp add: not_le)
  qed
next
  case (Suc n)
  then obtain t ts where l: "timer_list \<sigma> cpu = t # ts" by (cases "timer_list \<sigma> cpu") (auto simp: due_timers_def)
  have d: "tm_expires (timers \<sigma> t) \<le> now" using due_timers_head(1) [OF Suc(3) l, of now] Suc(2) by (cases "tm_expires (timers \<sigma> t) \<le> now") simp_all
  note f = fire_head [OF Suc(3) l d]
  have "n = length (due_timers cpu now (fire_timer call cpu t \<sigma>))" using Suc(2) f(2) by simp
  from Suc(1) [OF this f(1)] show ?case
    using l d f(2) by (subst expire_loop.simps) (simp add: not_less)
qed

lemma expire_timers_fires:
  assumes "timers_ok \<sigma>"
  shows "\<exists>\<sigma>'. expire_timers call oneshot cpu now now' \<sigma> =
      Some (set_timer_interrupt oneshot cpu now' (fold (fire_timer call cpu) (due_timers cpu now \<sigma>) \<sigma>)) \<and>
    expire_timers call oneshot cpu now now' \<sigma> = Some \<sigma>' \<and> timers_ok \<sigma>' \<and> due_timers cpu now \<sigma>' = []"
  using expire_loop_fires [OF assms] by (auto simp: expire_timers_def)

end

end
