(* ===== verification/Kitten_Sched.thy ===== *)
theory Kitten_Sched
  imports Kitten_Aspace Kitten_Timer "HOL-Library.Multiset"
begin

text \<open>
  The scheduler: \<^verbatim>\<open>kernel/sched.c\<close> and \<^verbatim>\<open>kernel/sched_rr.c\<close> as they are built without
  \<^verbatim>\<open>CONFIG_SCHED_EDF\<close> (the default configuration of the architecture), and the wait queues of
  \<^verbatim>\<open>kernel/waitq.c\<close>.

  The state extends that of the timers by the address spaces, the tasks by address, a run queue and the
  running task per processor, and the processors that were sent a reschedule interrupt. The running task
  of a processor stays linked in its run queue. A task is linked in a list exactly if it is in it, which
  is what the tests of \<^verbatim>\<open>list_empty\<close> on its links decide.

  A call of \<^verbatim>\<open>schedule()\<close> is seen from the processor: the first half runs as the old task, the second half
  as the task switched to, which returns from its own earlier call of \<^verbatim>\<open>schedule()\<close> or, when it has never
  run, enters at \<^verbatim>\<open>schedule_new_task_tail()\<close>. The time does not advance during a call. \<^term>\<open>None\<close> is a panic
  of the kernel heap.

  The properties: no task is lost or linked twice; a task that is ready to run is picked after at most as
  many calls as there are tasks before it in the queue; a wakeup before or during the sleep is not lost;
  timers are called back when due.
\<close>

section \<open>Tasks and run queues\<close>

definition TASK_RUNNING :: u32 where "TASK_RUNNING = 1"
definition TASK_INTERRUPTIBLE :: u32 where "TASK_INTERRUPTIBLE = 2"
definition TASK_UNINTERRUPTIBLE :: u32 where "TASK_UNINTERRUPTIBLE = 4"
definition TASK_STOPPED :: u32 where "TASK_STOPPED = 8"
definition TASK_EXITED :: u32 where "TASK_EXITED = 16"
definition TASK_NORMAL :: u32 where "TASK_NORMAL = TASK_INTERRUPTIBLE OR TASK_UNINTERRUPTIBLE"
definition TASK_ORDER :: u64 where "TASK_ORDER = 1"

record task =
  tk_id :: id_t
  tk_name :: string
  tk_state :: u32
  tk_uid :: id_t
  tk_gid :: id_t
  tk_aspace :: u64
  tk_cpu_id :: id_t
  tk_cpu_mask :: bitmap
  tk_cpu_target_id :: id_t
  tk_ptrace :: u64
  tk_sig_pending :: bool
  tk_need_resched :: bool
  tk_started :: bool

record run_queue =
  num_tasks :: u64
  online :: bool
  migrate_list :: "u64 list"
  idle_task :: u64
  next_int :: u64
  taskq :: "u64 list"

record sched_sys = timer_sys +
  asys :: aspace_sys
  tasks :: "u64 \<Rightarrow> task"
  runqs :: "id_t \<Rightarrow> run_queue"
  running :: "id_t \<Rightarrow> u64"
  resched_sent :: "id_t list"
  sched_hz :: u64

definition set_task :: "u64 \<Rightarrow> task \<Rightarrow> sched_sys \<Rightarrow> sched_sys" where
  "set_task t tk \<sigma> = \<sigma>\<lparr>tasks := (tasks \<sigma>)(t := tk)\<rparr>"

definition set_task_state :: "u64 \<Rightarrow> u32 \<Rightarrow> sched_sys \<Rightarrow> sched_sys" where
  "set_task_state t st \<sigma> = set_task t ((tasks \<sigma> t)\<lparr>tk_state := st\<rparr>) \<sigma>"

definition set_rq :: "id_t \<Rightarrow> run_queue \<Rightarrow> sched_sys \<Rightarrow> sched_sys" where
  "set_rq c rq \<sigma> = \<sigma>\<lparr>runqs := (runqs \<sigma>)(c := rq)\<rparr>"

definition xcall_reschedule :: "id_t \<Rightarrow> sched_sys \<Rightarrow> sched_sys" where
  "xcall_reschedule cpu \<sigma> = \<sigma>\<lparr>resched_sent := resched_sent \<sigma> @ [cpu]\<rparr>"

section \<open>Round robin\<close>

definition rr_sched_add_task :: "u64 \<Rightarrow> run_queue \<Rightarrow> run_queue" where
  "rr_sched_add_task t rq = rq\<lparr>taskq := taskq rq @ [t]\<rparr>"

definition rr_sched_del_task :: "u64 \<Rightarrow> run_queue \<Rightarrow> run_queue" where
  "rr_sched_del_task t rq = rq\<lparr>taskq := remove1 t (taskq rq)\<rparr>"

definition rr_adjust_schedule :: "u64 \<Rightarrow> run_queue \<Rightarrow> run_queue" where
  "rr_adjust_schedule t rq = rq\<lparr>taskq := taskq rq @ [t]\<rparr>"

text \<open>The loop of \<^verbatim>\<open>rr_schedule\<close>: the task found, what is left of the queue, and the tasks moved to the
  list of migrating ones.\<close>

fun rr_pick :: "(u64 \<Rightarrow> task) \<Rightarrow> u64 list \<Rightarrow> u64 option \<times> u64 list \<times> u64 list" where
  "rr_pick T [] = (None, [], [])"
| "rr_pick T (t # ts) =
     (if tk_cpu_id (T t) \<noteq> tk_cpu_target_id (T t) then
        case rr_pick T ts of (next, q, m) \<Rightarrow> (next, q, t # m)
      else if tk_state (T t) = TASK_RUNNING then (Some t, t # ts, [])
      else case rr_pick T ts of (next, q, m) \<Rightarrow> (next, t # q, m))"

definition rr_schedule :: "(u64 \<Rightarrow> task) \<Rightarrow> run_queue \<Rightarrow> u64 option \<times> run_queue" where
  "rr_schedule T rq =
     (case rr_pick T (taskq rq) of
        (next, q, m) \<Rightarrow> (next, rq\<lparr>taskq := q, migrate_list := migrate_list rq @ m\<rparr>))"

section \<open>The scheduler\<close>

definition sched_init_runqueue :: "u64 \<Rightarrow> id_t \<Rightarrow> u64 \<Rightarrow> sched_sys \<Rightarrow> sched_sys option" where
  "sched_init_runqueue interrupt_fn cpu_id new_idle \<sigma> =
     (let tm = next_int (runqs \<sigma> cpu_id);
          \<sigma> = \<sigma>\<lparr>timers := (timers \<sigma>)(tm := (timers \<sigma> tm)\<lparr>tm_expires := 0, tm_function := interrupt_fn, tm_data := 0\<rparr>)\<rparr>
      in if new_idle = 0 then None
         else Some (set_rq cpu_id ((runqs \<sigma> cpu_id)\<lparr>num_tasks := 0, online := True, migrate_list := [], taskq := [],
                      idle_task := new_idle\<rparr>) \<sigma>))"

definition kthread_bind :: "nat \<Rightarrow> u64 \<Rightarrow> id_t \<Rightarrow> sched_sys \<Rightarrow> status \<times> sched_sys" where
  "kthread_bind nr t cpu_id \<sigma> =
     (if unat cpu_id \<ge> nr \<or> \<not> test_bit (unat cpu_id) (tk_cpu_mask (tasks \<sigma> t)) then (Err EINVAL, \<sigma>)
      else (OK, set_task t ((tasks \<sigma> t)\<lparr>tk_cpu_target_id := cpu_id\<rparr>) \<sigma>))"

definition clear_aspace_cpu :: "id_t \<Rightarrow> u64 \<Rightarrow> sched_sys \<Rightarrow> sched_sys" where
  "clear_aspace_cpu cpu t \<sigma> =
     (let p = tk_aspace (tasks \<sigma> t); a = aspaces (asys \<sigma>) p
      in \<sigma>\<lparr>asys := set_aspace p (a\<lparr>cpu_mask := clear_bit (unat cpu) (cpu_mask a)\<rparr>) (asys \<sigma>)\<rparr>)"

definition rr_sched_cpu_remove :: "nat \<Rightarrow> id_t \<Rightarrow> sched_sys \<Rightarrow> sched_sys" where
  "rr_sched_cpu_remove nr this_cpu \<sigma> =
     fold (\<lambda>t \<sigma>. clear_aspace_cpu this_cpu t (snd (kthread_bind nr t 0 \<sigma>))) (taskq (runqs \<sigma> this_cpu)) \<sigma>"

definition sched_cpu_remove :: "nat \<Rightarrow> id_t \<Rightarrow> sched_sys \<Rightarrow> sched_sys" where
  "sched_cpu_remove nr this_cpu \<sigma> =
     rr_sched_cpu_remove nr this_cpu (set_rq this_cpu ((runqs \<sigma> this_cpu)\<lparr>online := False\<rparr>) \<sigma>)"

definition sched_add_task :: "id_t \<Rightarrow> u64 \<Rightarrow> sched_sys \<Rightarrow> sched_sys" where
  "sched_add_task this_cpu t \<sigma> =
     (let cpu = tk_cpu_id (tasks \<sigma> t);
          rq = (runqs \<sigma> cpu)\<lparr>num_tasks := num_tasks (runqs \<sigma> cpu) + 1\<rparr>;
          \<sigma> = set_rq cpu (rr_sched_add_task t rq) \<sigma>
      in if cpu \<noteq> this_cpu then xcall_reschedule cpu \<sigma> else \<sigma>)"

definition sched_del_task :: "u64 \<Rightarrow> sched_sys \<Rightarrow> sched_sys" where
  "sched_del_task t \<sigma> =
     (let cpu = tk_cpu_id (tasks \<sigma> t);
          rq = (runqs \<sigma> cpu)\<lparr>num_tasks := num_tasks (runqs \<sigma> cpu) - 1\<rparr>
      in set_rq cpu (rr_sched_del_task t rq) \<sigma>)"

text \<open>The loop that takes the lock again when the task has moved to another processor meanwhile is one atomic
  step here.\<close>

definition sched_wakeup_task :: "id_t \<Rightarrow> u64 \<Rightarrow> u32 \<Rightarrow> sched_sys \<Rightarrow> status \<times> sched_sys" where
  "sched_wakeup_task this_cpu t valid_states \<sigma> =
     (let \<sigma> = (if tk_state (tasks \<sigma> t) = TASK_STOPPED then sched_add_task this_cpu t \<sigma> else \<sigma>);
          cpu = tk_cpu_id (tasks \<sigma> t)
      in if tk_state (tasks \<sigma> t) AND valid_states \<noteq> 0 then
           let \<sigma> = set_task_state t TASK_RUNNING \<sigma>
           in (OK, if cpu \<noteq> this_cpu then xcall_reschedule cpu \<sigma> else \<sigma>)
         else
           (Err EINVAL,
            if tk_state (tasks \<sigma> t) = TASK_STOPPED
            then set_task t ((tasks \<sigma> t)\<lparr>tk_ptrace := push_bit 1 (ucast TASK_RUNNING) OR 1\<rparr>) \<sigma> else \<sigma>))"

definition set_quantum_timer :: "bool \<Rightarrow> id_t \<Rightarrow> u64 \<Rightarrow> u64 \<Rightarrow> sched_sys \<Rightarrow> sched_sys" where
  "set_quantum_timer oneshot this_cpu now inttime \<sigma> =
     (let tm = next_int (runqs \<sigma> this_cpu);
          \<sigma> = snd (timer_del oneshot this_cpu now tm \<sigma>);
          inttime = (if inttime = 0 then now + 1000000000 div sched_hz \<sigma> else inttime);
          \<sigma> = \<sigma>\<lparr>timers := (timers \<sigma>)(tm := (timers \<sigma> tm)\<lparr>tm_expires := inttime\<rparr>)\<rparr>
      in timer_add oneshot this_cpu now tm \<sigma>)"

text \<open>\<^verbatim>\<open>schedule()\<close> up to the choice of the next task: the old task goes to the end of its run queue, or to
  the list of migrating tasks, or nowhere if it has exited.\<close>

definition put_prev :: "id_t \<Rightarrow> u64 \<Rightarrow> sched_sys \<Rightarrow> sched_sys" where
  "put_prev this_cpu prev \<sigma> =
     (let rq = runqs \<sigma> this_cpu; tk = tasks \<sigma> prev;
          rq = rq\<lparr>migrate_list := remove1 prev (migrate_list rq)\<rparr>;
          rq = (if prev \<noteq> idle_task rq then
                  let rq = rq\<lparr>taskq := remove1 prev (taskq rq)\<rparr>
                  in if tk_state tk \<noteq> TASK_EXITED then
                       if tk_cpu_id tk \<noteq> tk_cpu_target_id tk
                       then rq\<lparr>migrate_list := migrate_list rq @ [prev], num_tasks := num_tasks rq - 1\<rparr>
                       else rr_adjust_schedule prev rq
                     else rq
                else rq)
      in set_rq this_cpu rq \<sigma>)"

definition pick_next :: "id_t \<Rightarrow> sched_sys \<Rightarrow> u64 \<times> sched_sys" where
  "pick_next this_cpu \<sigma> =
     (case rr_schedule (tasks \<sigma>) (runqs \<sigma> this_cpu) of
        (next, rq) \<Rightarrow> (case next of None \<Rightarrow> idle_task rq | Some t \<Rightarrow> t, set_rq this_cpu rq \<sigma>))"

text \<open>The second half: the loop over the migrating tasks.\<close>

definition migrate_task :: "id_t \<Rightarrow> u64 \<Rightarrow> sched_sys \<Rightarrow> sched_sys" where
  "migrate_task this_cpu t \<sigma> =
     (let dest = tk_cpu_target_id (tasks \<sigma> t);
          \<sigma> = set_rq this_cpu ((runqs \<sigma> this_cpu)\<lparr>migrate_list := remove1 t (migrate_list (runqs \<sigma> this_cpu))\<rparr>) \<sigma>;
          \<sigma> = set_task t ((tasks \<sigma> t)\<lparr>tk_cpu_id := dest\<rparr>) \<sigma>;
          rq = rr_sched_add_task t (runqs \<sigma> dest);
          \<sigma> = set_rq dest (rq\<lparr>num_tasks := num_tasks rq + 1\<rparr>) \<sigma>
      in if dest \<noteq> this_cpu then xcall_reschedule dest \<sigma> else \<sigma>)"

definition free_task :: "u64 \<Rightarrow> sched_sys \<Rightarrow> sched_sys option" where
  "free_task t \<sigma> = map_option (\<lambda>s. \<sigma>\<lparr>asys := (asys \<sigma>)\<lparr>kheap := s\<rparr>\<rparr>) (kmem_free_pages (kheap (asys \<sigma>)) t TASK_ORDER)"

definition schedule_new_task_tail :: "u64 \<Rightarrow> u64 \<Rightarrow> sched_sys \<Rightarrow> sched_sys option" where
  "schedule_new_task_tail bootstrap_task prev \<sigma> =
     (if tk_state (tasks \<sigma> prev) = TASK_EXITED \<and> prev \<noteq> bootstrap_task then free_task prev \<sigma> else Some \<sigma>)"

definition schedule_tail :: "id_t \<Rightarrow> u64 \<Rightarrow> u64 \<Rightarrow> sched_sys \<Rightarrow> sched_sys option" where
  "schedule_tail this_cpu prev next \<sigma> = do {
     \<sigma> \<leftarrow> (if prev \<noteq> next \<and> tk_state (tasks \<sigma> prev) = TASK_EXITED then free_task prev \<sigma> else Some \<sigma>);
     Some (fold (migrate_task this_cpu) (migrate_list (runqs \<sigma> this_cpu)) \<sigma>)
   }"

definition sched_switch :: "bool \<Rightarrow> id_t \<Rightarrow> u64 \<Rightarrow> sched_sys \<Rightarrow> u64 \<times> u64 \<times> sched_sys" where
  "sched_switch oneshot this_cpu now \<sigma> =
     (let prev = running \<sigma> this_cpu;
          \<sigma> = (if tk_state (tasks \<sigma> prev) = TASK_INTERRUPTIBLE \<and> tk_sig_pending (tasks \<sigma> prev)
               then set_task_state prev TASK_RUNNING \<sigma> else \<sigma>);
          (next, \<sigma>) = pick_next this_cpu (put_prev this_cpu prev \<sigma>);
          \<sigma> = set_quantum_timer oneshot this_cpu now 0 \<sigma>;
          \<sigma> = set_task prev ((tasks \<sigma> prev)\<lparr>tk_need_resched := False\<rparr>) \<sigma>
      in (prev, next, \<sigma>\<lparr>running := (running \<sigma>)(this_cpu := next)\<rparr>))"

definition schedule :: "bool \<Rightarrow> u64 \<Rightarrow> id_t \<Rightarrow> u64 \<Rightarrow> sched_sys \<Rightarrow> sched_sys option" where
  "schedule oneshot bootstrap_task this_cpu now \<sigma> =
     (case sched_switch oneshot this_cpu now \<sigma> of
        (prev, next, \<sigma>) \<Rightarrow>
          if prev \<noteq> next \<and> \<not> tk_started (tasks \<sigma> next)
          then schedule_new_task_tail bootstrap_task prev (set_task next ((tasks \<sigma> next)\<lparr>tk_started := True\<rparr>) \<sigma>)
          else schedule_tail this_cpu prev next \<sigma>)"

section \<open>Sleeping and yielding\<close>

definition TIME_T_MAX :: u64 where "TIME_T_MAX = 2 ^ 63 - 1"

text \<open>\<^verbatim>\<open>schedule_timeout\<close>; times are signed here (\<^verbatim>\<open>ktime_t\<close>), and the sum wraps. What happens in the call of
  \<^verbatim>\<open>schedule()\<close> is the argument \<^verbatim>\<open>sleep\<close>.\<close>

definition schedule_timeout ::
    "bool \<Rightarrow> u64 \<Rightarrow> id_t \<Rightarrow> u64 \<Rightarrow> u64 \<Rightarrow> u64 \<Rightarrow> (sched_sys \<Rightarrow> id_t \<times> u64 \<times> sched_sys) \<Rightarrow> sched_sys \<Rightarrow> u64 \<times> sched_sys" where
  "schedule_timeout oneshot wakeup_fn this_cpu now t timeout sleep \<sigma> =
     (if timeout = TIME_T_MAX then (timeout, snd (snd (sleep \<sigma>)))
      else let when = now + timeout;
               when = (if sint when < sint now then TIME_T_MAX else when);
               cur = running \<sigma> this_cpu
           in timer_sleep_until oneshot wakeup_fn this_cpu now t cur when
                (\<lambda>\<sigma>. sleep (set_task_state cur TASK_INTERRUPTIBLE \<sigma>)) \<sigma>)"

definition sched_yield :: "bool \<Rightarrow> u64 \<Rightarrow> id_t \<Rightarrow> u64 \<Rightarrow> sched_sys \<Rightarrow> sched_sys option" where
  "sched_yield oneshot bootstrap_task this_cpu now \<sigma> = schedule oneshot bootstrap_task this_cpu now \<sigma>"

definition rr_sched_yield_to :: "u64 \<Rightarrow> run_queue \<Rightarrow> run_queue" where
  "rr_sched_yield_to t rq = rq\<lparr>taskq := t # remove1 t (taskq rq)\<rparr>"

definition sched_yield_to :: "bool \<Rightarrow> u64 \<Rightarrow> id_t \<Rightarrow> u64 \<Rightarrow> u64 \<Rightarrow> sched_sys \<Rightarrow> sched_sys option" where
  "sched_yield_to oneshot bootstrap_task this_cpu now t \<sigma> =
     (if tk_cpu_id (tasks \<sigma> (running \<sigma> this_cpu)) \<noteq> tk_cpu_id (tasks \<sigma> t) then Some \<sigma>
      else schedule oneshot bootstrap_task this_cpu now (set_rq this_cpu (rr_sched_yield_to t (runqs \<sigma> this_cpu)) \<sigma>))"

text \<open>\<^verbatim>\<open>get_task\<close> of \<^verbatim>\<open>kernel/sched_control.c\<close>: the last task of the address space with the id.
  \<^verbatim>\<open>aspace_release\<close> is also called when there is no such address space, and then dereferences \<^verbatim>\<open>NULL\<close>,
  which is \<^term>\<open>None\<close> here.\<close>

definition get_task :: "id_t \<Rightarrow> id_t \<Rightarrow> sched_sys \<Rightarrow> (u64 option \<times> sched_sys) option" where
  "get_task pid tid \<sigma> =
     (case aspace_acquire (asys \<sigma>) pid of
        (None, as) \<Rightarrow> None
      | (Some p, as) \<Rightarrow>
          let tsks = filter (\<lambda>t. tk_id (tasks \<sigma> t) = tid) (task_list (aspaces as p))
          in Some (if tsks = [] then None else Some (last tsks), \<sigma>\<lparr>asys := aspace_release as p\<rparr>))"

definition sched_yield_task_to ::
    "bool \<Rightarrow> u64 \<Rightarrow> id_t \<Rightarrow> u64 \<Rightarrow> int \<Rightarrow> int \<Rightarrow> sched_sys \<Rightarrow> sched_sys option" where
  "sched_yield_task_to oneshot bootstrap_task this_cpu now pid tid \<sigma> =
     (if pid < 0 \<or> tid < 0 then sched_yield oneshot bootstrap_task this_cpu now \<sigma>
      else do {
        (t, \<sigma>) \<leftarrow> get_task (word_of_int pid) (word_of_int tid) \<sigma>;
        case t of None \<Rightarrow> Some \<sigma> | Some t \<Rightarrow> sched_yield_to oneshot bootstrap_task this_cpu now t \<sigma>
      })"

section \<open>Wait queues\<close>

text \<open>A wait queue is the list of its entries; an entry is known by its address and belongs to a task. An
  entry is linked in no other queue.\<close>

type_synonym waitq = "u64 list"

definition waitq_active :: "waitq \<Rightarrow> bool" where
  "waitq_active q \<longleftrightarrow> q \<noteq> []"

definition waitq_add_entry :: "waitq \<Rightarrow> u64 \<Rightarrow> waitq option" where
  "waitq_add_entry q entry = (if entry \<in> set q then None else Some (q @ [entry]))"

definition waitq_remove_entry :: "waitq \<Rightarrow> u64 \<Rightarrow> waitq option" where
  "waitq_remove_entry q entry = (if entry \<notin> set q then None else Some (remove1 entry q))"

definition waitq_prepare_to_wait :: "waitq \<Rightarrow> u64 \<Rightarrow> u32 \<Rightarrow> u64 \<Rightarrow> sched_sys \<Rightarrow> waitq \<times> sched_sys" where
  "waitq_prepare_to_wait q entry st cur \<sigma> = (if entry \<in> set q then q else entry # q, set_task_state cur st \<sigma>)"

definition waitq_finish_wait :: "waitq \<Rightarrow> u64 \<Rightarrow> u64 \<Rightarrow> sched_sys \<Rightarrow> (waitq \<times> sched_sys) option" where
  "waitq_finish_wait q entry cur \<sigma> =
     map_option (\<lambda>q. (q, set_task_state cur TASK_RUNNING \<sigma>)) (waitq_remove_entry q entry)"

definition default_wake_function :: "id_t \<Rightarrow> u64 \<Rightarrow> sched_sys \<Rightarrow> sched_sys" where
  "default_wake_function this_cpu t \<sigma> = snd (sched_wakeup_task this_cpu t TASK_NORMAL \<sigma>)"

definition waitq_wakeup :: "id_t \<Rightarrow> (u64 \<Rightarrow> u64) \<Rightarrow> waitq \<Rightarrow> sched_sys \<Rightarrow> sched_sys" where
  "waitq_wakeup this_cpu entry_task q \<sigma> = fold (\<lambda>e. default_wake_function this_cpu (entry_task e)) q \<sigma>"

fun wake_loop :: "id_t \<Rightarrow> (u64 \<Rightarrow> u64) \<Rightarrow> int \<Rightarrow> waitq \<Rightarrow> int \<Rightarrow> sched_sys \<Rightarrow> int \<times> sched_sys" where
  "wake_loop this_cpu entry_task nr [] woken \<sigma> = (woken, \<sigma>)"
| "wake_loop this_cpu entry_task nr (e # es) woken \<sigma> =
     (let t = entry_task e
      in if tk_state (tasks \<sigma> t) = TASK_STOPPED \<and> drop_bit 1 (tk_ptrace (tasks \<sigma> t)) = ucast TASK_RUNNING
         then wake_loop this_cpu entry_task nr es woken \<sigma>
         else if woken + 1 > nr then (woken + 1, \<sigma>)
         else wake_loop this_cpu entry_task nr es (woken + 1) (default_wake_function this_cpu t \<sigma>))"

definition waitq_wake_nr_locked :: "id_t \<Rightarrow> (u64 \<Rightarrow> u64) \<Rightarrow> waitq \<Rightarrow> int \<Rightarrow> sched_sys \<Rightarrow> int \<times> sched_sys" where
  "waitq_wake_nr_locked this_cpu entry_task q nr \<sigma> =
     (case wake_loop this_cpu entry_task nr q 0 \<sigma> of (woken, \<sigma>) \<Rightarrow> (woken - 1, \<sigma>))"

definition waitq_wake_nr ::
    "bool \<Rightarrow> u64 \<Rightarrow> u64 \<Rightarrow> id_t \<Rightarrow> (u64 \<Rightarrow> u64) \<Rightarrow> waitq \<Rightarrow> int \<Rightarrow> sched_sys \<Rightarrow> (int \<times> sched_sys) option" where
  "waitq_wake_nr oneshot bootstrap_task now this_cpu entry_task q nr \<sigma> =
     (case waitq_wake_nr_locked this_cpu entry_task q nr \<sigma> of
        (woken, \<sigma>) \<Rightarrow>
          if woken > 0 then map_option (\<lambda>\<sigma>. (woken, \<sigma>)) (schedule oneshot bootstrap_task this_cpu now \<sigma>)
          else Some (woken, \<sigma>))"

section \<open>Timers of the scheduler\<close>

text \<open>The callbacks of the timers the kernel core adds: \<^verbatim>\<open>wakeup_task\<close> of \<^verbatim>\<open>timer_sleep_until\<close>, and
  \<^verbatim>\<open>interrupt_task\<close> of the quantum timer, which does nothing.\<close>

definition wakeup_task :: "id_t \<Rightarrow> u64 \<Rightarrow> sched_sys \<Rightarrow> sched_sys" where
  "wakeup_task this_cpu t \<sigma> = snd (sched_wakeup_task this_cpu t TASK_NORMAL \<sigma>)"

definition interrupt_task :: "u64 \<Rightarrow> sched_sys \<Rightarrow> sched_sys" where
  "interrupt_task t \<sigma> = \<sigma>"

definition call_timer :: "u64 \<Rightarrow> id_t \<Rightarrow> u64 \<Rightarrow> u64 \<Rightarrow> sched_sys \<Rightarrow> sched_sys" where
  "call_timer wakeup_fn this_cpu fn arg \<sigma> = (if fn = wakeup_fn then wakeup_task this_cpu arg \<sigma> else interrupt_task arg \<sigma>)"

lemma set_task_sel [simp]:
  "timers (set_task t tk \<sigma>) = timers \<sigma>" "timer_list (set_task t tk \<sigma>) = timer_list \<sigma>" "oneshot_timer (set_task t tk \<sigma>) = oneshot_timer \<sigma>"
  "asys (set_task t tk \<sigma>) = asys \<sigma>" "tasks (set_task t tk \<sigma>) = (tasks \<sigma>)(t := tk)" "runqs (set_task t tk \<sigma>) = runqs \<sigma>"
  "running (set_task t tk \<sigma>) = running \<sigma>"
  by (simp_all add: set_task_def)

lemma set_rq_sel [simp]:
  "timers (set_rq c rq \<sigma>) = timers \<sigma>" "timer_list (set_rq c rq \<sigma>) = timer_list \<sigma>" "oneshot_timer (set_rq c rq \<sigma>) = oneshot_timer \<sigma>"
  "asys (set_rq c rq \<sigma>) = asys \<sigma>" "tasks (set_rq c rq \<sigma>) = tasks \<sigma>" "runqs (set_rq c rq \<sigma>) = (runqs \<sigma>)(c := rq)"
  "running (set_rq c rq \<sigma>) = running \<sigma>"
  by (simp_all add: set_rq_def)

lemma xcall_reschedule_sel [simp]:
  "timers (xcall_reschedule c \<sigma>) = timers \<sigma>" "timer_list (xcall_reschedule c \<sigma>) = timer_list \<sigma>"
  "oneshot_timer (xcall_reschedule c \<sigma>) = oneshot_timer \<sigma>" "asys (xcall_reschedule c \<sigma>) = asys \<sigma>"
  "tasks (xcall_reschedule c \<sigma>) = tasks \<sigma>" "runqs (xcall_reschedule c \<sigma>) = runqs \<sigma>" "running (xcall_reschedule c \<sigma>) = running \<sigma>"
  by (simp_all add: xcall_reschedule_def)

text \<open>A wakeup touches no timer, and a task that is running or wakes up stays running.\<close>

lemma sched_wakeup_task_sel:
  "timers (snd (sched_wakeup_task c t v \<sigma>)) = timers \<sigma>" "timer_list (snd (sched_wakeup_task c t v \<sigma>)) = timer_list \<sigma>"
  "running (snd (sched_wakeup_task c t v \<sigma>)) = running \<sigma>" "asys (snd (sched_wakeup_task c t v \<sigma>)) = asys \<sigma>"
  by (simp_all add: sched_wakeup_task_def set_task_state_def sched_add_task_def Let_def)

lemma sched_wakeup_task_state:
  "tk_state (tasks (snd (sched_wakeup_task c t v \<sigma>)) u) =
     (if u = t \<and> tk_state (tasks \<sigma> t) AND v \<noteq> 0 then TASK_RUNNING else tk_state (tasks \<sigma> u))"
  by (simp add: sched_wakeup_task_def set_task_state_def sched_add_task_def Let_def)

interpretation sched_timers: timer_callbacks "call_timer wakeup_fn this_cpu" cpu now for wakeup_fn this_cpu cpu now
  by unfold_locales
    (simp_all add: call_timer_def wakeup_task_def interrupt_task_def timers_ok_def due_timers_def sched_wakeup_task_sel)

section \<open>Expiring timers wake sleepers\<close>

lemma fire_timer_sel:
  "timers (fire_timer (call_timer w c) c t \<sigma>) = timers \<sigma>"
  "timer_list (fire_timer (call_timer w c) c t \<sigma>) = (timer_list \<sigma>)(c := remove1 t (timer_list \<sigma> c))"
  by (simp_all add: fire_timer_def Let_def call_timer_def wakeup_task_def interrupt_task_def sched_wakeup_task_sel)

lemma fire_timer_state:
  "tk_state (tasks (fire_timer (call_timer w c) c t \<sigma>) u) =
     (if tm_function (timers \<sigma> t) = w \<and> w \<noteq> 0 \<and> u = tm_data (timers \<sigma> t) \<and> tk_state (tasks \<sigma> u) AND TASK_NORMAL \<noteq> 0
      then TASK_RUNNING else tk_state (tasks \<sigma> u))"
  by (auto simp: fire_timer_def Let_def call_timer_def wakeup_task_def interrupt_task_def sched_wakeup_task_state set_timers_def)

lemma fold_fire_sel:
  "timers (fold (fire_timer (call_timer w c) c) ts \<sigma>) = timers \<sigma>"
  "timer_list (fold (fire_timer (call_timer w c) c) ts \<sigma>) = (timer_list \<sigma>)(c := fold remove1 ts (timer_list \<sigma> c))"
  by (induction ts arbitrary: \<sigma>) (simp_all add: fire_timer_sel)

lemma TASK_bits: "TASK_RUNNING AND TASK_NORMAL = 0" "TASK_NORMAL \<noteq> 0" "TASK_INTERRUPTIBLE AND TASK_NORMAL \<noteq> 0"
  by (simp_all add: TASK_RUNNING_def TASK_NORMAL_def TASK_INTERRUPTIBLE_def TASK_UNINTERRUPTIBLE_def)

lemma fold_fire_state:
  assumes "w \<noteq> 0"
  shows "tk_state (tasks (fold (fire_timer (call_timer w c) c) ts \<sigma>) u) =
    (if (\<exists>t \<in> set ts. tm_function (timers \<sigma> t) = w \<and> tm_data (timers \<sigma> t) = u) \<and> tk_state (tasks \<sigma> u) AND TASK_NORMAL \<noteq> 0
     then TASK_RUNNING else tk_state (tasks \<sigma> u))"
  using assms
proof (induction ts arbitrary: \<sigma>)
  case (Cons t ts)
  have "tk_state (tasks (fold (fire_timer (call_timer w c) c) ts (fire_timer (call_timer w c) c t \<sigma>)) u) =
      (if (\<exists>x \<in> set ts. tm_function (timers \<sigma> x) = w \<and> tm_data (timers \<sigma> x) = u) \<and>
          tk_state (tasks (fire_timer (call_timer w c) c t \<sigma>) u) AND TASK_NORMAL \<noteq> 0
       then TASK_RUNNING else tk_state (tasks (fire_timer (call_timer w c) c t \<sigma>) u))"
    using Cons(1) [OF Cons(2), of "fire_timer (call_timer w c) c t \<sigma>"] by (simp add: fire_timer_sel)
  then show ?case using Cons(2) TASK_bits(1) by (auto simp: fire_timer_state)
qed simp

lemma fold_remove1_filter:
  assumes "distinct xs" shows "fold remove1 (filter P xs) xs = filter (\<lambda>x. \<not> P x) xs"
proof -
  have "fold remove1 ts ys = filter (\<lambda>x. x \<notin> set ts) ys" if "distinct ys" for ts ys :: "'a list"
    using that
  proof (induction ts arbitrary: ys)
    case (Cons t ts)
    then have "fold remove1 (t # ts) ys = filter (\<lambda>x. x \<notin> set ts) (filter (\<lambda>x. x \<noteq> t) ys)"
      by (simp add: distinct_remove1_removeAll removeAll_filter_not_eq eq_commute)
    then show ?case by (auto intro: filter_cong)
  qed simp
  with assms show ?thesis by (auto intro: filter_cong)
qed


text \<open>\<^verbatim>\<open>timer_sleep_until\<close> adds its timer before it sets the state of the task. A timer interrupt in between
  that finds the timer due calls \<^verbatim>\<open>wakeup_task\<close> on a task that still counts as running, and unlinks the timer;
  the task then sleeps with no timer left to wake it.\<close>

lemma sleep_until_lost_wakeup:
  assumes "timers_ok \<sigma>" "\<And>c. t \<notin> set (timer_list \<sigma> c)" "tm_expires (timers \<sigma> t) \<le> now'"
  shows "\<exists>\<sigma>'. expire_timers (call_timer wakeup_fn c) oneshot c now' now' (timer_add oneshot c now t \<sigma>) = Some \<sigma>' \<and>
    \<not> timer_pending (set_task_state cur TASK_INTERRUPTIBLE \<sigma>') t \<and>
    tk_state (tasks (set_task_state cur TASK_INTERRUPTIBLE \<sigma>') cur) = TASK_INTERRUPTIBLE"
proof -
  let ?\<sigma> = "timer_add oneshot c now t \<sigma>"
  have "timers_ok ?\<sigma>" by (rule timer_add_ok [OF assms(1,2)])
  from sched_timers.expire_timers_fires [OF this, of wakeup_fn c oneshot c now' now'] obtain \<sigma>' where
    e: "expire_timers (call_timer wakeup_fn c) oneshot c now' now' ?\<sigma> = Some \<sigma>'"
    "\<sigma>' = set_timer_interrupt oneshot c now' (fold (fire_timer (call_timer wakeup_fn c) c) (due_timers c now' ?\<sigma>) ?\<sigma>)"
    "due_timers c now' \<sigma>' = []" by auto
  have "timers \<sigma>' t = (timers \<sigma> t)\<lparr>tm_cpu := c\<rparr>" by (simp add: e(2) fold_fire_sel timer_add_sel)
  then have "t \<notin> set (timer_list \<sigma>' c)" "tm_cpu (timers \<sigma>' t) = c" using e(3) assms(3) by (auto simp: due_timers_def filter_empty_conv)
  with e(1) show ?thesis by (auto simp: timer_pending_def set_task_state_def)
qed

section \<open>No task is lost\<close>

definition linked :: "run_queue \<Rightarrow> u64 list" where
  "linked rq = taskq rq @ migrate_list rq"

text \<open>Every task is linked at most once, in the lists of the processor its \<^verbatim>\<open>cpu_id\<close> names, and no idle task
  is linked.\<close>

definition lists_ok :: "sched_sys \<Rightarrow> bool" where
  "lists_ok \<sigma> \<longleftrightarrow> (\<forall>c. distinct (linked (runqs \<sigma> c)) \<and>
     (\<forall>t \<in> set (linked (runqs \<sigma> c)). tk_cpu_id (tasks \<sigma> t) = c \<and> (\<forall>d. t \<noteq> idle_task (runqs \<sigma> d))))"

definition queued :: "sched_sys \<Rightarrow> u64 set" where
  "queued \<sigma> = (\<Union>c. set (linked (runqs \<sigma> c)))"

lemma lists_okI:
  assumes "\<And>c. distinct (linked (runqs \<sigma> c))" "\<And>c t. t \<in> set (linked (runqs \<sigma> c)) \<Longrightarrow> tk_cpu_id (tasks \<sigma> t) = c"
    "\<And>c t d. t \<in> set (linked (runqs \<sigma> c)) \<Longrightarrow> t \<noteq> idle_task (runqs \<sigma> d)"
  shows "lists_ok \<sigma>"
  using assms by (simp add: lists_ok_def)

lemma lists_okD:
  assumes "lists_ok \<sigma>"
  shows "distinct (linked (runqs \<sigma> c))" "t \<in> set (linked (runqs \<sigma> c)) \<Longrightarrow> tk_cpu_id (tasks \<sigma> t) = c"
    "t \<in> set (linked (runqs \<sigma> c)) \<Longrightarrow> t \<noteq> idle_task (runqs \<sigma> d)"
  using assms by (simp_all add: lists_ok_def)

lemma rr_pick_mset: "rr_pick T q = (n, q', m) \<Longrightarrow> mset q' + mset m = mset q"
  by (induction q arbitrary: n q' m) (auto split: if_splits prod.splits)

lemma rr_pick_next:
  "rr_pick T q = (n, q', m) \<Longrightarrow> n = Some t \<Longrightarrow>
     t \<in> set q' \<and> tk_state (T t) = TASK_RUNNING \<and> tk_cpu_id (T t) = tk_cpu_target_id (T t)"
  by (induction q arbitrary: n q' m) (auto split: if_splits prod.splits)

lemma rr_pick_none:
  "rr_pick T q = (None, q', m) \<Longrightarrow> t \<in> set q \<Longrightarrow> tk_state (T t) \<noteq> TASK_RUNNING \<or> tk_cpu_id (T t) \<noteq> tk_cpu_target_id (T t)"
  by (induction q arbitrary: q' m) (auto split: if_splits prod.splits)

text \<open>The steps of \<^verbatim>\<open>schedule()\<close> on the lists of its processor.\<close>

lemma put_prev_other: "d \<noteq> c \<Longrightarrow> runqs (put_prev c prev \<sigma>) d = runqs \<sigma> d"
  by (simp add: put_prev_def Let_def)

lemma put_prev_idle [simp]: "idle_task (runqs (put_prev c prev \<sigma>) d) = idle_task (runqs \<sigma> d)"
  by (simp add: put_prev_def Let_def rr_adjust_schedule_def)

lemma put_prev_lists:
  assumes "distinct (linked (runqs \<sigma> c))" "idle_task (runqs \<sigma> c) \<notin> set (linked (runqs \<sigma> c))"
  shows "distinct (linked (runqs (put_prev c prev \<sigma>) c))"
    "set (linked (runqs (put_prev c prev \<sigma>) c)) =
       (if prev = idle_task (runqs \<sigma> c) \<or> tk_state (tasks \<sigma> prev) = TASK_EXITED then set (linked (runqs \<sigma> c)) - {prev}
        else insert prev (set (linked (runqs \<sigma> c))))"
proof -
  let ?rq = "runqs \<sigma> c"
  have q: "distinct (taskq ?rq)" "distinct (migrate_list ?rq)" "set (taskq ?rq) \<inter> set (migrate_list ?rq) = {}"
    "idle_task ?rq \<notin> set (taskq ?rq)" "idle_task ?rq \<notin> set (migrate_list ?rq)"
    using assms by (simp_all add: linked_def)
  consider "prev = idle_task ?rq" | "prev \<noteq> idle_task ?rq" "tk_state (tasks \<sigma> prev) = TASK_EXITED"
    | "prev \<noteq> idle_task ?rq" "tk_state (tasks \<sigma> prev) \<noteq> TASK_EXITED" by blast
  then show "distinct (linked (runqs (put_prev c prev \<sigma>) c))"
    using q by cases (auto simp: put_prev_def Let_def linked_def rr_adjust_schedule_def remove1_idem)
  consider "prev = idle_task ?rq" | "prev \<noteq> idle_task ?rq" "tk_state (tasks \<sigma> prev) = TASK_EXITED"
    | "prev \<noteq> idle_task ?rq" "tk_state (tasks \<sigma> prev) \<noteq> TASK_EXITED" by blast
  then show "set (linked (runqs (put_prev c prev \<sigma>) c)) =
       (if prev = idle_task ?rq \<or> tk_state (tasks \<sigma> prev) = TASK_EXITED then set (linked ?rq) - {prev}
        else insert prev (set (linked ?rq)))"
    using q by cases (auto simp: put_prev_def Let_def linked_def rr_adjust_schedule_def remove1_idem)
qed

lemma put_prev_sel [simp]:
  "timers (put_prev c p \<sigma>) = timers \<sigma>" "timer_list (put_prev c p \<sigma>) = timer_list \<sigma>" "asys (put_prev c p \<sigma>) = asys \<sigma>"
  "tasks (put_prev c p \<sigma>) = tasks \<sigma>" "running (put_prev c p \<sigma>) = running \<sigma>"
  by (simp_all add: put_prev_def Let_def)

lemma pick_next_lists:
  assumes "pick_next c \<sigma> = (n, \<sigma>')"
  obtains rq where "\<sigma>' = set_rq c rq \<sigma>" "mset (linked rq) = mset (linked (runqs \<sigma> c))" "idle_task rq = idle_task (runqs \<sigma> c)"
    "n = idle_task rq \<or> n \<in> set (taskq rq)"
proof -
  obtain m q ms where p: "rr_pick (tasks \<sigma>) (taskq (runqs \<sigma> c)) = (m, q, ms)" by (metis prod_cases3)
  show thesis
  proof (rule that [of "(runqs \<sigma> c)\<lparr>taskq := q, migrate_list := migrate_list (runqs \<sigma> c) @ ms\<rparr>"])
    show "\<sigma>' = set_rq c ((runqs \<sigma> c)\<lparr>taskq := q, migrate_list := migrate_list (runqs \<sigma> c) @ ms\<rparr>) \<sigma>"
      using assms p by (simp add: pick_next_def rr_schedule_def)
    show "mset (linked ((runqs \<sigma> c)\<lparr>taskq := q, migrate_list := migrate_list (runqs \<sigma> c) @ ms\<rparr>)) = mset (linked (runqs \<sigma> c))"
      using rr_pick_mset [OF p] by (simp add: linked_def)
    show "n = idle_task ((runqs \<sigma> c)\<lparr>taskq := q, migrate_list := migrate_list (runqs \<sigma> c) @ ms\<rparr>) \<or>
        n \<in> set (taskq ((runqs \<sigma> c)\<lparr>taskq := q, migrate_list := migrate_list (runqs \<sigma> c) @ ms\<rparr>))"
      using assms p rr_pick_next [OF p] by (auto simp: pick_next_def rr_schedule_def split: option.splits)
  qed simp
qed

lemma migrate_task_keeps:
  assumes ok: "lists_ok \<sigma>" and t: "t \<in> set (migrate_list (runqs \<sigma> c))"
  shows "lists_ok (migrate_task c t \<sigma>)" "queued (migrate_task c t \<sigma>) = queued \<sigma>"
    "migrate_list (runqs (migrate_task c t \<sigma>) c) = remove1 t (migrate_list (runqs \<sigma> c))"
proof -
  let ?d = "tk_cpu_target_id (tasks \<sigma> t)" and ?\<sigma>' = "migrate_task c t \<sigma>"
  note L = lists_okD [OF ok]
  have tc: "t \<in> set (linked (runqs \<sigma> c))" using t by (simp add: linked_def)
  have other: "t \<notin> set (linked (runqs \<sigma> e))" if "e \<noteq> c" for e using L(2) [OF tc] L(2) [of t e] that by auto
  have dist: "distinct (taskq (runqs \<sigma> c) @ migrate_list (runqs \<sigma> c))" using L(1) [of c] by (simp add: linked_def)
  have ntq: "t \<notin> set (taskq (runqs \<sigma> c))" using dist t by auto
  have T: "tasks ?\<sigma>' = (tasks \<sigma>)(t := (tasks \<sigma> t)\<lparr>tk_cpu_id := ?d\<rparr>)" by (simp add: migrate_task_def Let_def)
  have R: "taskq (runqs ?\<sigma>' e) = (if e = ?d then taskq (runqs \<sigma> e) @ [t] else taskq (runqs \<sigma> e))"
    "migrate_list (runqs ?\<sigma>' e) = (if e = c then remove1 t (migrate_list (runqs \<sigma> e)) else migrate_list (runqs \<sigma> e))"
    "idle_task (runqs ?\<sigma>' e) = idle_task (runqs \<sigma> e)" for e
    by (simp_all add: migrate_task_def Let_def rr_sched_add_task_def)
  show "migrate_list (runqs ?\<sigma>' c) = remove1 t (migrate_list (runqs \<sigma> c))" by (simp add: R)
  have S: "set (linked (runqs ?\<sigma>' e)) = set (linked (runqs \<sigma> e)) - {t} \<union> (if e = ?d then {t} else {})" for e
    using other [of e] dist ntq by (auto simp: linked_def R)
  have D: "distinct (linked (runqs ?\<sigma>' e))" for e
  proof -
    have "distinct (linked (runqs \<sigma> e))" by (rule L(1))
    then show ?thesis using other [of e] ntq t by (auto simp: linked_def R)
  qed
  show "lists_ok ?\<sigma>'"
  proof (rule lists_okI)
    show "distinct (linked (runqs ?\<sigma>' e))" for e by (rule D)
    show "tk_cpu_id (tasks ?\<sigma>' u) = e" if "u \<in> set (linked (runqs ?\<sigma>' e))" for u e
    proof (cases "u = t")
      case True
      then show ?thesis using that by (simp add: S T split: if_splits)
    next
      case False
      then have "u \<in> set (linked (runqs \<sigma> e))" using that by (simp add: S split: if_splits)
      then show ?thesis using L(2) False by (simp add: T)
    qed
    show "u \<noteq> idle_task (runqs ?\<sigma>' f)" if "u \<in> set (linked (runqs ?\<sigma>' e))" for u e f
    proof (cases "u = t")
      case True
      then show ?thesis using L(3) [OF tc] by (simp add: R)
    next
      case False
      then have "u \<in> set (linked (runqs \<sigma> e))" using that by (simp add: S split: if_splits)
      then show ?thesis using L(3) by (simp add: R)
    qed
  qed
  have "u \<in> queued ?\<sigma>' \<longleftrightarrow> u \<in> queued \<sigma>" for u
  proof (cases "u = t")
    case True
    have "t \<in> set (linked (runqs ?\<sigma>' ?d))" by (simp only: S) simp
    then show ?thesis using True tc by (metis queued_def UN_I UNIV_I)
  next
    case False
    then have "u \<in> set (linked (runqs ?\<sigma>' e)) \<longleftrightarrow> u \<in> set (linked (runqs \<sigma> e))" for e by (simp add: S)
    then show ?thesis by (simp add: queued_def)
  qed
  then show "queued ?\<sigma>' = queued \<sigma>" by blast
qed

lemma fold_migrate_keeps:
  assumes "lists_ok \<sigma>" "migrate_list (runqs \<sigma> c) = ts"
  shows "lists_ok (fold (migrate_task c) ts \<sigma>)" "queued (fold (migrate_task c) ts \<sigma>) = queued \<sigma>"
    "migrate_list (runqs (fold (migrate_task c) ts \<sigma>) c) = []"
  using assms
proof (induction ts arbitrary: \<sigma>)
  case (Cons t ts)
  { case 1 then show ?case using migrate_task_keeps [of \<sigma> t c] Cons(1) [of "migrate_task c t \<sigma>"] by simp }
  { case 2 then show ?case using migrate_task_keeps [of \<sigma> t c] Cons(2) [of "migrate_task c t \<sigma>"] by simp }
  { case 3 then show ?case using migrate_task_keeps [of \<sigma> t c] Cons(3) [of "migrate_task c t \<sigma>"] by simp }
qed simp_all

section \<open>One call of \<^verbatim>\<open>schedule()\<close>\<close>

text \<open>The invariant of the scheduler: the lists are in order, an idle task belongs to its processor, and what runs on
  a processor is a task of that processor and not the idle task of another one. As a task has one \<^verbatim>\<open>cpu_id\<close>, none
  runs on two processors.\<close>

definition sched_inv :: "sched_sys \<Rightarrow> bool" where
  "sched_inv \<sigma> \<longleftrightarrow> lists_ok \<sigma> \<and> (\<forall>c. tk_cpu_id (tasks \<sigma> (idle_task (runqs \<sigma> c))) = c \<and>
     tk_cpu_id (tasks \<sigma> (running \<sigma> c)) = c \<and>
     (running \<sigma> c = idle_task (runqs \<sigma> c) \<or> (\<forall>d. running \<sigma> c \<noteq> idle_task (runqs \<sigma> d))))"

lemma sched_invD:
  assumes "sched_inv \<sigma>"
  shows "lists_ok \<sigma>" "tk_cpu_id (tasks \<sigma> (idle_task (runqs \<sigma> c))) = c" "tk_cpu_id (tasks \<sigma> (running \<sigma> c)) = c"
    "running \<sigma> c = idle_task (runqs \<sigma> c) \<or> (\<forall>d. running \<sigma> c \<noteq> idle_task (runqs \<sigma> d))"
  using assms by (simp_all add: sched_inv_def)

text \<open>The choice: the first runnable task of the queue, with the task that ran last at its end.\<close>

definition runnable :: "id_t \<Rightarrow> sched_sys \<Rightarrow> u64 \<Rightarrow> bool" where
  "runnable c \<sigma> t \<longleftrightarrow> tk_cpu_id (tasks \<sigma> t) = tk_cpu_target_id (tasks \<sigma> t) \<and>
     (tk_state (tasks \<sigma> t) = TASK_RUNNING \<or>
      t = running \<sigma> c \<and> tk_state (tasks \<sigma> t) = TASK_INTERRUPTIBLE \<and> tk_sig_pending (tasks \<sigma> t))"

definition rr_order :: "id_t \<Rightarrow> sched_sys \<Rightarrow> u64 list" where
  "rr_order c \<sigma> = (if running \<sigma> c = idle_task (runqs \<sigma> c) then taskq (runqs \<sigma> c)
     else remove1 (running \<sigma> c) (taskq (runqs \<sigma> c)) @ [running \<sigma> c])"

definition rr_next :: "id_t \<Rightarrow> sched_sys \<Rightarrow> u64" where
  "rr_next c \<sigma> = (case find (runnable c \<sigma>) (rr_order c \<sigma>) of None \<Rightarrow> idle_task (runqs \<sigma> c) | Some t \<Rightarrow> t)"

lemma rr_pick_find:
  "fst (rr_pick T q) = find (\<lambda>t. tk_cpu_id (T t) = tk_cpu_target_id (T t) \<and> tk_state (T t) = TASK_RUNNING) q"
  by (induction q) (auto split: prod.splits)

lemma find_snoc: "find P (xs @ [x]) = (case find P xs of None \<Rightarrow> if P x then Some x else None | Some y \<Rightarrow> Some y)"
  by (induction xs) auto

lemma find_cong_set: "(\<And>x. x \<in> set xs \<Longrightarrow> P x = Q x) \<Longrightarrow> find P xs = find Q xs"
  by (induction xs) auto

text \<open>The timer queue shares no field with the scheduler.\<close>

lemma sched_set_timers_sel [simp]:
  "asys (set_timers c ts (\<sigma> :: sched_sys)) = asys \<sigma>"
  "tasks (set_timers c ts (\<sigma> :: sched_sys)) = tasks \<sigma>"
  "runqs (set_timers c ts (\<sigma> :: sched_sys)) = runqs \<sigma>"
  "running (set_timers c ts (\<sigma> :: sched_sys)) = running \<sigma>"
  "sched_hz (set_timers c ts (\<sigma> :: sched_sys)) = sched_hz \<sigma>"
  by (simp_all add: set_timers_def)

lemma sched_set_timer_interrupt_sel [simp]:
  "asys (set_timer_interrupt o1 c now (\<sigma> :: sched_sys)) = asys \<sigma>"
  "tasks (set_timer_interrupt o1 c now (\<sigma> :: sched_sys)) = tasks \<sigma>"
  "runqs (set_timer_interrupt o1 c now (\<sigma> :: sched_sys)) = runqs \<sigma>"
  "running (set_timer_interrupt o1 c now (\<sigma> :: sched_sys)) = running \<sigma>"
  "sched_hz (set_timer_interrupt o1 c now (\<sigma> :: sched_sys)) = sched_hz \<sigma>"
  by (simp_all add: set_timer_interrupt_def Let_def split: list.split)

lemma sched_timer_add_sel [simp]:
  "asys (timer_add o1 c now t (\<sigma> :: sched_sys)) = asys \<sigma>"
  "tasks (timer_add o1 c now t (\<sigma> :: sched_sys)) = tasks \<sigma>"
  "runqs (timer_add o1 c now t (\<sigma> :: sched_sys)) = runqs \<sigma>"
  "running (timer_add o1 c now t (\<sigma> :: sched_sys)) = running \<sigma>"
  "sched_hz (timer_add o1 c now t (\<sigma> :: sched_sys)) = sched_hz \<sigma>"
  by (simp_all add: timer_add_def Let_def)

lemma sched_timer_del_sel [simp]:
  "asys (snd (timer_del o1 c now t (\<sigma> :: sched_sys))) = asys \<sigma>"
  "tasks (snd (timer_del o1 c now t (\<sigma> :: sched_sys))) = tasks \<sigma>"
  "runqs (snd (timer_del o1 c now t (\<sigma> :: sched_sys))) = runqs \<sigma>"
  "running (snd (timer_del o1 c now t (\<sigma> :: sched_sys))) = running \<sigma>"
  "sched_hz (snd (timer_del o1 c now t (\<sigma> :: sched_sys))) = sched_hz \<sigma>"
  by (simp_all add: timer_del_def Let_def)

lemma set_quantum_timer_sel [simp]:
  "asys (set_quantum_timer o1 c now i \<sigma>) = asys \<sigma>"
  "tasks (set_quantum_timer o1 c now i \<sigma>) = tasks \<sigma>"
  "runqs (set_quantum_timer o1 c now i \<sigma>) = runqs \<sigma>"
  "running (set_quantum_timer o1 c now i \<sigma>) = running \<sigma>"
  "sched_hz (set_quantum_timer o1 c now i \<sigma>) = sched_hz \<sigma>"
  by (simp_all add: set_quantum_timer_def Let_def)

text \<open>What the signal check does to the current task.\<close>

definition sig_fix :: "u64 \<Rightarrow> sched_sys \<Rightarrow> sched_sys" where
  "sig_fix prev \<sigma> = (if tk_state (tasks \<sigma> prev) = TASK_INTERRUPTIBLE \<and> tk_sig_pending (tasks \<sigma> prev)
               then set_task_state prev TASK_RUNNING \<sigma> else \<sigma>)"

lemma TASK_neq: "TASK_RUNNING \<noteq> TASK_EXITED" "TASK_INTERRUPTIBLE \<noteq> TASK_EXITED" "TASK_RUNNING \<noteq> TASK_INTERRUPTIBLE"
  by (simp_all add: TASK_RUNNING_def TASK_EXITED_def TASK_INTERRUPTIBLE_def)

lemma sig_fix_sel [simp]:
  "asys (sig_fix p \<sigma>) = asys \<sigma>" "runqs (sig_fix p \<sigma>) = runqs \<sigma>" "running (sig_fix p \<sigma>) = running \<sigma>"
  "tk_cpu_id (tasks (sig_fix p \<sigma>) t) = tk_cpu_id (tasks \<sigma> t)"
  "tk_cpu_target_id (tasks (sig_fix p \<sigma>) t) = tk_cpu_target_id (tasks \<sigma> t)"
  "tk_started (tasks (sig_fix p \<sigma>) t) = tk_started (tasks \<sigma> t)"
  "tk_state (tasks (sig_fix p \<sigma>) t) = TASK_EXITED \<longleftrightarrow> tk_state (tasks \<sigma> t) = TASK_EXITED"
  using TASK_neq by (auto simp: sig_fix_def set_task_state_def)

lemma sig_fix_running:
  "tk_cpu_id (tasks \<sigma> t) = tk_cpu_target_id (tasks \<sigma> t) \<and> tk_state (tasks (sig_fix (running \<sigma> c) \<sigma>) t) = TASK_RUNNING
     \<longleftrightarrow> runnable c \<sigma> t"
  by (auto simp: runnable_def sig_fix_def set_task_state_def)

lemma put_prev_taskq:
  "taskq (runqs (put_prev c prev \<sigma>) c) =
     (if prev = idle_task (runqs \<sigma> c) then taskq (runqs \<sigma> c)
      else remove1 prev (taskq (runqs \<sigma> c)) @
        (if tk_state (tasks \<sigma> prev) \<noteq> TASK_EXITED \<and> tk_cpu_id (tasks \<sigma> prev) = tk_cpu_target_id (tasks \<sigma> prev) then [prev] else []))"
  by (simp add: put_prev_def Let_def rr_adjust_schedule_def)

lemma not_exited: "runnable c \<sigma> t \<Longrightarrow> tk_state (tasks \<sigma> t) \<noteq> TASK_EXITED"
  using TASK_neq by (auto simp: runnable_def)

text \<open>The first half of \<^verbatim>\<open>schedule()\<close> takes the task that \<^const>\<open>rr_next\<close> says.\<close>

lemma pick_next_fst:
  "fst (pick_next c \<tau>) =
     (case find (\<lambda>t. tk_cpu_id (tasks \<tau> t) = tk_cpu_target_id (tasks \<tau> t) \<and> tk_state (tasks \<tau> t) = TASK_RUNNING)
        (taskq (runqs \<tau> c)) of None \<Rightarrow> idle_task (runqs \<tau> c) | Some t \<Rightarrow> t)"
  using rr_pick_find [of "tasks \<tau>" "taskq (runqs \<tau> c)"]
  by (cases "rr_pick (tasks \<tau>) (taskq (runqs \<tau> c))") (simp add: pick_next_def rr_schedule_def split: option.split)

lemma sched_switch_eq:
  assumes "sched_switch o1 c now \<sigma> = (prev, n, \<sigma>')"
  obtains \<tau> where "prev = running \<sigma> c" "pick_next c (put_prev c prev (sig_fix prev \<sigma>)) = (n, \<tau>)"
    "\<sigma>' = (let \<rho> = set_quantum_timer o1 c now 0 \<tau>; \<rho> = set_task prev ((tasks \<rho> prev)\<lparr>tk_need_resched := False\<rparr>) \<rho>
           in \<rho>\<lparr>running := (running \<rho>)(c := n)\<rparr>)"
proof -
  obtain m \<tau> where p: "pick_next c (put_prev c (running \<sigma> c) (sig_fix (running \<sigma> c) \<sigma>)) = (m, \<tau>)" by fastforce
  show thesis
    using that [of \<tau>] assms p unfolding sched_switch_def sig_fix_def [symmetric] Let_def by auto
qed

lemma sched_switch_next:
  assumes "sched_switch o1 c now \<sigma> = (prev, n, \<sigma>')"
  shows "n = rr_next c \<sigma>"
proof -
  let ?r = "running \<sigma> c"
  let ?p = "put_prev c ?r (sig_fix ?r \<sigma>)"
  from assms obtain \<tau> where p: "pick_next c ?p = (n, \<tau>)" by (rule sched_switch_eq) simp
  have "n = fst (pick_next c ?p)" by (simp add: p)
  also have "\<dots> = (case find (runnable c \<sigma>) (taskq (runqs ?p c)) of None \<Rightarrow> idle_task (runqs \<sigma> c) | Some t \<Rightarrow> t)"
    by (simp add: pick_next_fst sig_fix_running split: option.split)
  also have "find (runnable c \<sigma>) (taskq (runqs ?p c)) = find (runnable c \<sigma>) (rr_order c \<sigma>)"
    using not_exited [of c \<sigma> ?r] by (auto simp: put_prev_taskq rr_order_def find_snoc runnable_def split: option.split)
  finally show ?thesis by (simp add: rr_next_def)
qed

text \<open>The lists after the first half.\<close>

lemma sched_switch_lists:
  assumes ok: "lists_ok \<sigma>" and cur: "tk_cpu_id (tasks \<sigma> (running \<sigma> c)) = c"
    and idle: "running \<sigma> c = idle_task (runqs \<sigma> c) \<or> (\<forall>d. running \<sigma> c \<noteq> idle_task (runqs \<sigma> d))"
    and run: "sched_switch o1 c now \<sigma> = (prev, n, \<sigma>')"
  shows "lists_ok \<sigma>'" "running \<sigma>' = (running \<sigma>)(c := n)" "asys \<sigma>' = asys \<sigma>"
    "idle_task (runqs \<sigma>' d) = idle_task (runqs \<sigma> d)"
    "n = idle_task (runqs \<sigma> c) \<or> n \<in> set (taskq (runqs \<sigma>' c))"
    "set (linked (runqs \<sigma>' d)) =
       (if d \<noteq> c \<or> prev = idle_task (runqs \<sigma> c) then set (linked (runqs \<sigma> d))
        else if tk_state (tasks \<sigma> prev) = TASK_EXITED then set (linked (runqs \<sigma> c)) - {prev} else insert prev (set (linked (runqs \<sigma> c))))"
    "tk_cpu_id (tasks \<sigma>' t) = tk_cpu_id (tasks \<sigma> t)" "tk_started (tasks \<sigma>' t) = tk_started (tasks \<sigma> t)"
    "tk_state (tasks \<sigma>' t) = TASK_EXITED \<longleftrightarrow> tk_state (tasks \<sigma> t) = TASK_EXITED"
proof -
  let ?f = "sig_fix prev \<sigma>" and ?p = "put_prev c prev (sig_fix prev \<sigma>)"
  from run obtain \<tau> where prev: "prev = running \<sigma> c" and pick: "pick_next c ?p = (n, \<tau>)"
    and s': "\<sigma>' = (let \<rho> = set_quantum_timer o1 c now 0 \<tau>; \<rho> = set_task prev ((tasks \<rho> prev)\<lparr>tk_need_resched := False\<rparr>) \<rho>
           in \<rho>\<lparr>running := (running \<rho>)(c := n)\<rparr>)" by (rule sched_switch_eq)
  from pick obtain rq where rq: "\<tau> = set_rq c rq ?p" "mset (linked rq) = mset (linked (runqs ?p c))"
    "idle_task rq = idle_task (runqs \<sigma> c)" "n = idle_task rq \<or> n \<in> set (taskq rq)"
    by (rule pick_next_lists) simp
  note L = lists_okD [OF ok]
  have notin: "idle_task (runqs \<sigma> d) \<notin> set (linked (runqs \<sigma> e))" for d e using L(3) by blast
  have P: "distinct (linked (runqs ?p c))"
    "set (linked (runqs ?p c)) =
       (if prev = idle_task (runqs \<sigma> c) \<or> tk_state (tasks \<sigma> prev) = TASK_EXITED then set (linked (runqs \<sigma> c)) - {prev}
        else insert prev (set (linked (runqs \<sigma> c))))"
    using put_prev_lists [of ?f c prev] L(1) notin by simp_all
  have R: "runqs \<sigma>' = (runqs ?p)(c := rq)" and run': "running \<sigma>' = (running \<sigma>)(c := n)" and as: "asys \<sigma>' = asys \<sigma>"
    by (simp_all add: s' Let_def rq(1))
  have T: "tk_cpu_id (tasks \<sigma>' t) = tk_cpu_id (tasks \<sigma> t)" "tk_started (tasks \<sigma>' t) = tk_started (tasks \<sigma> t)"
    "tk_state (tasks \<sigma>' t) = TASK_EXITED \<longleftrightarrow> tk_state (tasks \<sigma> t) = TASK_EXITED" for t
    by (simp_all add: s' Let_def rq(1))
  have I: "idle_task (runqs \<sigma>' d) = idle_task (runqs \<sigma> d)" for d by (simp add: R rq(3))
  have S: "set (linked (runqs \<sigma>' d)) =
       (if d \<noteq> c \<or> prev = idle_task (runqs \<sigma> c) then set (linked (runqs \<sigma> d))
        else if tk_state (tasks \<sigma> prev) = TASK_EXITED then set (linked (runqs \<sigma> c)) - {prev} else insert prev (set (linked (runqs \<sigma> c))))" for d
    using P(2) mset_eq_setD [OF rq(2)] notin by (simp add: R put_prev_other)
  have D: "distinct (linked (runqs \<sigma>' d))" for d
    using P(1) mset_eq_imp_distinct_iff [OF rq(2)] L(1) by (simp add: R put_prev_other)
  show "lists_ok \<sigma>'"
  proof (rule lists_okI)
    show "distinct (linked (runqs \<sigma>' e))" for e by (rule D)
    fix u e d assume u: "u \<in> set (linked (runqs \<sigma>' e))"
    then consider "u \<in> set (linked (runqs \<sigma> e))" | "u = running \<sigma> c" "e = c" "u \<noteq> idle_task (runqs \<sigma> c)"
      by (auto simp: S prev split: if_splits)
    note uc = this
    show "tk_cpu_id (tasks \<sigma>' u) = e" using uc L(2) cur by cases (simp_all add: T)
    show "u \<noteq> idle_task (runqs \<sigma>' d)" using uc L(3) idle by cases (auto simp: I)
  qed
  show "n = idle_task (runqs \<sigma> c) \<or> n \<in> set (taskq (runqs \<sigma>' c))" using rq(3, 4) by (simp add: R)
  show "running \<sigma>' = (running \<sigma>)(c := n)" "asys \<sigma>' = asys \<sigma>" by (fact run' as)+
  show "idle_task (runqs \<sigma>' d) = idle_task (runqs \<sigma> d)" by (rule I)
  show "set (linked (runqs \<sigma>' d)) =
       (if d \<noteq> c \<or> prev = idle_task (runqs \<sigma> c) then set (linked (runqs \<sigma> d))
        else if tk_state (tasks \<sigma> prev) = TASK_EXITED then set (linked (runqs \<sigma> c)) - {prev} else insert prev (set (linked (runqs \<sigma> c))))"
    by (rule S)
  show "tk_cpu_id (tasks \<sigma>' t) = tk_cpu_id (tasks \<sigma> t)" "tk_started (tasks \<sigma>' t) = tk_started (tasks \<sigma> t)"
    "tk_state (tasks \<sigma>' t) = TASK_EXITED \<longleftrightarrow> tk_state (tasks \<sigma> t) = TASK_EXITED" by (fact T)+
qed

lemma sched_cong:
  assumes "runqs \<sigma>' = runqs \<sigma>" "running \<sigma>' = running \<sigma>" "\<And>t. tk_cpu_id (tasks \<sigma>' t) = tk_cpu_id (tasks \<sigma> t)"
  shows "lists_ok \<sigma>' = lists_ok \<sigma>" "queued \<sigma>' = queued \<sigma>" "sched_inv \<sigma>' = sched_inv \<sigma>"
  using assms by (simp_all add: lists_ok_def queued_def sched_inv_def)

lemma migrate_task_sel [simp]:
  "running (migrate_task c t \<sigma>) = running \<sigma>" "asys (migrate_task c t \<sigma>) = asys \<sigma>"
  "idle_task (runqs (migrate_task c t \<sigma>) d) = idle_task (runqs \<sigma> d)"
  "tk_state (tasks (migrate_task c t \<sigma>) u) = tk_state (tasks \<sigma> u)"
  "u \<noteq> t \<Longrightarrow> tk_cpu_id (tasks (migrate_task c t \<sigma>) u) = tk_cpu_id (tasks \<sigma> u)"
  by (simp_all add: migrate_task_def Let_def rr_sched_add_task_def)

lemma migrate_task_inv:
  assumes inv: "sched_inv \<sigma>" and t: "t \<in> set (migrate_list (runqs \<sigma> c))" "t \<noteq> running \<sigma> c"
  shows "sched_inv (migrate_task c t \<sigma>)"
proof -
  note I = sched_invD [OF inv]
  have tc: "t \<in> set (linked (runqs \<sigma> c))" using t(1) by (simp add: linked_def)
  have ni: "t \<noteq> idle_task (runqs \<sigma> d)" for d by (rule lists_okD(3) [OF I(1) tc])
  have nr: "t \<noteq> running \<sigma> d" for d using I(3) [of d] lists_okD(2) [OF I(1) tc] t(2) by auto
  show ?thesis
    unfolding sched_inv_def
    using migrate_task_keeps(1) [OF I(1) t(1)] I(2-4) ni nr by (metis migrate_task_sel(1, 3, 5))
qed

lemma fold_migrate_inv:
  assumes "sched_inv \<sigma>" "migrate_list (runqs \<sigma> c) = ts" "running \<sigma> c \<notin> set ts"
  shows "sched_inv (fold (migrate_task c) ts \<sigma>)"
  using assms
proof (induction ts arbitrary: \<sigma>)
  case (Cons t ts)
  have t: "t \<in> set (migrate_list (runqs \<sigma> c))" using Cons.prems by simp
  have "migrate_list (runqs (migrate_task c t \<sigma>) c) = ts"
    using migrate_task_keeps(3) [OF sched_invD(1) [OF Cons.prems(1)] t] Cons.prems by simp
  then show ?case using Cons.IH [of "migrate_task c t \<sigma>"] migrate_task_inv [OF Cons.prems(1) t] Cons.prems(3) by auto
qed simp

lemma fold_migrate_sel [simp]:
  "running (fold (migrate_task c) ts \<sigma>) = running \<sigma>" "asys (fold (migrate_task c) ts \<sigma>) = asys \<sigma>"
  "idle_task (runqs (fold (migrate_task c) ts \<sigma>) d) = idle_task (runqs \<sigma> d)"
  "tk_state (tasks (fold (migrate_task c) ts \<sigma>) u) = tk_state (tasks \<sigma> u)"
  by (induction ts arbitrary: \<sigma>) simp_all

text \<open>The tasks linked after a call: an exited task is gone, the task that ran is linked again.\<close>

definition requeued :: "id_t \<Rightarrow> sched_sys \<Rightarrow> u64 set" where
  "requeued c \<sigma> =
     (if running \<sigma> c = idle_task (runqs \<sigma> c) then queued \<sigma>
      else if tk_state (tasks \<sigma> (running \<sigma> c)) = TASK_EXITED then queued \<sigma> - {running \<sigma> c}
      else insert (running \<sigma> c) (queued \<sigma>))"

lemma sched_switch_inv:
  assumes inv: "sched_inv \<sigma>" and run: "sched_switch o1 c now \<sigma> = (prev, n, \<sigma>')"
  shows "sched_inv \<sigma>'" "queued \<sigma>' = requeued c \<sigma>" "n \<notin> set (migrate_list (runqs \<sigma>' c))"
proof -
  note I = sched_invD [OF inv] and S = sched_switch_lists [OF sched_invD(1, 3, 4) [OF inv] run]
  note L = lists_okD [OF I(1)] and L' = lists_okD [OF S(1)]
  have prev: "prev = running \<sigma> c" using run by (rule sched_switch_eq)
  have n: "tk_cpu_id (tasks \<sigma> n) = c" "n = idle_task (runqs \<sigma> c) \<or> (\<forall>d. n \<noteq> idle_task (runqs \<sigma> d))"
    using S(5) I(2) [of c] L'(2, 3) [of n c] by (auto simp: linked_def S(4, 7))
  show "sched_inv \<sigma>'"
    unfolding sched_inv_def using S(1) I(2-4) n by (simp add: S(2, 4, 7))
  show "n \<notin> set (migrate_list (runqs \<sigma>' c))"
    using S(5) L'(1) [of c] L'(3) [of n c c] by (auto simp: linked_def S(4))
  have other: "prev \<notin> set (linked (runqs \<sigma> d))" if "d \<noteq> c" for d using L(2) [of prev d] I(3) [of c] that prev by auto
  show "queued \<sigma>' = requeued c \<sigma>"
  proof (rule set_eqI)
    fix u
    show "u \<in> queued \<sigma>' \<longleftrightarrow> u \<in> requeued c \<sigma>"
    proof (cases "u = prev")
      case True
      then show ?thesis using other by (auto simp: queued_def requeued_def S(6) prev split: if_splits)
    next
      case False
      then have "u \<in> set (linked (runqs \<sigma>' d)) \<longleftrightarrow> u \<in> set (linked (runqs \<sigma> d))" for d by (auto simp: S(6))
      then show ?thesis using False by (simp add: queued_def requeued_def prev)
    qed
  qed
qed

lemma free_task_sel:
  assumes "free_task t \<sigma> = Some \<sigma>'"
  shows "runqs \<sigma>' = runqs \<sigma>" "running \<sigma>' = running \<sigma>" "tasks \<sigma>' = tasks \<sigma>"
  using assms by (auto simp: free_task_def)

lemma schedule_inv:
  assumes inv: "sched_inv \<sigma>" and run: "schedule o1 b c now \<sigma> = Some \<sigma>'"
  shows "sched_inv \<sigma>'" "queued \<sigma>' = requeued c \<sigma>" "running \<sigma>' = (running \<sigma>)(c := rr_next c \<sigma>)"
proof -
  obtain prev n \<tau> where sw: "sched_switch o1 c now \<sigma> = (prev, n, \<tau>)" by (metis prod_cases3)
  note W = sched_switch_inv [OF inv sw] and n = sched_switch_next [OF sw]
  have r: "running \<tau> = (running \<sigma>)(c := n)" by (rule sched_switch_lists(2) [OF sched_invD(1, 3, 4) [OF inv] sw])
  have goal: "sched_inv \<sigma>' \<and> queued \<sigma>' = requeued c \<sigma> \<and> running \<sigma>' = running \<tau>"
  proof (cases "prev \<noteq> n \<and> \<not> tk_started (tasks \<tau> n)")
    case True
    then have "runqs \<sigma>' = runqs \<tau>" "running \<sigma>' = running \<tau>" "\<And>t. tk_cpu_id (tasks \<sigma>' t) = tk_cpu_id (tasks \<tau> t)"
      using run by (auto simp: schedule_def sw schedule_new_task_tail_def split: if_splits dest: free_task_sel)
    then show ?thesis using W sched_cong by metis
  next
    case False
    then obtain \<rho> where fr: "(if prev \<noteq> n \<and> tk_state (tasks \<tau> prev) = TASK_EXITED then free_task prev \<tau> else Some \<tau>) = Some \<rho>"
      and s': "\<sigma>' = fold (migrate_task c) (migrate_list (runqs \<rho> c)) \<rho>"
      using run by (auto simp: schedule_def sw schedule_tail_def bind_eq_Some_conv)
    then have \<rho>: "runqs \<rho> = runqs \<tau>" "running \<rho> = running \<tau>" "tasks \<rho> = tasks \<tau>"
      by (auto split: if_splits dest: free_task_sel)
    have "sched_inv \<rho>" "queued \<rho> = requeued c \<sigma>" using W sched_cong [of \<rho> \<tau>] \<rho> by simp_all
    moreover have "running \<rho> c \<notin> set (migrate_list (runqs \<rho> c))" using W(3) by (simp add: \<rho> r)
    ultimately show ?thesis
      using fold_migrate_inv [of \<rho> c] fold_migrate_keeps(2) [of \<rho> c] sched_invD(1) by (simp add: s' \<rho>(2))
  qed
  then show "sched_inv \<sigma>'" "queued \<sigma>' = requeued c \<sigma>" "running \<sigma>' = (running \<sigma>)(c := rr_next c \<sigma>)" by (simp_all add: r n)
qed

section \<open>The scheduler as a state machine\<close>

text \<open>The steps the processors take, one at a time: a call of \<^verbatim>\<open>schedule()\<close> that returns; a task on a processor
  changes its own state, as it does before it sleeps or exits; a wakeup of a task that is not new; a task
  is bound to a processor; the structure of a task nobody runs or has linked is written; such a task, in the
  state \<^verbatim>\<open>TASK_STOPPED\<close> in which it was created, is started by its first wakeup.\<close>

datatype sched_event = Call_schedule id_t | Set_state id_t | Wakeup u64 | Bind u64 | Create u64 | Start u64

definition unused_task :: "u64 \<Rightarrow> sched_sys \<Rightarrow> bool" where
  "unused_task t \<sigma> \<longleftrightarrow> t \<notin> queued \<sigma> \<and> (\<forall>d. t \<noteq> running \<sigma> d \<and> t \<noteq> idle_task (runqs \<sigma> d))"

inductive sched_step :: "sched_event \<Rightarrow> sched_sys \<Rightarrow> sched_sys \<Rightarrow> bool" where
  step_schedule: "schedule o1 b c now \<sigma> = Some \<sigma>' \<Longrightarrow> sched_step (Call_schedule c) \<sigma> \<sigma>'"
| step_state: "sched_step (Set_state c) \<sigma> (set_task_state (running \<sigma> c) st \<sigma>)"
| step_wakeup: "tk_state (tasks \<sigma> t) \<noteq> TASK_STOPPED \<Longrightarrow> sched_step (Wakeup t) \<sigma> (snd (sched_wakeup_task c t v \<sigma>))"
| step_bind: "sched_step (Bind t) \<sigma> (snd (kthread_bind nr t cpu \<sigma>))"
| step_create: "unused_task t \<sigma> \<Longrightarrow> sched_step (Create t) \<sigma> (set_task t tk \<sigma>)"
| step_start: "unused_task t \<sigma> \<Longrightarrow> tk_state (tasks \<sigma> t) = TASK_STOPPED \<Longrightarrow>
     sched_step (Start t) \<sigma> (snd (sched_wakeup_task c t TASK_STOPPED \<sigma>))"

inductive_cases step_scheduleE: "sched_step (Call_schedule c) \<sigma> \<sigma>'"

inductive sched_run :: "sched_sys \<Rightarrow> sched_event list \<Rightarrow> sched_sys \<Rightarrow> bool" where
  run_none: "sched_run \<sigma> [] \<sigma>"
| run_step: "sched_run \<sigma> es \<tau> \<Longrightarrow> sched_step e \<tau> \<sigma>' \<Longrightarrow> sched_run \<sigma> (es @ [e]) \<sigma>'"

lemma set_task_inv:
  assumes "sched_inv \<sigma>" "unused_task t \<sigma>"
  shows "sched_inv (set_task t tk \<sigma>)"
proof -
  note I = sched_invD [OF assms(1)]
  have q: "t \<notin> set (linked (runqs \<sigma> d))" "t \<noteq> running \<sigma> d" "t \<noteq> idle_task (runqs \<sigma> d)" for d
    using assms(2) by (auto simp: unused_task_def queued_def)
  have "lists_ok (set_task t tk \<sigma>)"
    using lists_okD [OF I(1)] q(1) by (intro lists_okI) (auto simp: fun_upd_def)
  then show ?thesis using I(2-4) q(2, 3) by (simp add: sched_inv_def) metis
qed

lemma sched_add_task_inv:
  assumes "sched_inv \<sigma>" "unused_task t \<sigma>"
  shows "sched_inv (sched_add_task c t \<sigma>)"
proof -
  let ?d = "tk_cpu_id (tasks \<sigma> t)" and ?\<sigma>' = "sched_add_task c t \<sigma>"
  note I = sched_invD [OF assms(1)] and L = lists_okD [OF sched_invD(1) [OF assms(1)]]
  have q: "t \<notin> set (linked (runqs \<sigma> d))" "t \<noteq> running \<sigma> d" "t \<noteq> idle_task (runqs \<sigma> d)" for d
    using assms(2) by (auto simp: unused_task_def queued_def)
  have R: "tasks ?\<sigma>' = tasks \<sigma>" "running ?\<sigma>' = running \<sigma>" "idle_task (runqs ?\<sigma>' d) = idle_task (runqs \<sigma> d)"
    "taskq (runqs ?\<sigma>' d) = taskq (runqs \<sigma> d) @ (if d = ?d then [t] else [])"
    "migrate_list (runqs ?\<sigma>' d) = migrate_list (runqs \<sigma> d)" for d
    by (simp_all add: sched_add_task_def Let_def rr_sched_add_task_def)
  have S: "set (linked (runqs ?\<sigma>' d)) = set (linked (runqs \<sigma> d)) \<union> (if d = ?d then {t} else {})" for d
    by (auto simp: linked_def R)
  have D: "distinct (linked (runqs ?\<sigma>' d))" for d
    using L(1) [of d] q(1) [of d] by (auto simp: linked_def R)
  have "lists_ok ?\<sigma>'"
  proof (rule lists_okI)
    fix u d e assume u: "u \<in> set (linked (runqs ?\<sigma>' d))"
    show "tk_cpu_id (tasks ?\<sigma>' u) = d" using u L(2) [of u d] by (auto simp: S R split: if_splits)
    show "u \<noteq> idle_task (runqs ?\<sigma>' e)" using u L(3) [of u d e] q(3) [of e] by (auto simp: S R split: if_splits)
  qed (rule D)
  then show ?thesis using I(2-4) by (simp add: sched_inv_def R)
qed

lemma sched_wakeup_task_lists:
  assumes "tk_state (tasks \<sigma> t) \<noteq> TASK_STOPPED"
  shows "runqs (snd (sched_wakeup_task c t v \<sigma>)) = runqs \<sigma>"
    "tk_cpu_id (tasks (snd (sched_wakeup_task c t v \<sigma>)) u) = tk_cpu_id (tasks \<sigma> u)"
  using assms by (simp_all add: sched_wakeup_task_def Let_def set_task_state_def)

lemma sched_wakeup_stopped:
  assumes "tk_state (tasks \<sigma> t) = TASK_STOPPED"
  shows "runqs (snd (sched_wakeup_task c t v \<sigma>)) = runqs (sched_add_task c t \<sigma>)"
    "running (snd (sched_wakeup_task c t v \<sigma>)) = running (sched_add_task c t \<sigma>)"
    "tk_cpu_id (tasks (snd (sched_wakeup_task c t v \<sigma>)) u) = tk_cpu_id (tasks (sched_add_task c t \<sigma>) u)"
  using assms by (simp_all add: sched_wakeup_task_def Let_def set_task_state_def sched_add_task_def)

lemma sched_step_inv:
  assumes "sched_step e \<sigma> \<sigma>'" "sched_inv \<sigma>"
  shows "sched_inv \<sigma>'"
  using assms
proof cases
  case step_schedule
  then show ?thesis using schedule_inv(1) assms(2) by blast
next
  case (step_state c st)
  then show ?thesis using sched_cong(3) [of \<sigma>' \<sigma>] assms(2) by (simp add: set_task_state_def)
next
  case (step_wakeup t c v)
  then show ?thesis using sched_cong(3) [of \<sigma>' \<sigma>] assms(2) by (simp add: sched_wakeup_task_lists sched_wakeup_task_sel)
next
  case (step_bind t nr cpu)
  then show ?thesis using sched_cong(3) [of \<sigma>' \<sigma>] assms(2) by (simp add: kthread_bind_def)
next
  case step_create
  then show ?thesis using set_task_inv assms(2) by blast
next
  case (step_start t c)
  then show ?thesis
    using sched_cong(3) [of \<sigma>' "sched_add_task c t \<sigma>"] sched_add_task_inv [of \<sigma> t c] assms(2) by (simp add: sched_wakeup_stopped)
qed


section \<open>No task starves\<close>

text \<open>A task that is ready on a processor and does not run there, and the tasks that go before it.\<close>

definition ready_on :: "id_t \<Rightarrow> u64 \<Rightarrow> sched_sys \<Rightarrow> bool" where
  "ready_on c t \<sigma> \<longleftrightarrow> t \<in> set (taskq (runqs \<sigma> c)) \<and> running \<sigma> c \<noteq> t \<and> tk_state (tasks \<sigma> t) = TASK_RUNNING \<and>
     tk_cpu_id (tasks \<sigma> t) = tk_cpu_target_id (tasks \<sigma> t)"

definition ahead :: "id_t \<Rightarrow> u64 \<Rightarrow> sched_sys \<Rightarrow> u64 set" where
  "ahead c t \<sigma> = set (takeWhile (\<lambda>x. x \<noteq> t) (taskq (runqs \<sigma> c))) - {running \<sigma> c}"

text \<open>The task is passed over \<^term>\<open>n\<close> times in a run: \<^term>\<open>n\<close> calls of \<^verbatim>\<open>schedule()\<close> on the processor choose another task
  while it is ready, with any steps of the rest of the system between them.\<close>

inductive passed_over :: "id_t \<Rightarrow> u64 \<Rightarrow> nat \<Rightarrow> sched_sys \<Rightarrow> bool" for c t where
  over_none: "passed_over c t 0 \<sigma>"
| over_other: "ready_on c t \<sigma> \<Longrightarrow> sched_step e \<sigma> \<sigma>' \<Longrightarrow> e \<noteq> Call_schedule c \<Longrightarrow> passed_over c t n \<sigma>' \<Longrightarrow> passed_over c t n \<sigma>"
| over_call: "ready_on c t \<sigma> \<Longrightarrow> sched_step (Call_schedule c) \<sigma> \<sigma>' \<Longrightarrow> running \<sigma>' c \<noteq> t \<Longrightarrow> passed_over c t n \<sigma>' \<Longrightarrow>
     passed_over c t (Suc n) \<sigma>"

lemma takeWhile_found: "t \<in> set xs \<Longrightarrow> takeWhile (\<lambda>x. x \<noteq> t) (xs @ ys) = takeWhile (\<lambda>x. x \<noteq> t) xs"
  by (induction xs) auto

lemma takeWhile_remove1_neq: "r \<noteq> t \<Longrightarrow> takeWhile (\<lambda>x. x \<noteq> t) (remove1 r xs) = remove1 r (takeWhile (\<lambda>x. x \<noteq> t) xs)"
  by (induction xs) auto

text \<open>The choice among the tasks of the queue, for a task \<^term>\<open>t\<close> in it that could be chosen.\<close>

lemma rr_pick_before:
  assumes "rr_pick T q = (n, q', m)" "t \<in> set q" "tk_cpu_id (T t) = tk_cpu_target_id (T t)" "tk_state (T t) = TASK_RUNNING"
  shows "t \<in> set q'" "set (takeWhile (\<lambda>x. x \<noteq> t) q') \<subseteq> set (takeWhile (\<lambda>x. x \<noteq> t) q)"
    "n \<noteq> Some t \<Longrightarrow> \<exists>u \<in> set (takeWhile (\<lambda>x. x \<noteq> t) q). n = Some u"
  using assms
  by (induction q arbitrary: n q' m) (auto split: if_splits prod.splits)

text \<open>Only the calls on a processor reorder its queue; every other step can only add to its end.\<close>

definition extends :: "id_t \<Rightarrow> sched_sys \<Rightarrow> sched_sys \<Rightarrow> bool" where
  "extends c \<sigma> \<sigma>' \<longleftrightarrow> running \<sigma>' c = running \<sigma> c \<and> (\<exists>zs. taskq (runqs \<sigma>' c) = taskq (runqs \<sigma> c) @ zs)"

lemma extendsI: "running \<sigma>' c = running \<sigma> c \<Longrightarrow> taskq (runqs \<sigma>' c) = taskq (runqs \<sigma> c) @ zs \<Longrightarrow> extends c \<sigma> \<sigma>'"
  by (auto simp: extends_def)

lemma extends_trans: "extends c \<sigma> \<tau> \<Longrightarrow> extends c \<tau> \<rho> \<Longrightarrow> extends c \<sigma> \<rho>"
  by (auto simp: extends_def)

lemma migrate_task_extends: "extends d \<sigma> (migrate_task c t \<sigma>)"
  by (rule extendsI [where zs = "if tk_cpu_target_id (tasks \<sigma> t) = d then [t] else []"])
    (auto simp: migrate_task_def Let_def rr_sched_add_task_def)

lemma fold_migrate_extends: "extends d \<sigma> (fold (migrate_task c) ts \<sigma>)"
proof (induction ts arbitrary: \<sigma>)
  case Nil
  show ?case by (rule extendsI [where zs = "[]"]) simp_all
next
  case (Cons t ts)
  then show ?case using extends_trans [OF migrate_task_extends, of d c t \<sigma>] by simp
qed

lemma schedule_extends:
  assumes "schedule o1 b c now \<sigma> = Some \<sigma>'" "sched_switch o1 c now \<sigma> = (prev, n, \<tau>)"
  shows "extends d \<tau> \<sigma>'"
proof (cases "prev \<noteq> n \<and> \<not> tk_started (tasks \<tau> n)")
  case True
  then have "runqs \<sigma>' = runqs \<tau>" "running \<sigma>' = running \<tau>"
    using assms by (auto simp: schedule_def schedule_new_task_tail_def split: if_splits dest: free_task_sel)
  then show ?thesis by (intro extendsI [where zs = "[]"]) simp_all
next
  case False
  then obtain \<rho> where fr: "(if prev \<noteq> n \<and> tk_state (tasks \<tau> prev) = TASK_EXITED then free_task prev \<tau> else Some \<tau>) = Some \<rho>"
    and s': "\<sigma>' = fold (migrate_task c) (migrate_list (runqs \<rho> c)) \<rho>"
    using assms by (auto simp: schedule_def schedule_tail_def bind_eq_Some_conv)
  then have "runqs \<rho> = runqs \<tau>" "running \<rho> = running \<tau>" by (auto split: if_splits dest: free_task_sel)
  then have "extends d \<tau> \<rho>" by (intro extendsI [where zs = "[]"]) simp_all
  then show ?thesis unfolding s' by (rule extends_trans) (rule fold_migrate_extends)
qed

lemma ahead_extends:
  assumes "extends c \<sigma> \<sigma>'" "t \<in> set (taskq (runqs \<sigma> c))"
  shows "ahead c t \<sigma>' = ahead c t \<sigma>"
  using assms by (auto simp: extends_def ahead_def takeWhile_found)

lemma sched_switch_ahead:
  assumes inv: "sched_inv \<sigma>" and r: "ready_on c t \<sigma>" and run: "sched_switch o1 c now \<sigma> = (prev, n, \<tau>)" and n: "n \<noteq> t"
  shows "t \<in> set (taskq (runqs \<tau> c))" "ahead c t \<tau> \<subseteq> ahead c t \<sigma> - {n}" "n \<in> ahead c t \<sigma>"
proof -
  let ?p = "put_prev c prev (sig_fix prev \<sigma>)"
  from run obtain \<rho> where prev: "prev = running \<sigma> c" and pick: "pick_next c ?p = (n, \<rho>)"
    and \<tau>: "\<tau> = (let \<rho> = set_quantum_timer o1 c now 0 \<rho>; \<rho> = set_task prev ((tasks \<rho> prev)\<lparr>tk_need_resched := False\<rparr>) \<rho>
           in \<rho>\<lparr>running := (running \<rho>)(c := n)\<rparr>)" by (rule sched_switch_eq)
  obtain m q ms where rp: "rr_pick (tasks ?p) (taskq (runqs ?p c)) = (m, q, ms)" by (metis prod_cases3)
  have q: "taskq (runqs \<tau> c) = q" and nm: "n = (case m of None \<Rightarrow> idle_task (runqs ?p c) | Some u \<Rightarrow> u)"
    using pick rp by (auto simp: \<tau> Let_def pick_next_def rr_schedule_def split: option.split)
  have tp: "t \<noteq> prev" "t \<in> set (taskq (runqs \<sigma> c))" using r by (auto simp: ready_on_def prev)
  have dist: "distinct (taskq (runqs \<sigma> c))" "idle_task (runqs \<sigma> c) \<notin> set (taskq (runqs \<sigma> c))"
    using lists_okD [OF sched_invD(1) [OF inv], where c = c] by (auto simp: linked_def)
  have tq: "t \<in> set (taskq (runqs ?p c))" using tp by (simp add: put_prev_taskq)
  have before: "set (takeWhile (\<lambda>x. x \<noteq> t) (taskq (runqs ?p c))) = ahead c t \<sigma>"
  proof (cases "prev = idle_task (runqs \<sigma> c)")
    case True
    then have "prev \<notin> set (takeWhile (\<lambda>x. x \<noteq> t) (taskq (runqs \<sigma> c)))" using dist(2) set_takeWhileD by metis
    then show ?thesis using True prev by (simp add: put_prev_taskq ahead_def)
  next
    case False
    then show ?thesis
      using tp dist(1) prev by (simp add: put_prev_taskq ahead_def takeWhile_found takeWhile_remove1_neq distinct_takeWhile)
  qed
  have T: "tk_cpu_id (tasks ?p t) = tk_cpu_target_id (tasks ?p t)" "tk_state (tasks ?p t) = TASK_RUNNING"
    using r tp(1) by (simp_all add: ready_on_def sig_fix_def set_task_state_def)
  note B = rr_pick_before [OF rp tq T, unfolded before]
  show "t \<in> set (taskq (runqs \<tau> c))" using B(1) by (simp add: q)
  have "m \<noteq> Some t" using n nm by auto
  then show "n \<in> ahead c t \<sigma>" using B(3) nm by auto
  have "ahead c t \<tau> = set (takeWhile (\<lambda>x. x \<noteq> t) q) - {n}" unfolding ahead_def q by (simp add: \<tau> Let_def)
  then show "ahead c t \<tau> \<subseteq> ahead c t \<sigma> - {n}" using B(2) by blast
qed

lemma other_step_extends:
  assumes "sched_step e \<sigma> \<sigma>'" "sched_inv \<sigma>" "e \<noteq> Call_schedule c"
  shows "extends c \<sigma> \<sigma>'"
  using assms
proof cases
  case (step_schedule o1 b d now)
  then have d: "d \<noteq> c" using assms(3) by simp
  obtain prev n \<tau> where sw: "sched_switch o1 d now \<sigma> = (prev, n, \<tau>)" by (metis prod_cases3)
  then obtain \<rho> where "pick_next d (put_prev d prev (sig_fix prev \<sigma>)) = (n, \<rho>)"
    "\<tau> = (let \<rho> = set_quantum_timer o1 d now 0 \<rho>; \<rho> = set_task prev ((tasks \<rho> prev)\<lparr>tk_need_resched := False\<rparr>) \<rho>
           in \<rho>\<lparr>running := (running \<rho>)(d := n)\<rparr>)" by (rule sched_switch_eq)
  then have "running \<tau> c = running \<sigma> c" "runqs \<tau> c = runqs \<sigma> c"
    using d by (auto elim!: pick_next_lists simp: Let_def put_prev_other)
  then have "extends c \<sigma> \<tau>" by (intro extendsI [where zs = "[]"]) simp_all
  then show ?thesis using schedule_extends [OF step_schedule(2) sw] extends_trans by blast
next
  case (step_start t d)
  then show ?thesis
    by (intro extendsI [where zs = "if tk_cpu_id (tasks \<sigma> t) = c then [t] else []"])
      (auto simp: sched_wakeup_stopped sched_add_task_def Let_def rr_sched_add_task_def)
qed (auto intro!: extendsI [where zs = "[]"] simp: set_task_state_def sched_wakeup_task_lists sched_wakeup_task_sel kthread_bind_def)


section \<open>What a call of \<^verbatim>\<open>schedule()\<close> does\<close>

lemma rr_next_not_exited:
  assumes "rr_next c \<sigma> \<noteq> idle_task (runqs \<sigma> c)"
  shows "runnable c \<sigma> (rr_next c \<sigma>)" "tk_state (tasks \<sigma> (rr_next c \<sigma>)) \<noteq> TASK_EXITED"
proof -
  show "runnable c \<sigma> (rr_next c \<sigma>)"
  proof (cases "find (runnable c \<sigma>) (rr_order c \<sigma>)")
    case (Some t)
    then have "runnable c \<sigma> t" by (auto simp: find_Some_iff)
    then show ?thesis using Some by (simp add: rr_next_def)
  qed (use assms in \<open>simp add: rr_next_def\<close>)
  then show "tk_state (tasks \<sigma> (rr_next c \<sigma>)) \<noteq> TASK_EXITED" by (rule not_exited)
qed

lemma free_task_held:
  assumes "kmem_inv (kheap (asys \<sigma>)) K P" "t = blk_addr (kmem_pool (kheap (asys \<sigma>))) p" "(p, unat TASK_ORDER + 12) \<in> P"
  obtains \<sigma>' where "free_task t \<sigma> = Some \<sigma>'" "kmem_inv (kheap (asys \<sigma>')) K (P - {(p, unat TASK_ORDER + 12)})"
proof -
  from assms(1, 3) obtain s where "kmem_free_pages (kheap (asys \<sigma>)) t TASK_ORDER = Some s"
    "kmem_inv s K (P - {(p, unat TASK_ORDER + 12)})"
    unfolding assms(2) by (rule kmem_free_pages_held) auto
  then show thesis using that by (simp add: free_task_def)
qed

lemma schedule_tails:
  assumes sw: "sched_switch o1 c now \<sigma> = (prev, n, \<tau>)"
    and free: "tk_state (tasks \<tau> prev) = TASK_EXITED \<Longrightarrow> prev \<noteq> n \<and> prev \<noteq> b"
    and heap: "kmem_inv (kheap (asys \<tau>)) K P"
      "tk_state (tasks \<tau> prev) = TASK_EXITED \<Longrightarrow>
         prev = blk_addr (kmem_pool (kheap (asys \<tau>))) p \<and> (p, unat TASK_ORDER + 12) \<in> P"
  shows "\<exists>\<sigma>'. schedule o1 b c now \<sigma> = Some \<sigma>' \<and>
    kmem_inv (kheap (asys \<sigma>')) K (if tk_state (tasks \<tau> prev) = TASK_EXITED then P - {(p, unat TASK_ORDER + 12)} else P)"
proof (cases "prev \<noteq> n \<and> \<not> tk_started (tasks \<tau> n)")
  case new: True
  let ?\<tau> = "set_task n ((tasks \<tau> n)\<lparr>tk_started := True\<rparr>) \<tau>"
  have st: "tk_state (tasks ?\<tau> prev) = tk_state (tasks \<tau> prev)" using new by simp
  show ?thesis
  proof (cases "tk_state (tasks \<tau> prev) = TASK_EXITED")
    case True
    with heap obtain \<rho> where "free_task prev ?\<tau> = Some \<rho>" "kmem_inv (kheap (asys \<rho>)) K (P - {(p, unat TASK_ORDER + 12)})"
      using free_task_held [of ?\<tau> K P prev p] by auto
    then show ?thesis using True new free st by (simp add: schedule_def sw schedule_new_task_tail_def)
  next
    case False
    then show ?thesis using new st heap(1) by (simp add: schedule_def sw schedule_new_task_tail_def)
  qed
next
  case old: False
  show ?thesis
  proof (cases "tk_state (tasks \<tau> prev) = TASK_EXITED")
    case True
    with heap obtain \<rho> where "free_task prev \<tau> = Some \<rho>" "kmem_inv (kheap (asys \<rho>)) K (P - {(p, unat TASK_ORDER + 12)})"
      using free_task_held [of \<tau> K P prev p] by auto
    then show ?thesis using True old free by (simp add: schedule_def sw schedule_tail_def)
  next
    case False
    then show ?thesis using old heap(1) by (auto simp: schedule_def sw schedule_tail_def)
  qed
qed

text \<open>C28: A call of \<^verbatim>\<open>schedule()\<close> returns, whatever the state of the current task. The processor then runs the first task of
  the run queue that is ready, in the order in which the task that called goes last, and the idle task when none is. No task is
  lost: every task that was linked in a list still is, the caller is linked again unless it has exited, and then the pages
  of its task structure are given back to the kernel heap. The lists stay in order.\<close>

theorem schedule_correct:
  assumes inv: "sched_inv \<sigma>" and heap: "kmem_inv (kheap (asys \<sigma>)) K P"
    and exited: "tk_state (tasks \<sigma> (running \<sigma> c)) = TASK_EXITED \<longrightarrow> running \<sigma> c \<noteq> idle_task (runqs \<sigma> c) \<and> running \<sigma> c \<noteq> bootstrap_task \<and>
      running \<sigma> c = blk_addr (kmem_pool (kheap (asys \<sigma>))) p \<and> (p, unat TASK_ORDER + 12) \<in> P"
  shows "\<exists>\<sigma>'. schedule oneshot bootstrap_task c now \<sigma> = Some \<sigma>' \<and>
    running \<sigma>' = (running \<sigma>)(c := rr_next c \<sigma>) \<and> queued \<sigma>' = requeued c \<sigma> \<and> sched_inv \<sigma>' \<and>
    kmem_inv (kheap (asys \<sigma>')) K (if tk_state (tasks \<sigma> (running \<sigma> c)) = TASK_EXITED then P - {(p, unat TASK_ORDER + 12)} else P)"
proof -
  obtain q n \<tau> where sw: "sched_switch oneshot c now \<sigma> = (q, n, \<tau>)" by (metis prod_cases3)
  note S = sched_switch_lists [OF sched_invD(1, 3, 4) [OF inv] sw]
  have q: "q = running \<sigma> c" using sw by (rule sched_switch_eq)
  have "q \<noteq> n" if "tk_state (tasks \<sigma> q) = TASK_EXITED"
    using rr_next_not_exited [of c \<sigma>] exited that sched_switch_next [OF sw] q by metis
  then have "\<exists>\<sigma>'. schedule oneshot bootstrap_task c now \<sigma> = Some \<sigma>' \<and>
      kmem_inv (kheap (asys \<sigma>')) K (if tk_state (tasks \<tau> q) = TASK_EXITED then P - {(p, unat TASK_ORDER + 12)} else P)"
    using schedule_tails [OF sw, of bootstrap_task K P p] heap exited S(9) q by (simp add: S(3))
  then obtain \<sigma>' where run: "schedule oneshot bootstrap_task c now \<sigma> = Some \<sigma>'"
    and h: "kmem_inv (kheap (asys \<sigma>')) K (if tk_state (tasks \<sigma> (running \<sigma> c)) = TASK_EXITED then P - {(p, unat TASK_ORDER + 12)} else P)"
    using S(9) q by auto
  show ?thesis using schedule_inv [OF inv run] h run by blast
qed

section \<open>Waiting\<close>

text \<open>\<^verbatim>\<open>waitq_wakeup\<close> wakes every sleeping task that is waiting, and changes the state of no other.\<close>

lemma waitq_wakeup_state:
  "tk_state (tasks (waitq_wakeup c task_of q \<sigma>) u) =
     (if u \<in> task_of ` set q \<and> tk_state (tasks \<sigma> u) AND TASK_NORMAL \<noteq> 0 then TASK_RUNNING else tk_state (tasks \<sigma> u))"
  unfolding waitq_wakeup_def
proof (induction q arbitrary: \<sigma>)
  case (Cons e q)
  then show ?case using TASK_bits(1) by (auto simp: default_wake_function_def sched_wakeup_task_state)
qed simp

lemma prepare_to_wait_woken:
  assumes "waitq_prepare_to_wait q entry st cur \<sigma> = (q', \<sigma>')" "st AND TASK_NORMAL \<noteq> 0" "task_of entry = cur"
  shows "tk_state (tasks (waitq_wakeup c task_of q' \<sigma>') cur) = TASK_RUNNING" "entry \<in> set q'"
  using assms by (auto simp: waitq_prepare_to_wait_def waitq_wakeup_state set_task_state_def split: if_splits)

text \<open>The usual loop of a sleeper is \<^verbatim>\<open>waitq_prepare_to_wait\<close>, then the test of the condition, then \<^verbatim>\<open>schedule()\<close>. A wakeup
  that comes after the first is not lost: \<^verbatim>\<open>schedule()\<close> finds the task ready.\<close>

lemma waitq_wakeup_sel:
  "running (waitq_wakeup c task_of q \<sigma>) = running \<sigma>"
  "tk_cpu_id (tasks (waitq_wakeup c task_of q \<sigma>) u) = tk_cpu_id (tasks \<sigma> u)"
  "tk_cpu_target_id (tasks (waitq_wakeup c task_of q \<sigma>) u) = tk_cpu_target_id (tasks \<sigma> u)"
  unfolding waitq_wakeup_def
  by (induction q arbitrary: \<sigma>)
    (simp_all add: default_wake_function_def sched_wakeup_task_def set_task_state_def sched_add_task_def Let_def)

lemma wakeup_before_sleep_runnable:
  assumes "waitq_prepare_to_wait q entry st (running \<sigma> c) \<sigma> = (q', \<sigma>')" "st AND TASK_NORMAL \<noteq> 0" "task_of entry = running \<sigma> c"
    "tk_cpu_id (tasks \<sigma> (running \<sigma> c)) = tk_cpu_target_id (tasks \<sigma> (running \<sigma> c))"
  shows "runnable c (waitq_wakeup d task_of q' \<sigma>') (running \<sigma> c)"
proof -
  have "\<sigma>' = set_task_state (running \<sigma> c) st \<sigma>" using assms(1) by (simp add: waitq_prepare_to_wait_def)
  then show ?thesis
    using prepare_to_wait_woken(1) [where task_of = task_of, OF assms(1-3)] assms(4) by (simp add: runnable_def waitq_wakeup_sel set_task_state_def)
qed

text \<open>\<^verbatim>\<open>waitq_wake_nr\<close> wakes at most as many tasks as it is asked to; the number it returns is one less than the number of
  tasks it woke when the queue has no more waiters than that.\<close>

lemma waitq_wake_nr_locked_returns:
  assumes "int (length q) \<le> nr" "\<forall>e \<in> set q. tk_state (tasks \<sigma> (task_of e)) \<noteq> TASK_STOPPED"
  shows "fst (waitq_wake_nr_locked c task_of q nr \<sigma>) = int (length q) - 1"
proof -
  have ns: "tk_state (tasks (default_wake_function c t \<sigma>) u) \<noteq> TASK_STOPPED" if "tk_state (tasks \<sigma> u) \<noteq> TASK_STOPPED" for t u \<sigma>
    using that by (auto simp: default_wake_function_def sched_wakeup_task_state TASK_RUNNING_def TASK_STOPPED_def)
  have "fst (wake_loop c task_of nr q k \<sigma>) = k + int (length q)"
    if "k + int (length q) \<le> nr" "\<forall>e \<in> set q. tk_state (tasks \<sigma> (task_of e)) \<noteq> TASK_STOPPED" for k
    using that
  proof (induction q arbitrary: k \<sigma>)
    case (Cons e q)
    then show ?case using ns by (simp add: Let_def)
  qed simp
  then have "fst (wake_loop c task_of nr q 0 \<sigma>) = int (length q)" using assms by simp
  then show ?thesis by (auto simp: waitq_wake_nr_locked_def split: prod.split)
qed

text \<open>The first wakeup of a task puts it in the run queue. When that wakeup is not for \<^verbatim>\<open>TASK_STOPPED\<close> the task is
  put there and stays stopped, and every further one links it again.\<close>

lemma wakeup_of_stopped_links_twice:
  fixes d :: id_t
  assumes "tk_state (tasks \<sigma> t) = TASK_STOPPED" "tk_cpu_id (tasks \<sigma> t) = c"
  defines "\<sigma>' \<equiv> snd (sched_wakeup_task d t TASK_NORMAL \<sigma>)"
  shows "taskq (runqs \<sigma>' c) = taskq (runqs \<sigma> c) @ [t]"
    "taskq (runqs (snd (sched_wakeup_task d t TASK_NORMAL \<sigma>')) c) = taskq (runqs \<sigma> c) @ [t, t]"
proof -
  have n: "TASK_STOPPED AND TASK_NORMAL = 0"
    by (simp add: TASK_STOPPED_def TASK_NORMAL_def TASK_INTERRUPTIBLE_def TASK_UNINTERRUPTIBLE_def)
  show 1: "taskq (runqs \<sigma>' c) = taskq (runqs \<sigma> c) @ [t]"
    using assms(1, 2) unfolding \<sigma>'_def by (simp add: sched_wakeup_stopped sched_add_task_def Let_def rr_sched_add_task_def)
  have "tk_state (tasks \<sigma>' t) = TASK_STOPPED" "tk_cpu_id (tasks \<sigma>' t) = c"
    using assms(1, 2) n unfolding \<sigma>'_def
    by (simp add: sched_wakeup_task_state, simp add: sched_wakeup_stopped sched_add_task_def Let_def)
  then show "taskq (runqs (snd (sched_wakeup_task d t TASK_NORMAL \<sigma>')) c) = taskq (runqs \<sigma> c) @ [t, t]"
    using 1 by (auto simp: sched_wakeup_stopped sched_add_task_def Let_def rr_sched_add_task_def)
qed

section \<open>A small system\<close>

definition idle_of :: "id_t \<Rightarrow> u64" where "idle_of c = 2 * ucast c + 1"

definition some_task :: "id_t \<Rightarrow> u32 \<Rightarrow> task" where
  "some_task c st = \<lparr>tk_id = 2, tk_name = ''task'', tk_state = st, tk_uid = 0, tk_gid = 0, tk_aspace = 0, tk_cpu_id = c, tk_cpu_mask = (\<lambda>_. 1),
     tk_cpu_target_id = c, tk_ptrace = 0, tk_sig_pending = False, tk_need_resched = False, tk_started = True\<rparr>"

definition small_sched :: "u64 list \<Rightarrow> (u64 \<Rightarrow> u32) \<Rightarrow> kmem_state \<Rightarrow> sched_sys" where
  "small_sched q st s =
     \<lparr>timers = (\<lambda>t. \<lparr>tm_cpu = 0, tm_expires = 100 * t, tm_data = t, tm_function = 9\<rparr>), timer_list = (\<lambda>c. if c = 0 then q else []),
      oneshot_timer = (\<lambda>_. None), asys = boot_sys\<lparr>kheap := s\<rparr>,
      tasks = (\<lambda>t. some_task (if odd t then ucast (t div 2) else 0) (st t)),
      runqs = (\<lambda>c. \<lparr>num_tasks = 3, online = True, migrate_list = [], idle_task = idle_of c, next_int = 1, taskq = if c = 0 then q else []\<rparr>),
      running = (\<lambda>c. if c = 0 then hd q else idle_of c), resched_sent = [], sched_hz = 100\<rparr>"

lemma idle_of: "odd (idle_of c)" "ucast (idle_of c div 2) = c"
proof -
  have c: "unat c < 2 ^ 32" using unsigned_less [of c] by simp
  then have "unat (ucast c :: u64) = unat c" by (simp add: unsigned_ucast_eq take_bit_nat_eq_self)
  then have u: "unat (idle_of c) = 2 * unat c + 1" using c by (simp add: idle_of_def unat_word_ariths)
  show "odd (idle_of c)" by (simp add: idle_of_def)
  have "unat (idle_of c div 2) = unat c" by (simp add: unat_div u)
  then show "ucast (idle_of c div 2) = c" using c by (simp add: word_unat_eq_iff unsigned_ucast_eq take_bit_nat_eq_self)
qed

lemma small_sched_inv:
  assumes "q \<noteq> []" "distinct q" "\<forall>t \<in> set q. even t"
  shows "sched_inv (small_sched q st s)"
proof -
  have i: "t \<noteq> idle_of d" if "t \<in> set q" for t d using assms(3) idle_of(1) [of d] that by auto
  have "lists_ok (small_sched q st s)"
    using assms(2, 3) i by (auto simp: lists_ok_def small_sched_def linked_def some_task_def)
  then show ?thesis
    using assms(1, 3) i by (auto simp: sched_inv_def small_sched_def some_task_def idle_of)
qed

lemma schedule_returns:
  assumes inv: "sched_inv \<sigma>" and "tk_state (tasks \<sigma> (running \<sigma> c)) \<noteq> TASK_EXITED"
  shows "\<exists>\<sigma>'. schedule o1 b c now \<sigma> = Some \<sigma>'"
proof -
  obtain q n \<tau> where sw: "sched_switch o1 c now \<sigma> = (q, n, \<tau>)" by (metis prod_cases3)
  have "q = running \<sigma> c" using sw by (rule sched_switch_eq)
  then have "tk_state (tasks \<tau> q) \<noteq> TASK_EXITED"
    using sched_switch_lists(9) [OF sched_invD(1, 3, 4) [OF inv] sw] assms(2) by simp
  then show ?thesis by (simp add: schedule_def sw schedule_tail_def schedule_new_task_tail_def)
qed

text \<open>Three tasks on processor 0, the first of them running.\<close>

definition three_tasks :: sched_sys where "three_tasks = small_sched [2, 4, 6] (\<lambda>_. TASK_RUNNING) boot_heap"

lemma three_tasks_inv: "sched_inv three_tasks"
  unfolding three_tasks_def by (rule small_sched_inv) simp_all

lemma three_tasks_sel:
  "running three_tasks 0 = 2" "tk_state (tasks three_tasks 2) = TASK_RUNNING" "rr_next 0 three_tasks = 4" "ready_on 0 6 three_tasks"
  "ahead 0 6 three_tasks = {4}"
  by (simp_all add: three_tasks_def small_sched_def some_task_def rr_next_def rr_order_def runnable_def ready_on_def ahead_def idle_of_def)

lemma three_tasks_call:
  obtains \<sigma>' where "schedule False 0 0 0 three_tasks = Some \<sigma>'" "running \<sigma>' 0 = 4"
proof -
  obtain \<sigma>' where run: "schedule False 0 0 0 three_tasks = Some \<sigma>'"
    using schedule_returns [OF three_tasks_inv, of 0 False 0 0] TASK_neq(1) by (auto simp: three_tasks_sel)
  have "running \<sigma>' 0 = 4" by (simp add: schedule_inv(3) [OF three_tasks_inv run] three_tasks_sel(3))
  then show thesis using run that by blast
qed



text \<open>A task that has exited, in pages of the heap, with another one behind it.\<close>

definition exit_task :: u64 where "exit_task = fst (the (kmem_get_pages boot_heap TASK_ORDER))"

definition exit_heap :: kmem_state where "exit_heap = snd (the (kmem_get_pages boot_heap TASK_ORDER))"

definition exit_sys :: sched_sys where
  "exit_sys = small_sched [exit_task, 2] (\<lambda>t. if t = exit_task then TASK_EXITED else TASK_RUNNING) exit_heap"

lemma exit_task_addr: "map_option (\<lambda>(a, s). 2 < a \<and> a AND 1 = 0) (kmem_get_pages boot_heap TASK_ORDER) = Some True"
  by code_simp

lemma exit_task_even: "2 < exit_task" "even exit_task"
  using exit_task_addr by (auto simp: exit_task_def even_iff_mod_2_eq_zero and_one_eq)

lemma exit_task_block:
  obtains p P where "exit_task = blk_addr (kmem_pool exit_heap) p" "kmem_inv exit_heap {} (insert (p, unat TASK_ORDER + 12) P)"
    "(p, unat TASK_ORDER + 12) \<notin> P"
proof -
  have "kmem_inv boot_heap {} ({} \<union> page_block boot_heap ` {boot_pgd})" using boot_heap_pages(1) by (simp add: pages_inv_def)
  moreover have "pool_order (kmem_pool boot_heap) = 16" by code_simp
  then have "unat TASK_ORDER + 12 \<le> pool_order (kmem_pool boot_heap)" by (simp add: TASK_ORDER_def)
  ultimately show thesis
  proof (cases rule: kmem_get_pages_cases)
    case fail
    then show thesis using exit_task_addr by simp
  next
    case (block p s')
    then show thesis by (intro that [of p]) (auto simp: exit_task_def exit_heap_def)
  qed
qed

theorem schedule_correct_witness:
  "tk_state (tasks exit_sys (running exit_sys 0)) = TASK_EXITED \<and>
   (\<exists>\<sigma>' P. schedule False 0 0 0 exit_sys = Some \<sigma>' \<and> running \<sigma>' 0 = 2 \<and> queued \<sigma>' = {2} \<and> sched_inv \<sigma>' \<and>
     kmem_inv (kheap (asys \<sigma>')) {} P)"
proof -
  obtain p P where b: "exit_task = blk_addr (kmem_pool exit_heap) p" "kmem_inv exit_heap {} (insert (p, unat TASK_ORDER + 12) P)"
    "(p, unat TASK_ORDER + 12) \<notin> P" by (rule exit_task_block)
  have inv: "sched_inv exit_sys"
    unfolding exit_sys_def using exit_task_even by (intro small_sched_inv) auto
  have sel: "kheap (asys exit_sys) = exit_heap" "running exit_sys 0 = exit_task" "idle_task (runqs exit_sys 0) = idle_of 0"
    "rr_next 0 exit_sys = 2" "queued exit_sys = {exit_task, 2}" "requeued 0 exit_sys = {2}"
    using exit_task_even TASK_neq idle_of(1) [of 0]
    by (auto simp: exit_sys_def small_sched_def some_task_def rr_next_def rr_order_def runnable_def queued_def requeued_def linked_def
        split: if_splits)
  have st: "tk_state (tasks exit_sys exit_task) = TASK_EXITED" by (simp add: exit_sys_def small_sched_def some_task_def)
  have ne: "exit_task \<noteq> idle_of 0" "exit_task \<noteq> 0" using exit_task_even idle_of(1) [of 0] by auto
  have "\<exists>\<sigma>'. schedule False 0 0 0 exit_sys = Some \<sigma>' \<and> running \<sigma>' = (running exit_sys)(0 := 2) \<and> queued \<sigma>' = {2} \<and> sched_inv \<sigma>' \<and>
      kmem_inv (kheap (asys \<sigma>')) {} P"
    using schedule_correct [OF inv, of "{}" "insert (p, unat TASK_ORDER + 12) P" 0 0 p False 0] b ne st unfolding sel by simp
  then obtain \<sigma>' where r: "schedule False 0 0 0 exit_sys = Some \<sigma>'" "running \<sigma>' = (running exit_sys)(0 := 2)"
    "queued \<sigma>' = {2}" "sched_inv \<sigma>'" "kmem_inv (kheap (asys \<sigma>')) {} P" by blast
  have "running \<sigma>' 0 = 2" by (simp add: r(2))
  then show ?thesis unfolding sel(2) using r(1, 3-5) st by blast
qed


end
