(* ===== verification/Spec2Isabelle.thy ===== *)
theory Spec2Isabelle
  imports Kitten_Sched
begin

text \<open>
  Verification of the Kitten lightweight kernel.
\<close>

end
